(* ===== verification/Prelude.thy ===== *)
theory Prelude
  imports Main "HOL-Library.Word" "HOL-Library.Signed_Division"
begin

text \<open>
  Shared vocabulary of the development.

  The kernel is compiled for a 32-bit x86 (\<^verbatim>\<open>-m32 -O0\<close>), so \<open>uint\<close> and \<open>int\<close> are
  32-bit words: unsigned reading by \<open>unat\<close>, two's complement reading by \<open>sint\<close>,
  arithmetic wraps.  Kernel memory is a function from 32-bit addresses to bytes.

  Every kernel routine is a function from a state to an \<open>outcome\<close>:
  it returns a value and a new state, panics, runs into a fault (undefined behaviour of
  the C program or a processor exception), spins on a lock that another CPU holds, or
  gives the CPU away through \<open>swtch\<close>.  Errors are therefore values, and every early
  return of the source is a branch of its model.
\<close>

unbundle bit_operations_syntax

named_theorems outcome_simps \<open>unfolding of the sequencing of outcomes\<close>
named_theorems frame_simps \<open>fields that an operation leaves alone\<close>

type_synonym byte = "8 word"
type_synonym u16 = "16 word"
type_synonym u32 = "32 word"
type_synonym addr = "32 word"
type_synonym memory = "addr \<Rightarrow> byte"

section \<open>Outcomes of kernel code\<close>

text \<open>
  The spin locks of the kernel, one name per \<open>struct spinlock\<close> object of the source
  (a pipe's lock lives in the page of the pipe), and the sleep channels: the addresses
  that the source passes to \<open>sleep\<close> and \<open>wakeup\<close>.
\<close>

datatype lockid =
    L_ptable | L_kmem | L_bcache | L_icache | L_ftable | L_ide | L_log | L_ticks
  | L_cons | L_input | L_pipe addr

datatype chan =
    Ch_proc nat | Ch_buf nat | Ch_inode nat | Ch_log | Ch_ticks | Ch_input
  | Ch_nread addr | Ch_nwrite addr

datatype ('a, 's) outcome =
    Ret 'a 's
  | Panic string
  | Fault string
  | Spin lockid 's
  | Swtch 's

fun bnd :: "('a, 's) outcome \<Rightarrow> ('a \<Rightarrow> 's \<Rightarrow> ('b, 's) outcome) \<Rightarrow> ('b, 's) outcome" where
  "bnd (Ret a s) f = f a s"
| "bnd (Panic msg) f = Panic msg"
| "bnd (Fault msg) f = Fault msg"
| "bnd (Spin l s) f = Spin l s"
| "bnd (Swtch s) f = Swtch s"

lemma bnd_Ret_right [simp]: "bnd r Ret = r"
  by (cases r) auto

lemma bnd_assoc [outcome_simps]: "bnd (bnd r f) g = bnd r (\<lambda>a s. bnd (f a s) g)"
  by (cases r) auto

lemma bnd_eq_Ret_iff:
  "bnd r f = Ret b t \<longleftrightarrow> (\<exists>a s. r = Ret a s \<and> f a s = Ret b t)"
  by (cases r) auto

lemma bnd_RetE [elim!]:
  assumes "bnd r f = Ret b t"
  obtains a s where "r = Ret a s" and "f a s = Ret b t"
  using assms by (auto simp: bnd_eq_Ret_iff)

text \<open>What holds of every state an outcome carries: the shape of the invariant lemmas.\<close>

fun on_state :: "('s \<Rightarrow> bool) \<Rightarrow> ('a, 's) outcome \<Rightarrow> bool" where
  "on_state P (Ret a s) = P s"
| "on_state P (Spin l s) = P s"
| "on_state P (Swtch s) = P s"
| "on_state P (Panic msg) = True"
| "on_state P (Fault msg) = True"

lemma on_state_bnd:
  assumes "on_state P r" and "\<And>a s. P s \<Longrightarrow> on_state P (f a s)"
  shows "on_state P (bnd r f)"
  using assms by (cases r) auto

lemma on_state_RetD: "on_state P r \<Longrightarrow> r = Ret a s \<Longrightarrow> P s"
  by auto

section \<open>C integers\<close>

definition int_of :: "u32 \<Rightarrow> int" where
  "int_of w = sint w"

text \<open>The C operators \<open><\<close>, \<open>\<le>\<close> on \<open>int\<close> operands.\<close>

definition slt :: "u32 \<Rightarrow> u32 \<Rightarrow> bool" where
  "slt a b \<longleftrightarrow> sint a < sint b"

definition sle :: "u32 \<Rightarrow> u32 \<Rightarrow> bool" where
  "sle a b \<longleftrightarrow> sint a \<le> sint b"

text \<open>\<open>a / b\<close> on \<open>int\<close>: truncates towards zero; a zero divisor is a divide error.\<close>

definition c_div :: "u32 \<Rightarrow> u32 \<Rightarrow> u32 option" where
  "c_div a b = (if b = 0 then None else Some (word_of_int (sint a sdiv sint b)))"

lemma slt_irrefl [simp]: "\<not> slt a a"
  by (simp add: slt_def)

lemma not_slt: "\<not> slt a b \<longleftrightarrow> sle b a"
  by (auto simp: slt_def sle_def)

lemma sint_word_of_int_32:
  fixes k :: int
  assumes "- (2 ^ 31) \<le> k" and "k < 2 ^ 31"
  shows "sint (word_of_int k :: u32) = k"
  using assms by (simp add: int_word_sint)

lemma unat_u32_less: "unat (w :: u32) < 2 ^ 32"
  using unsigned_less[where ?'a = nat, of w] by simp

lemma sint_range_32: "- (2 ^ 31) \<le> sint (w :: u32)" "sint (w :: u32) < 2 ^ 31"
  using sint_range_size[of w] by (simp_all add: word_size)

lemma sint_add_no_overflow:
  fixes a b :: u32
  assumes "- (2 ^ 31) \<le> sint a + sint b" and "sint a + sint b < 2 ^ 31"
  shows "sint (a + b) = sint a + sint b"
proof -
  have "a + b = word_of_int (sint a + sint b)"
    by simp
  with assms show ?thesis by (metis sint_word_of_int_32)
qed

lemma sint_add_nonneg:
  fixes a b :: u32
  assumes "0 \<le> sint a + sint b" and "sint a + sint b < 2 ^ 31"
  shows "sint (a + b) = sint a + sint b"
  using assms by (intro sint_add_no_overflow) auto

lemma sint_add_eq:
  fixes a b :: u32
  shows "sint a = x \<Longrightarrow> sint b = y \<Longrightarrow> 0 \<le> x + y \<Longrightarrow> x + y < 2 ^ 31 \<Longrightarrow> sint (a + b) = x + y"
  using sint_add_nonneg[of a b] by blast

lemma sint_add_wraps:
  fixes a b :: u32
  assumes "2 ^ 31 \<le> sint a + sint b"
  shows "sint (a + b) = sint a + sint b - 2 ^ 32"
proof -
  have "sint a + sint b < 2 ^ 32" using sint_range_32(2)[of a] sint_range_32(2)[of b] by simp
  then have "sint (word_of_int (sint a + sint b - 2 ^ 32) :: u32) = sint a + sint b - 2 ^ 32"
    using assms by (intro sint_word_of_int_32) simp_all
  moreover have "a + b = word_of_int (sint a + sint b - 2 ^ 32)"
    by (simp add: word_of_int_eq_iff take_bit_eq_mod)
  ultimately show ?thesis by (simp only:)
qed

section \<open>Little-endian words in memory\<close>

definition load32 :: "memory \<Rightarrow> addr \<Rightarrow> u32" where
  "load32 m a =
     (ucast (m a) OR push_bit 8 (ucast (m (a + 1))) OR
      push_bit 16 (ucast (m (a + 2))) OR push_bit 24 (ucast (m (a + 3))))"

definition store32 :: "memory \<Rightarrow> addr \<Rightarrow> u32 \<Rightarrow> memory" where
  "store32 m a v =
     m(a := ucast v, a + 1 := ucast (drop_bit 8 v),
       a + 2 := ucast (drop_bit 16 v), a + 3 := ucast (drop_bit 24 v))"

text \<open>Address ranges: \<open>in_range a d n\<close> says that \<open>a\<close> is one of the \<open>n\<close> addresses from \<open>d\<close>.\<close>

definition in_range :: "addr \<Rightarrow> addr \<Rightarrow> nat \<Rightarrow> bool" where
  "in_range a d n \<longleftrightarrow> unat (a - d) < n"

lemma in_range_0 [simp]: "\<not> in_range a d 0"
  by (simp add: in_range_def)

lemma in_range_self [simp]: "0 < n \<Longrightarrow> in_range d d n"
  by (simp add: in_range_def)

lemma in_range_mono: "in_range a d m \<Longrightarrow> m \<le> n \<Longrightarrow> in_range a d n"
  by (simp add: in_range_def)

lemma in_range_iff_offset:
  "in_range a d n \<longleftrightarrow> (\<exists>i < 2 ^ 32. i < n \<and> a = d + of_nat i)"
proof
  assume "in_range a d n"
  moreover have "a = d + of_nat (unat (a - d))" by simp
  moreover have "unat (a - d) < 2 ^ 32" by (rule unat_u32_less)
  ultimately show "\<exists>i < 2 ^ 32. i < n \<and> a = d + of_nat i"
    unfolding in_range_def by blast
next
  assume "\<exists>i < 2 ^ 32. i < n \<and> a = d + of_nat i"
  then obtain i where "i < 2 ^ 32" "i < n" "a - d = of_nat i" by auto
  then show "in_range a d n"
    by (simp add: in_range_def unat_of_nat)
qed

lemma in_range_Suc:
  assumes "n < 2 ^ 32"
  shows "in_range a d (Suc n) \<longleftrightarrow> a = d \<or> in_range a (d + 1) n"
proof (cases "a = d")
  case False
  then have "a - d \<noteq> 0" by simp
  then have "unat (a - (d + 1)) = unat (a - d) - 1"
    by (metis (no_types) diff_diff_eq unat_minus_one)
  moreover have "0 < unat (a - d)" using \<open>a - d \<noteq> 0\<close> by (simp add: unat_gt_0)
  ultimately show ?thesis using False by (auto simp: in_range_def)
qed (simp add: in_range_def)

lemma in_range_4:
  "in_range a d 4 \<longleftrightarrow> a = d \<or> a = d + 1 \<or> a = d + 2 \<or> a = d + 3"
proof -
  have "(4::nat) = Suc (Suc (Suc (Suc 0)))" by simp
  then show ?thesis by (simp only:) (simp add: in_range_Suc add.assoc)
qed

lemma store32_outside: "\<not> in_range a d 4 \<Longrightarrow> store32 m d v a = m a"
  by (simp add: store32_def in_range_4)

lemma load32_cong:
  assumes "\<And>b. in_range b a 4 \<Longrightarrow> m b = m' b"
  shows "load32 m a = load32 m' a"
  using assms by (simp add: load32_def in_range_4)

lemma load32_store32_same [simp]: "load32 (store32 m a v) a = v"
proof (rule bit_word_eqI)
  fix n assume "n < LENGTH(32)"
  then consider "n < 8" | "8 \<le> n" "n < 16" | "16 \<le> n" "n < 24" | "24 \<le> n" "n < 32"
    by force
  then show "bit (load32 (store32 m a v) a) n \<longleftrightarrow> bit v n"
    by cases (auto simp: load32_def store32_def bit_simps)
qed

lemma load32_store32_other:
  assumes "\<And>b. in_range b a 4 \<Longrightarrow> \<not> in_range b d 4"
  shows "load32 (store32 m d v) a = load32 m a"
  by (rule load32_cong) (simp add: assms store32_outside)

text \<open>A range that does not go round the address space is an interval of numbers.\<close>

lemma in_range_nat:
  assumes "unat d + n \<le> 2 ^ 32"
  shows "in_range a d n \<longleftrightarrow> unat d \<le> unat a \<and> unat a < unat d + n"
proof (cases "unat d \<le> unat a")
  case True
  then have "unat (a - d) = unat a - unat d" by (simp add: unat_sub word_le_nat_alt)
  with True show ?thesis by (auto simp: in_range_def)
next
  case False
  then have "unat (a - d) = unat a + 2 ^ 32 - unat d"
    using unat_sub_if_size[of a d] by (simp add: word_size)
  with False assms show ?thesis by (simp add: in_range_def)
qed

end
