(* ===== verification/Mmu.thy ===== *)
theory Mmu
  imports Prelude
begin

text \<open>
  The page arithmetic of \<open>mmu.h\<close> and the address layout of \<open>memlayout.h\<close>: constants,
  rounding to page boundaries, the split of a virtual address into directory index, table
  index and offset, the two parts of a page table entry, and the kernel's direct map.
\<close>

definition PGSIZE :: u32 where "PGSIZE = 4096"
definition KERNBASE :: addr where "KERNBASE = 0x80000000"
definition EXTMEM :: addr where "EXTMEM = 0x100000"
definition PHYSTOP :: addr where "PHYSTOP = 0xE000000"
definition DEVSPACE :: addr where "DEVSPACE = 0xFE000000"
definition NPDENTRIES :: nat where "NPDENTRIES = 1024"
definition NPTENTRIES :: nat where "NPTENTRIES = 1024"

definition PTE_P :: u32 where "PTE_P = 0x001"
definition PTE_W :: u32 where "PTE_W = 0x002"
definition PTE_U :: u32 where "PTE_U = 0x004"

definition PGROUNDUP :: "u32 \<Rightarrow> u32" where
  "PGROUNDUP sz = (sz + PGSIZE - 1) AND NOT (PGSIZE - 1)"

definition PGROUNDDOWN :: "u32 \<Rightarrow> u32" where
  "PGROUNDDOWN a = a AND NOT (PGSIZE - 1)"

definition PDX :: "addr \<Rightarrow> u32" where
  "PDX va = drop_bit 22 va AND 0x3FF"

definition PTX :: "addr \<Rightarrow> u32" where
  "PTX va = drop_bit 12 va AND 0x3FF"

definition PGADDR :: "u32 \<Rightarrow> u32 \<Rightarrow> u32 \<Rightarrow> addr" where
  "PGADDR d t ofs = push_bit 22 d OR push_bit 12 t OR ofs"

definition PTE_ADDR :: "u32 \<Rightarrow> addr" where
  "PTE_ADDR pte = pte AND NOT 0xFFF"

definition PTE_FLAGS :: "u32 \<Rightarrow> u32" where
  "PTE_FLAGS pte = pte AND 0xFFF"

definition v2p :: "addr \<Rightarrow> addr" where
  "v2p a = a - KERNBASE"

definition p2v :: "addr \<Rightarrow> addr" where
  "p2v a = a + KERNBASE"

section \<open>Rounding\<close>

lemma mask_12: "(4095 :: u32) = mask 12"
  by (simp add: mask_eq_exp_minus_1)

lemma mask_10: "(1023 :: u32) = mask 10"
  by (simp add: mask_eq_exp_minus_1)

lemma and_NOT_mask_12: "a AND NOT (mask 12) = a - a mod 4096" for a :: u32
proof -
  have "NOT a AND take_bit 12 a = 0" by (auto simp: bit_eq_iff bit_simps)
  then have "a - take_bit 12 a = a AND NOT (take_bit 12 a)"
    by (rule disjunctive_diff_eq_and_not)
  also have "\<dots> = a AND NOT (mask 12)" by (auto simp: bit_eq_iff bit_simps)
  finally show ?thesis by (simp add: take_bit_eq_mod)
qed

lemma PGROUNDDOWN_eq: "PGROUNDDOWN a = a - a mod 4096"
  using and_NOT_mask_12[of a] by (simp add: PGROUNDDOWN_def PGSIZE_def mask_12)

lemma PGROUNDUP_eq: "PGROUNDUP a = PGROUNDDOWN (a + 4095)"
  by (simp add: PGROUNDUP_def PGROUNDDOWN_def PGSIZE_def add.commute)

lemma unat_mod_4096: "unat (a mod 4096) = unat a mod 4096" for a :: u32
  by (simp add: unat_mod_distrib)

lemma unat_PGROUNDDOWN: "unat (PGROUNDDOWN a) = unat a div 4096 * 4096"
proof -
  have "a mod 4096 \<le> a" by (simp add: word_le_nat_alt unat_mod_4096)
  then have "unat (PGROUNDDOWN a) = unat a - unat a mod 4096"
    by (simp add: PGROUNDDOWN_eq unat_sub unat_mod_4096)
  then show ?thesis by (simp add: minus_mod_eq_div_mult)
qed

lemma unat_PGROUNDUP:
  assumes "unat a + 4095 < 2 ^ 32"
  shows "unat (PGROUNDUP a) = (unat a + 4095) div 4096 * 4096"
proof -
  have "unat (a + 4095) = unat a + 4095" using assms by (simp add: unat_word_ariths)
  then show ?thesis by (simp add: PGROUNDUP_eq unat_PGROUNDDOWN)
qed

definition page_aligned :: "addr \<Rightarrow> bool" where
  "page_aligned a \<longleftrightarrow> a mod PGSIZE = 0"

lemma page_aligned_unat: "page_aligned a \<longleftrightarrow> unat a mod 4096 = 0"
  unfolding page_aligned_def PGSIZE_def by (metis unat_mod_4096 unat_eq_zero)

lemma page_aligned_PGROUNDDOWN [simp]: "page_aligned (PGROUNDDOWN a)"
  by (simp add: page_aligned_unat unat_PGROUNDDOWN)

lemma page_aligned_PGROUNDUP [simp]: "page_aligned (PGROUNDUP a)"
  by (simp add: PGROUNDUP_eq)

lemma PGROUNDDOWN_aligned: "page_aligned a \<Longrightarrow> PGROUNDDOWN a = a"
  by (simp add: PGROUNDDOWN_eq page_aligned_def PGSIZE_def)

lemma page_aligned_bound:
  assumes "page_aligned a"
  shows "unat a + 4095 < 2 ^ 32"
proof -
  obtain k where k: "unat a = 4096 * k"
    using assms by (auto simp: page_aligned_unat mod_eq_0_iff_dvd elim: dvdE)
  then have "k < 1048576" using unat_u32_less[of a] by simp
  then show ?thesis by (simp add: k)
qed

lemma PGROUNDUP_aligned: "page_aligned a \<Longrightarrow> PGROUNDUP a = a"
proof -
  assume a: "page_aligned a"
  then have "unat (PGROUNDUP a) = (unat a + 4095) div 4096 * 4096"
    by (intro unat_PGROUNDUP page_aligned_bound)
  moreover obtain k where "unat a = 4096 * k"
    using a by (auto simp: page_aligned_unat mod_eq_0_iff_dvd elim: dvdE)
  then have "(unat a + 4095) div 4096 * 4096 = unat a" by simp
  ultimately show ?thesis by (simp only: word_unat_eq_iff)
qed

lemma page_floor_iff:
  fixes x y :: nat
  assumes "y \<le> x" and "y mod 4096 = 0"
  shows "x - y < 4096 \<longleftrightarrow> x div 4096 * 4096 = y"
proof
  assume "x - y < 4096"
  moreover obtain k where "y = 4096 * k" using assms(2) by (auto simp: mod_eq_0_iff_dvd)
  ultimately have "x = 4096 * k + (x - y)" and "x - y < 4096" using assms(1) by auto
  then have "x div 4096 = k" by (metis div_less div_mult_self4 add_0_left add.commute zero_neq_numeral)
  with \<open>y = 4096 * k\<close> show "x div 4096 * 4096 = y" by simp
next
  assume "x div 4096 * 4096 = y"
  then have "x - y = x mod 4096" by (metis minus_div_mult_eq_mod)
  then show "x - y < 4096" by simp
qed

section \<open>Address and entry parts\<close>

lemma PGADDR_parts: "PGADDR (PDX va) (PTX va) (va AND 0xFFF) = va"
proof (rule bit_word_eqI)
  fix n assume "n < LENGTH(32)"
  then show "bit (PGADDR (PDX va) (PTX va) (va AND 0xFFF)) n \<longleftrightarrow> bit va n"
    unfolding PGADDR_def PDX_def PTX_def mask_10 mask_12
    by (cases "n < 12"; cases "n < 22") (auto simp: bit_simps)
qed

lemma small_word_bits:
  fixes w :: u32
  assumes "unat w < 2 ^ k" and "bit w n"
  shows "n < k"
proof (rule ccontr)
  assume "\<not> n < k"
  then have "(2::nat) ^ k \<le> 2 ^ n" by simp
  with assms(1) have "unat w < 2 ^ n" by (rule less_le_trans)
  then have "unat w div 2 ^ n = 0" by simp
  moreover have "bit (unat w) n" using assms(2) by (simp add: bit_unsigned_iff impossible_bit)
  ultimately show False by (simp add: bit_iff_odd)
qed

lemma PDX_PGADDR:
  assumes "d < 1024" and "t < 1024" and "ofs < 4096"
  shows "PDX (PGADDR d t ofs) = d" and "PTX (PGADDR d t ofs) = t"
proof -
  have d: "bit d n \<Longrightarrow> n < 10" and t: "bit t n \<Longrightarrow> n < 10" and ofs: "bit ofs n \<Longrightarrow> n < 12" for n
    using assms small_word_bits[of d 10] small_word_bits[of t 10] small_word_bits[of ofs 12]
    by (auto simp: word_less_nat_alt)
  show "PDX (PGADDR d t ofs) = d"
    unfolding PGADDR_def PDX_def mask_10
    by (rule bit_word_eqI) (auto simp: bit_simps dest: d t ofs)
  show "PTX (PGADDR d t ofs) = t"
    unfolding PGADDR_def PTX_def mask_10
    by (rule bit_word_eqI) (auto simp: bit_simps dest: d t ofs)
qed

lemma PTE_parts: "PTE_ADDR pte OR PTE_FLAGS pte = pte"
  by (auto simp: PTE_ADDR_def PTE_FLAGS_def mask_12 bit_simps intro!: bit_word_eqI)

lemma p2v_v2p [simp]: "p2v (v2p a) = a" "v2p (p2v a) = a"
  by (simp_all add: p2v_def v2p_def)

end
