(* ===== verification/Spinlock.thy ===== *)
theory Spinlock
  imports Mmu
begin

text \<open>
  \<open>spinlock.c\<close> and the per-CPU state it uses (\<open>struct cpu\<close> of \<open>proc.h\<close>).

  The first part is the sequential model: \<open>pushcli\<close>, \<open>popcli\<close>, \<open>holding\<close>,
  \<open>acquire\<close>, \<open>release\<close> and \<open>getcallerpcs\<close> as functions on the machine
  state.  The record \<open>machine\<close> is extended by every later component, so these operations
  apply unchanged to the states of all of them.

  The second part interleaves any number of CPUs at the granularity of single memory
  accesses to one lock, as an inductive step relation, and shows mutual exclusion.
\<close>

section \<open>Per-CPU state and locks\<close>

text \<open>
  \<open>if_flag\<close> is the interrupt-enable bit of the processor's flags register
  (\<open>FL_IF\<close>), \<open>cr3\<close> its page directory register.
  \<open>cproc\<close> is the slot of the process the CPU runs (\<open>cpu->proc\<close>).
\<close>

record cpu =
  cpu_id :: nat
  ncli :: int
  intena :: bool
  started :: bool
  cproc :: "nat option"
  ts_ss0 :: u16
  ts_esp0 :: addr
  if_flag :: bool
  cr3 :: addr

record spinlock =
  locked :: u32
  lname :: string
  lcpu :: "nat option"
  pcs :: "u32 list"

text \<open>
  The machine: kernel memory, the frame pointer of the running kernel code, the CPUs, the
  index of the CPU that executes, and the spin locks.
\<close>

record machine =
  mem :: memory
  ebp :: addr
  cpus :: "nat \<Rightarrow> cpu"
  mycpu :: nat
  locks :: "lockid \<Rightarrow> spinlock"

text \<open>A CPU and a lock as the loader leaves them: all bytes zero.\<close>

definition zero_cpu :: cpu where
  "zero_cpu = \<lparr>cpu_id = 0, ncli = 0, intena = False, started = False, cproc = None,
     ts_ss0 = 0, ts_esp0 = 0, if_flag = False, cr3 = 0\<rparr>"

definition zero_lock :: spinlock where
  "zero_lock = \<lparr>locked = 0, lname = [], lcpu = None, pcs = replicate 10 0\<rparr>"

abbreviation this_cpu :: "'a machine_scheme \<Rightarrow> cpu" where
  "this_cpu s \<equiv> cpus s (mycpu s)"

definition upd_cpu :: "(cpu \<Rightarrow> cpu) \<Rightarrow> 'a machine_scheme \<Rightarrow> 'a machine_scheme" where
  "upd_cpu f s = s\<lparr>cpus := (cpus s)(mycpu s := f (this_cpu s))\<rparr>"

definition upd_lock :: "lockid \<Rightarrow> (spinlock \<Rightarrow> spinlock) \<Rightarrow> 'a machine_scheme \<Rightarrow> 'a machine_scheme" where
  "upd_lock l f s = s\<lparr>locks := (locks s)(l := f (locks s l))\<rparr>"

section \<open>Interrupt nesting\<close>

definition cli :: "'a machine_scheme \<Rightarrow> 'a machine_scheme" where
  "cli s = upd_cpu (\<lambda>c. c\<lparr>if_flag := False\<rparr>) s"

definition sti :: "'a machine_scheme \<Rightarrow> 'a machine_scheme" where
  "sti s = upd_cpu (\<lambda>c. c\<lparr>if_flag := True\<rparr>) s"

definition pushcli :: "'a machine_scheme \<Rightarrow> (unit, 'a machine_scheme) outcome" where
  "pushcli s =
     (let fl = if_flag (this_cpu s);
          s1 = cli s;
          n = ncli (this_cpu s1);
          s2 = upd_cpu (\<lambda>c. c\<lparr>ncli := n + 1\<rparr>) s1
      in Ret () (if n = 0 then upd_cpu (\<lambda>c. c\<lparr>intena := fl\<rparr>) s2 else s2))"

definition popcli :: "'a machine_scheme \<Rightarrow> (unit, 'a machine_scheme) outcome" where
  "popcli s =
     (if if_flag (this_cpu s) then Panic ''popcli - interruptible''
      else let s1 = upd_cpu (\<lambda>c. c\<lparr>ncli := ncli c - 1\<rparr>) s in
        if ncli (this_cpu s1) < 0 then Panic ''popcli''
        else if ncli (this_cpu s1) = 0 \<and> intena (this_cpu s1) then Ret () (sti s1)
        else Ret () s1)"

section \<open>Call stack recording\<close>

text \<open>
  \<open>getcallerpcs\<close> follows the chain of saved frame pointers: at most ten frames, stopping
  at a frame pointer that is null, outside the kernel or all ones; the rest is zero.
\<close>

fun walk_frames :: "memory \<Rightarrow> nat \<Rightarrow> addr \<Rightarrow> u32 list" where
  "walk_frames m 0 fp = []"
| "walk_frames m (Suc n) fp =
     (if fp = 0 \<or> fp < KERNBASE \<or> fp = 0xffffffff then replicate (Suc n) 0
      else load32 m (fp + 4) # walk_frames m n (load32 m fp))"

definition getcallerpcs :: "memory \<Rightarrow> addr \<Rightarrow> u32 list" where
  "getcallerpcs m v = walk_frames m 10 (v - 8)"

section \<open>The lock operations\<close>

definition initlock :: "lockid \<Rightarrow> string \<Rightarrow> 'a machine_scheme \<Rightarrow> 'a machine_scheme" where
  "initlock l nm s = upd_lock l (\<lambda>k. k\<lparr>lname := nm, locked := 0, lcpu := None\<rparr>) s"

definition holding :: "lockid \<Rightarrow> 'a machine_scheme \<Rightarrow> bool" where
  "holding l s \<longleftrightarrow> locked (locks s l) \<noteq> 0 \<and> lcpu (locks s l) = Some (mycpu s)"

text \<open>
  \<open>acquire\<close> spins while \<open>xchg\<close> finds the lock taken.  In the sequential model
  nothing else runs, so a taken lock is the outcome \<open>Spin\<close>.  The frame pointer that
  \<open>getcallerpcs(&lk, ...)\<close> starts from is that of \<open>acquire\<close>: two words below its
  first argument.
\<close>

definition xchg :: "lockid \<Rightarrow> u32 \<Rightarrow> 'a machine_scheme \<Rightarrow> u32 \<times> 'a machine_scheme" where
  "xchg l v s = (locked (locks s l), upd_lock l (\<lambda>k. k\<lparr>locked := v\<rparr>) s)"

definition acquire :: "lockid \<Rightarrow> 'a machine_scheme \<Rightarrow> (unit, 'a machine_scheme) outcome" where
  "acquire l s = bnd (pushcli s) (\<lambda>_ s.
     if holding l s then Panic ''acquire''
     else case xchg l 1 s of (old, s') \<Rightarrow>
       if old \<noteq> 0 then Spin l s'
       else Ret () (upd_lock l (\<lambda>k. k\<lparr>lcpu := Some (mycpu s'),
                                      pcs := getcallerpcs (mem s') (ebp s' + 8)\<rparr>) s'))"

definition release :: "lockid \<Rightarrow> 'a machine_scheme \<Rightarrow> (unit, 'a machine_scheme) outcome" where
  "release l s =
     (if \<not> holding l s then Panic ''release''
      else let s1 = upd_lock l (\<lambda>k. k\<lparr>pcs := (pcs k)[0 := 0], lcpu := None\<rparr>) s;
               s2 = snd (xchg l 0 s1)
           in popcli s2)"

section \<open>Sequential properties\<close>

lemma upd_cpu_simps [simp]:
  "mem (upd_cpu f s) = mem s" "ebp (upd_cpu f s) = ebp s" "mycpu (upd_cpu f s) = mycpu s"
  "locks (upd_cpu f s) = locks s" "machine.more (upd_cpu f s) = machine.more s"
  "cpus (upd_cpu f s) = (cpus s)(mycpu s := f (this_cpu s))"
  by (simp_all add: upd_cpu_def)

lemma upd_lock_simps [simp]:
  "mem (upd_lock l g s) = mem s" "ebp (upd_lock l g s) = ebp s" "mycpu (upd_lock l g s) = mycpu s"
  "cpus (upd_lock l g s) = cpus s" "machine.more (upd_lock l g s) = machine.more s"
  "locks (upd_lock l g s) = (locks s)(l := g (locks s l))"
  by (simp_all add: upd_lock_def)

lemma upd_lock_upd_lock: "upd_lock l f (upd_lock l g s) = upd_lock l (\<lambda>k. f (g k)) s"
  by (simp add: upd_lock_def)

lemma upd_cpu_upd_cpu: "upd_cpu f (upd_cpu g s) = upd_cpu (\<lambda>c. f (g c)) s"
  by (simp add: upd_cpu_def)

lemma upd_cpu_cong: "f (this_cpu s) = g (this_cpu s) \<Longrightarrow> upd_cpu f s = upd_cpu g s"
  by (simp add: upd_cpu_def)

lemma if_flag_off_idem: "\<not> if_flag c \<Longrightarrow> c\<lparr>if_flag := False\<rparr> = c"
  by (cases c) simp

text \<open>
  A CPU is in order when its nesting count is not negative and interrupts are off exactly
  when the count is positive or were off before; the second half is what \<open>popcli\<close>
  checks.
\<close>

definition cpu_wf :: "'a machine_scheme \<Rightarrow> bool" where
  "cpu_wf s \<longleftrightarrow> 0 \<le> ncli (this_cpu s) \<and> (0 < ncli (this_cpu s) \<longrightarrow> \<not> if_flag (this_cpu s))"

lemma length_walk_frames: "length (walk_frames m n fp) = n"
  by (induction m n fp rule: walk_frames.induct) auto

lemma length_getcallerpcs [simp]: "length (getcallerpcs m v) = 10"
  by (simp add: getcallerpcs_def length_walk_frames)

text \<open>The state after the CPU has pushed one level, and after it has popped one.\<close>

definition pushed :: "'a machine_scheme \<Rightarrow> 'a machine_scheme" where
  "pushed s = upd_cpu (\<lambda>c. c\<lparr>if_flag := False, ncli := ncli c + 1,
      intena := (if ncli c = 0 then if_flag c else intena c)\<rparr>) s"

definition popped :: "'a machine_scheme \<Rightarrow> 'a machine_scheme" where
  "popped s = upd_cpu (\<lambda>c. c\<lparr>ncli := ncli c - 1,
      if_flag := (ncli c = 1 \<and> intena c)\<rparr>) s"

lemma pushcli_eq: "pushcli s = Ret () (pushed s)"
  by (simp add: pushcli_def pushed_def cli_def upd_cpu_def Let_def)

lemma popcli_eq:
  assumes "cpu_wf s" and "0 < ncli (this_cpu s)"
  shows "popcli s = Ret () (popped s)"
proof -
  have "\<not> if_flag (this_cpu s)" using assms by (simp add: cpu_wf_def)
  then have "\<not> (ncli (this_cpu s) = 1 \<and> intena (this_cpu s)) \<Longrightarrow>
      upd_cpu (\<lambda>c. c\<lparr>ncli := ncli c - 1\<rparr>) s = popped s"
    unfolding popped_def by (intro upd_cpu_cong) (auto simp: if_flag_off_idem)
  with assms show ?thesis
    by (auto simp: popcli_def cpu_wf_def sti_def upd_cpu_upd_cpu Let_def popped_def
        intro: upd_cpu_cong)
qed

lemma popped_pushed:
  assumes "cpu_wf s"
  shows "popped (pushed s) = s\<lparr>cpus := (cpus s)(mycpu s := (this_cpu s)
      \<lparr>intena := (if ncli (this_cpu s) = 0 then if_flag (this_cpu s) else intena (this_cpu s))\<rparr>)\<rparr>"
  using assms
  by (cases "this_cpu s") (auto simp: pushed_def popped_def upd_cpu_def cpu_wf_def)

lemma pushed_simps [simp]:
  "mem (pushed s) = mem s" "ebp (pushed s) = ebp s" "mycpu (pushed s) = mycpu s"
  "locks (pushed s) = locks s" "machine.more (pushed s) = machine.more s"
  "ncli (this_cpu (pushed s)) = ncli (this_cpu s) + 1"
  "if_flag (this_cpu (pushed s)) = False"
  "cproc (cpus (pushed s) i) = cproc (cpus s i)"
  by (simp_all add: pushed_def)

lemma popped_simps [simp]:
  "mem (popped s) = mem s" "ebp (popped s) = ebp s" "mycpu (popped s) = mycpu s"
  "locks (popped s) = locks s" "machine.more (popped s) = machine.more s"
  "ncli (this_cpu (popped s)) = ncli (this_cpu s) - 1"
  "cproc (cpus (popped s) i) = cproc (cpus s i)"
  by (simp_all add: popped_def)

definition lock_free :: "lockid \<Rightarrow> 'a machine_scheme \<Rightarrow> bool" where
  "lock_free l s \<longleftrightarrow> locked (locks s l) = 0"

definition lock_taken :: "lockid \<Rightarrow> 'a machine_scheme \<Rightarrow> 'a machine_scheme" where
  "lock_taken l s = upd_lock l (\<lambda>k. k\<lparr>locked := 1, lcpu := Some (mycpu s),
      pcs := getcallerpcs (mem s) (ebp s + 8)\<rparr>) (pushed s)"

definition lock_dropped :: "lockid \<Rightarrow> 'a machine_scheme \<Rightarrow> 'a machine_scheme" where
  "lock_dropped l s = popped (upd_lock l (\<lambda>k. k\<lparr>pcs := (pcs k)[0 := 0], lcpu := None, locked := 0\<rparr>) s)"

lemma acquire_free: "lock_free l s \<Longrightarrow> acquire l s = Ret () (lock_taken l s)"
  by (simp add: acquire_def pushcli_eq lock_free_def holding_def xchg_def lock_taken_def
      upd_lock_upd_lock)

lemma acquire_held_here: "holding l s \<Longrightarrow> acquire l s = Panic ''acquire''"
  by (simp add: acquire_def pushcli_eq holding_def)

lemma acquire_held_elsewhere:
  "\<not> lock_free l s \<Longrightarrow> lcpu (locks s l) \<noteq> Some (mycpu s) \<Longrightarrow>
   acquire l s = Spin l (upd_lock l (\<lambda>k. k\<lparr>locked := 1\<rparr>) (pushed s))"
  by (simp add: acquire_def pushcli_eq lock_free_def holding_def xchg_def)

lemma release_held:
  assumes "holding l s" and "cpu_wf s" and "0 < ncli (this_cpu s)"
  shows "release l s = Ret () (lock_dropped l s)"
proof -
  let ?s = "upd_lock l (\<lambda>k. k\<lparr>pcs := (pcs k)[0 := 0], lcpu := None, locked := 0\<rparr>) s"
  have "snd (xchg l 0 (upd_lock l (\<lambda>k. k\<lparr>pcs := (pcs k)[0 := 0], lcpu := None\<rparr>) s)) = ?s"
    by (simp add: xchg_def upd_lock_upd_lock)
  moreover have "popcli ?s = Ret () (popped ?s)"
    using assms by (intro popcli_eq) (auto simp: cpu_wf_def)
  ultimately show ?thesis
    using assms(1) by (simp add: release_def lock_dropped_def)
qed

lemma release_not_held: "\<not> holding l s \<Longrightarrow> release l s = Panic ''release''"
  by (simp add: release_def)

section \<open>Critical sections\<close>

text \<open>
  What the callers of the lock operations need: inside the section the lock is held and
  interrupts are off, and releasing brings back a state that is \<open>balanced\<close> with the one
  before: the same locks are free and those that are not are untouched, and nesting count,
  interrupt flag and current process of each CPU are as before.
\<close>

definition cpu_sync :: "cpu \<Rightarrow> cpu \<Rightarrow> bool" where
  "cpu_sync c d \<longleftrightarrow> ncli d = ncli c \<and> if_flag d = if_flag c \<and> cproc d = cproc c \<and>
     (0 < ncli c \<longrightarrow> intena d = intena c)"

definition balanced :: "'a machine_scheme \<Rightarrow> 'a machine_scheme \<Rightarrow> bool" where
  "balanced s s' \<longleftrightarrow> mycpu s' = mycpu s \<and>
     (\<forall>l. (lock_free l s' \<longleftrightarrow> lock_free l s) \<and> (lock_free l s \<or> locks s' l = locks s l)) \<and>
     (\<forall>i. cpu_sync (cpus s i) (cpus s' i))"

lemma cpu_sync_refl [simp, intro]: "cpu_sync c c"
  by (simp add: cpu_sync_def)

lemma cpu_sync_trans: "cpu_sync c d \<Longrightarrow> cpu_sync d e \<Longrightarrow> cpu_sync c e"
  by (simp add: cpu_sync_def)

lemma balanced_refl [simp, intro]: "balanced s s"
  by (simp add: balanced_def)

lemma balanced_trans: "balanced s t \<Longrightarrow> balanced t u \<Longrightarrow> balanced s u"
  unfolding balanced_def by (metis cpu_sync_trans)

lemma balanced_cpu_wf: "balanced s t \<Longrightarrow> cpu_wf t \<longleftrightarrow> cpu_wf s"
  by (simp add: balanced_def cpu_wf_def cpu_sync_def)

lemma balanced_lock_free: "balanced s t \<Longrightarrow> lock_free l t \<longleftrightarrow> lock_free l s"
  by (simp add: balanced_def)

definition in_section :: "lockid \<Rightarrow> 'a machine_scheme \<Rightarrow> 'a machine_scheme \<Rightarrow> bool" where
  "in_section l s t \<longleftrightarrow>
     mycpu t = mycpu s \<and> locks t = locks (lock_taken l s) \<and> cpus t = cpus (lock_taken l s)"

lemma in_section_taken [simp, intro]: "in_section l s (lock_taken l s)"
  by (simp add: in_section_def lock_taken_def)

lemma in_section_holding: "in_section l s t \<Longrightarrow> holding l t"
  by (simp add: in_section_def holding_def lock_taken_def)

lemma release_in_section:
  assumes "in_section l s t" and "cpu_wf s"
  shows "release l t = Ret () (lock_dropped l t)"
proof (rule release_held)
  show "holding l t" using assms(1) by (rule in_section_holding)
  show "cpu_wf t" "0 < ncli (this_cpu t)"
    using assms by (auto simp: in_section_def lock_taken_def pushed_def cpu_wf_def)
qed

lemma balanced_section:
  assumes "in_section l s t" and "cpu_wf s" and "lock_free l s"
  shows "balanced s (lock_dropped l t)"
  using assms
  by (auto simp: balanced_def cpu_sync_def in_section_def lock_dropped_def lock_taken_def lock_free_def
      pushed_def popped_def cpu_wf_def)

text \<open>One acquire/release pair around a computation \<open>f\<close> that leaves locks and CPUs alone.\<close>

lemma section_run:
  assumes "lock_free l s" and "cpu_wf s" and "in_section l s (f (lock_taken l s))"
  shows "bnd (acquire l s) (\<lambda>_ s. bnd (release l (f s)) (g s)) =
         g (lock_taken l s) () (lock_dropped l (f (lock_taken l s)))"
  using assms by (simp add: acquire_free release_in_section)

lemma lock_taken_fields [simp]:
  "mem (lock_taken l s) = mem s" "ebp (lock_taken l s) = ebp s" "mycpu (lock_taken l s) = mycpu s"
  "cproc (cpus (lock_taken l s) i) = cproc (cpus s i)"
  by (simp_all add: lock_taken_def)

lemma lock_dropped_fields [simp]:
  "mem (lock_dropped l s) = mem s" "ebp (lock_dropped l s) = ebp s" "mycpu (lock_dropped l s) = mycpu s"
  "cproc (cpus (lock_dropped l s) i) = cproc (cpus s i)"
  by (simp_all add: lock_dropped_def)

lemmas lock_unfolds = lock_taken_def lock_dropped_def pushed_def popped_def upd_lock_def upd_cpu_def

text \<open>
  A section whose body may itself have opened and closed other sections: seen from inside,
  the state is balanced with the one \<open>acquire\<close> left.
\<close>

definition within :: "lockid \<Rightarrow> 'a machine_scheme \<Rightarrow> 'a machine_scheme \<Rightarrow> bool" where
  "within l s t \<longleftrightarrow> balanced (lock_taken l s) t"

lemma within_taken [simp, intro]: "within l s (lock_taken l s)"
  by (simp add: within_def)

lemma within_trans: "within l s t \<Longrightarrow> balanced t u \<Longrightarrow> within l s u"
  unfolding within_def by (rule balanced_trans)

lemma lock_free_lock_taken: "lock_free k (lock_taken l s) \<longleftrightarrow> k \<noteq> l \<and> lock_free k s"
  by (simp add: lock_free_def lock_taken_def)

lemma within_lock_free: "within l s t \<Longrightarrow> lock_free k t \<longleftrightarrow> k \<noteq> l \<and> lock_free k s"
  by (simp add: within_def balanced_lock_free lock_free_lock_taken)

lemma cpu_wf_lock_taken: "cpu_wf s \<Longrightarrow> cpu_wf (lock_taken l s)"
  by (simp add: cpu_wf_def lock_taken_def pushed_def)

lemma within_cpu:
  assumes "within l s t" and "cpu_wf s"
  shows "cpu_wf t" and "0 < ncli (this_cpu t)" and "\<not> if_flag (this_cpu t)" and "holding l t"
proof -
  have b: "balanced (lock_taken l s) t" using assms(1) by (simp add: within_def)
  show "cpu_wf t" using balanced_cpu_wf[OF b] cpu_wf_lock_taken[OF assms(2)] by simp
  have "cpu_sync (this_cpu (lock_taken l s)) (this_cpu t)" using b by (simp add: balanced_def)
  then show "0 < ncli (this_cpu t)" "\<not> if_flag (this_cpu t)"
    using assms(2) by (auto simp: cpu_sync_def lock_taken_def pushed_def cpu_wf_def)
  have "\<not> lock_free l (lock_taken l s)" by (simp add: lock_free_lock_taken)
  then have "locks t l = locks (lock_taken l s) l" using b by (auto simp: balanced_def)
  then show "holding l t" using b by (simp add: holding_def lock_taken_def balanced_def)
qed

lemma within_release:
  assumes "within l s t" and "cpu_wf s"
  shows "release l t = Ret () (lock_dropped l t)"
  by (rule release_held) (use within_cpu[OF assms] in simp_all)

lemma within_balanced:
  assumes "within l s t" and "cpu_wf s" and "lock_free l s"
  shows "balanced s (lock_dropped l t)"
proof -
  have b: "balanced (lock_taken l s) t" using assms(1) by (simp add: within_def)
  then have sync: "cpu_sync (cpus (lock_taken l s) i) (cpus t i)" and me: "mycpu t = mycpu s" for i
    by (simp_all add: balanced_def)
  have "cpu_sync (cpus s i) (cpus (lock_dropped l t) i)" for i
    using sync[of i] me assms(2)
    by (auto simp: cpu_sync_def lock_dropped_def lock_taken_def pushed_def popped_def cpu_wf_def)
  moreover have "(lock_free k s \<or> locks t k = locks s k) \<and> lock_free k t = lock_free k s" if "k \<noteq> l" for k
  proof -
    have "lock_free k t = lock_free k (lock_taken l s) \<and>
        (lock_free k (lock_taken l s) \<or> locks t k = locks (lock_taken l s) k)"
      using b unfolding balanced_def by blast
    moreover have "locks (lock_taken l s) k = locks s k" using that by (simp add: lock_taken_def)
    ultimately show ?thesis using that by (simp add: lock_free_lock_taken)
  qed
  ultimately show ?thesis
    using me assms(3) by (auto simp: balanced_def lock_dropped_def lock_free_def)
qed

section \<open>Any number of CPUs on one lock\<close>

text \<open>
  Where a CPU is in the bodies of \<open>acquire\<close> and \<open>release\<close>, one value per
  access to the shared lock: spinning on \<open>xchg\<close>, having won it but not yet recorded
  as holder, holding, and the three stores of \<open>release\<close>.  \<open>Dead\<close> is a CPU that
  panicked in one of the two \<open>holding\<close> checks or in \<open>popcli\<close>.
\<close>

datatype lkpc = Out | Spinning | Got | Held | Clearing | Releasing | Popping | Dead

type_synonym lkconf = "machine \<times> (nat \<Rightarrow> lkpc)"

abbreviation on_cpu :: "nat \<Rightarrow> 'a machine_scheme \<Rightarrow> 'a machine_scheme" where
  "on_cpu c s \<equiv> s\<lparr>mycpu := c\<rparr>"

inductive lk_step :: "lockid \<Rightarrow> lkconf \<Rightarrow> lkconf \<Rightarrow> bool" for l where
  toggle: "pc c = Out \<Longrightarrow>
     lk_step l (s, pc) (upd_cpu (\<lambda>k. k\<lparr>if_flag := b\<rparr>) (on_cpu c s), pc)"
| enter: "pc c = Out \<Longrightarrow> pushcli (on_cpu c s) = Ret () s' \<Longrightarrow>
     lk_step l (s, pc) (s', pc(c := (if holding l s' then Dead else Spinning)))"
| spin: "pc c = Spinning \<Longrightarrow> xchg l 1 (on_cpu c s) = (old, s') \<Longrightarrow> old \<noteq> 0 \<Longrightarrow>
     lk_step l (s, pc) (s', pc)"
| got: "pc c = Spinning \<Longrightarrow> xchg l 1 (on_cpu c s) = (0, s') \<Longrightarrow>
     lk_step l (s, pc) (s', pc(c := Got))"
| record_holder: "pc c = Got \<Longrightarrow>
     lk_step l (s, pc)
       (upd_lock l (\<lambda>k. k\<lparr>lcpu := Some c, pcs := getcallerpcs (mem s) (ebp s + 8)\<rparr>) (on_cpu c s),
        pc(c := Held))"
| release_check: "pc c = Held \<Longrightarrow>
     lk_step l (s, pc)
       (if holding l (on_cpu c s)
        then (upd_lock l (\<lambda>k. k\<lparr>pcs := (pcs k)[0 := 0]\<rparr>) (on_cpu c s), pc(c := Clearing))
        else (s, pc(c := Dead)))"
| clear_holder: "pc c = Clearing \<Longrightarrow>
     lk_step l (s, pc) (upd_lock l (\<lambda>k. k\<lparr>lcpu := None\<rparr>) (on_cpu c s), pc(c := Releasing))"
| unlock: "pc c = Releasing \<Longrightarrow> xchg l 0 (on_cpu c s) = (old, s') \<Longrightarrow>
     lk_step l (s, pc) (s', pc(c := Popping))"
| pop: "pc c = Popping \<Longrightarrow> popcli (on_cpu c s) = Ret () s' \<Longrightarrow>
     lk_step l (s, pc) (s', pc(c := Out))"
| pop_panic: "pc c = Popping \<Longrightarrow> popcli (on_cpu c s) = Panic msg \<Longrightarrow>
     lk_step l (s, pc) (s, pc(c := Dead))"

text \<open>Start: no CPU is in the lock code, no CPU has interrupts pushed off, the lock is free.\<close>

definition lk_init :: "lockid \<Rightarrow> lkconf \<Rightarrow> bool" where
  "lk_init l cf \<longleftrightarrow> (\<forall>c. snd cf c = Out) \<and> (\<forall>c. ncli (cpus (fst cf) c) = 0) \<and>
     locked (locks (fst cf) l) = 0 \<and> lcpu (locks (fst cf) l) = None"

inductive lk_reachable :: "lockid \<Rightarrow> lkconf \<Rightarrow> bool" for l where
  start: "lk_init l cf \<Longrightarrow> lk_reachable l cf"
| step: "lk_reachable l cf \<Longrightarrow> lk_step l cf cf' \<Longrightarrow> lk_reachable l cf'"

definition owns :: "lkpc \<Rightarrow> bool" where
  "owns p \<longleftrightarrow> p \<in> {Got, Held, Clearing, Releasing}"

text \<open>
  The invariant names the owner of the lock, if there is one: the CPU between winning the
  \<open>xchg\<close> and undoing it.  The second half is about each CPU on its own.
\<close>

definition lk_owner :: "lockid \<Rightarrow> lkconf \<Rightarrow> nat option \<Rightarrow> bool" where
  "lk_owner l cf ow \<longleftrightarrow>
     (\<forall>c. owns (snd cf c) \<longleftrightarrow> ow = Some c) \<and>
     (locked (locks (fst cf) l) \<noteq> 0 \<longleftrightarrow> ow \<noteq> None) \<and>
     (\<forall>c. lcpu (locks (fst cf) l) = Some c \<longleftrightarrow> snd cf c \<in> {Held, Clearing})"

definition lk_cpu_ok :: "cpu \<Rightarrow> lkpc \<Rightarrow> bool" where
  "lk_cpu_ok k p \<longleftrightarrow> p \<noteq> Dead \<and> ncli k = (if p = Out then 0 else 1) \<and> (p \<noteq> Out \<longrightarrow> \<not> if_flag k)"

definition lk_inv :: "lockid \<Rightarrow> lkconf \<Rightarrow> bool" where
  "lk_inv l cf \<longleftrightarrow> (\<exists>ow. lk_owner l cf ow) \<and> (\<forall>c. lk_cpu_ok (cpus (fst cf) c) (snd cf c))"

lemma lk_inv_init: "lk_init l cf \<Longrightarrow> lk_inv l cf"
  by (auto simp: lk_init_def lk_inv_def lk_owner_def lk_cpu_ok_def owns_def)

lemma lk_cpu_ok_update:
  assumes "\<forall>d. lk_cpu_ok (ks d) (pc d)" and "lk_cpu_ok k p"
  shows "lk_cpu_ok ((ks(c := k)) d) ((pc(c := p)) d)"
  using assms by simp

lemma lk_owner_keep:
  assumes "lk_owner l (s, pc) ow" and "locks s' l = locks s l" and "pc c \<in> {Out, Spinning, Popping}"
    and "p \<in> {Out, Spinning, Popping, Dead}"
  shows "lk_owner l (s', pc(c := p)) ow"
proof -
  have "owns (pc c) \<longleftrightarrow> ow = Some c" using assms(1) by (simp add: lk_owner_def)
  moreover have "\<not> owns (pc c)" "\<not> owns p" "pc c \<notin> {Held, Clearing}" "p \<notin> {Held, Clearing}"
    using assms(3,4) by (auto simp: owns_def)
  ultimately show ?thesis using assms(1,2) by (simp add: lk_owner_def)
qed

lemma lk_step_cpu_ok:
  assumes "lk_step l cf cf'" and "lk_inv l cf"
  shows "lk_cpu_ok (cpus (fst cf') d) (snd cf' d)"
proof -
  obtain ow where ow: "lk_owner l cf ow" and ok: "\<forall>c. lk_cpu_ok (cpus (fst cf) c) (snd cf c)"
    using assms(2) by (auto simp: lk_inv_def)
  from assms(1) ow ok show ?thesis
  proof (cases rule: lk_step.cases)
    case (enter pc c s s')
    then have "lcpu (locks s l) \<noteq> Some c" using ow by (simp add: lk_owner_def)
    with enter ok show ?thesis
      by (auto simp: pushcli_eq pushed_def holding_def lk_cpu_ok_def split: if_splits)
  next
    case (release_check pc c s)
    then have "holding l (on_cpu c s)" using ow by (auto simp: lk_owner_def holding_def owns_def)
    with release_check ok show ?thesis by (auto simp: lk_cpu_ok_def)
  next
    case (pop pc c s s')
    moreover from pop ok have "popcli (on_cpu c s) = Ret () (popped (on_cpu c s))"
      by (intro popcli_eq) (auto simp: lk_cpu_ok_def cpu_wf_def split: if_splits dest: spec[of _ c])
    moreover from pop ok have "lk_cpu_ok (cpus s c) Popping" by (auto dest: spec[of _ c])
    then have "lk_cpu_ok ((cpus s c)\<lparr>ncli := ncli (cpus s c) - 1,
        if_flag := (ncli (cpus s c) = 1 \<and> intena (cpus s c))\<rparr>) Out"
      by (simp add: lk_cpu_ok_def)
    moreover from calculation have "s' = popped (on_cpu c s)" by simp
    ultimately show ?thesis
      using ok lk_cpu_ok_update[of "cpus s" pc _ Out c d] by (simp add: popped_def)
  next
    case (pop_panic pc c s msg)
    moreover from pop_panic ok have "popcli (on_cpu c s) = Ret () (popped (on_cpu c s))"
      by (intro popcli_eq) (auto simp: lk_cpu_ok_def cpu_wf_def split: if_splits dest: spec[of _ c])
    ultimately show ?thesis by simp
  qed (auto simp: lk_cpu_ok_def xchg_def)
qed

lemma lk_step_owner:
  assumes "lk_step l cf cf'" and "lk_inv l cf"
  shows "\<exists>ow. lk_owner l cf' ow"
proof -
  obtain ow where ow: "lk_owner l cf ow"
    using assms(2) by (auto simp: lk_inv_def)
  from assms(1) show ?thesis
  proof (cases rule: lk_step.cases)
    case (toggle pc c s b)
    with ow show ?thesis by (auto simp: lk_owner_def)
  next
    case (enter pc c s s')
    then have "\<not> holding l s'" using ow by (auto simp: lk_owner_def holding_def pushcli_eq)
    with enter ow show ?thesis
      by (auto simp: pushcli_eq intro!: exI[of _ ow] elim!: lk_owner_keep)
  next
    case (spin pc c s old s')
    with ow show ?thesis by (auto simp: lk_owner_def xchg_def)
  next
    case (got pc c s s')
    with ow have "ow = None" by (auto simp: lk_owner_def xchg_def)
    with got ow have "lk_owner l cf' (Some c)" by (auto simp: lk_owner_def xchg_def owns_def)
    then show ?thesis ..
  next
    case (record_holder pc c s)
    with ow have "ow = Some c" by (auto simp: lk_owner_def owns_def)
    with record_holder ow have "lk_owner l cf' (Some c)" by (auto simp: lk_owner_def owns_def)
    then show ?thesis ..
  next
    case (release_check pc c s)
    with ow have "ow = Some c" and "holding l (on_cpu c s)"
      by (auto simp: lk_owner_def owns_def holding_def)
    with release_check ow have "lk_owner l cf' (Some c)" by (auto simp: lk_owner_def owns_def)
    then show ?thesis ..
  next
    case (clear_holder pc c s)
    with ow have "ow = Some c" by (auto simp: lk_owner_def owns_def)
    with clear_holder ow have "lk_owner l cf' (Some c)" by (auto simp: lk_owner_def owns_def)
    then show ?thesis ..
  next
    case (unlock pc c s old s')
    with ow have "ow = Some c" by (auto simp: lk_owner_def owns_def)
    with unlock ow have "lk_owner l cf' None" by (auto simp: lk_owner_def owns_def xchg_def)
    then show ?thesis ..
  next
    case (pop pc c s s')
    then have "locks s' l = locks s l"
      by (auto simp: popcli_def sti_def Let_def split: if_splits)
    with pop ow show ?thesis by (auto elim!: lk_owner_keep)
  next
    case (pop_panic pc c s msg)
    with ow show ?thesis by (auto elim!: lk_owner_keep)
  qed
qed

lemma lk_step_inv: "lk_step l cf cf' \<Longrightarrow> lk_inv l cf \<Longrightarrow> lk_inv l cf'"
  using lk_step_owner lk_step_cpu_ok unfolding lk_inv_def by blast

lemma lk_reachable_inv: "lk_reachable l cf \<Longrightarrow> lk_inv l cf"
  by (induction rule: lk_reachable.induct) (auto intro: lk_inv_init lk_step_inv)

lemma lk_steps_reachable: "(lk_step l)\<^sup>*\<^sup>* cf cf' \<Longrightarrow> lk_reachable l cf \<Longrightarrow> lk_reachable l cf'"
  by (induction rule: rtranclp_induct) (auto intro: lk_reachable.step)

text \<open>The sequential \<open>acquire\<close> is an uninterrupted run of the micro steps of one CPU.\<close>

lemma acquire_micro_steps:
  assumes "acquire l (on_cpu c s) = Ret () s'" and "pc c = Out"
  shows "(lk_step l)\<^sup>*\<^sup>* (s, pc) (s', pc(c := Held))"
proof -
  let ?s1 = "pushed (on_cpu c s)"
  from assms(1) have nh: "\<not> holding l ?s1" and free: "locked (locks ?s1 l) = 0"
    by (auto simp: acquire_def pushcli_eq xchg_def split: if_splits)
  let ?s2 = "upd_lock l (\<lambda>k. k\<lparr>locked := 1\<rparr>) ?s1"
  let ?s3 = "upd_lock l (\<lambda>k. k\<lparr>lcpu := Some c, pcs := getcallerpcs (mem ?s2) (ebp ?s2 + 8)\<rparr>) ?s2"
  have c: "on_cpu c ?s1 = ?s1" "on_cpu c ?s2 = ?s2" by (simp_all add: pushed_def upd_cpu_def upd_lock_def)
  have s': "s' = ?s3" using assms(1) nh free by (simp add: acquire_def pushcli_eq xchg_def)
  have "lk_step l (s, pc) (?s1, pc(c := Spinning))"
    using lk_step.enter[of pc c s ?s1 l] assms(2) nh by (simp add: pushcli_eq)
  moreover have "lk_step l (?s1, pc(c := Spinning)) (?s2, pc(c := Got))"
    using lk_step.got[of "pc(c := Spinning)" c l ?s1 ?s2] free by (simp add: c xchg_def)
  moreover have "lk_step l (?s2, pc(c := Got)) (?s3, pc(c := Held))"
    using lk_step.record_holder[of "pc(c := Got)" c l ?s2] by (simp add: c)
  ultimately show ?thesis unfolding s' by (blast intro: rtranclp.rtrancl_into_rtrancl rtranclp.rtrancl_refl)
qed

section \<open>Properties\<close>

text \<open>
  C15: mutual exclusion.  In every state that any number of CPUs reach by interleaving the
  single memory accesses of \<open>acquire\<close> and \<open>release\<close>, at most one CPU is between winning
  the \<open>xchg\<close> and undoing it, no CPU has panicked in the checks of these functions, and
  every CPU inside them has interrupts off at nesting depth one.
\<close>

theorem lock_mutual_exclusion:
  assumes "lk_reachable l (s, pc)"
  shows "(owns (pc c) \<and> owns (pc d) \<longrightarrow> c = d) \<and> pc c \<noteq> Dead \<and>
    (pc c \<noteq> Out \<longrightarrow> \<not> if_flag (cpus s c) \<and> ncli (cpus s c) = 1)"
proof -
  obtain ow where "lk_owner l (s, pc) ow" and ok: "lk_cpu_ok (cpus s c) (pc c)"
    using lk_reachable_inv[OF assms] by (auto simp: lk_inv_def)
  then have "owns (pc c) \<and> owns (pc d) \<longrightarrow> c = d" by (auto simp: lk_owner_def)
  with ok show ?thesis by (auto simp: lk_cpu_ok_def)
qed

definition idle_machine :: machine where
  "idle_machine = \<lparr>mem = (\<lambda>_. 0), ebp = 0, cpus = (\<lambda>_. zero_cpu\<lparr>if_flag := True\<rparr>), mycpu = 0,
     locks = (\<lambda>_. zero_lock)\<rparr>"

theorem lock_mutual_exclusion_witness:
  "\<exists>s pc. lk_reachable L_ptable (s, pc) \<and> pc 3 = Held \<and> \<not> if_flag (cpus s 3) \<and> \<not> owns (pc 5)"
proof -
  let ?s = "lock_taken L_ptable (on_cpu 3 idle_machine)" and ?pc = "(\<lambda>_. Out)(3 := Held)"
  have "lock_free L_ptable (on_cpu 3 idle_machine)"
    by (simp add: lock_free_def idle_machine_def zero_lock_def)
  then have "(lk_step L_ptable)\<^sup>*\<^sup>* (idle_machine, \<lambda>_. Out) (?s, ?pc)"
    by (intro acquire_micro_steps acquire_free) simp_all
  moreover have "lk_init L_ptable (idle_machine, \<lambda>_. Out)"
    by (simp add: lk_init_def idle_machine_def zero_cpu_def zero_lock_def)
  ultimately have r: "lk_reachable L_ptable (?s, ?pc)"
    using lk_steps_reachable lk_reachable.start by blast
  moreover have "owns (?pc 3)" by (simp add: owns_def)
  ultimately show ?thesis
    using lock_mutual_exclusion[OF r, of 3 5] by (intro exI[of _ ?s] exI[of _ ?pc]) auto
qed

text \<open>
  C16: acquire and release.  On a free lock \<open>acquire\<close> returns with the lock held by this CPU
  and interrupts off; acquiring it again panics; \<open>release\<close> then returns with the nesting
  depth, the interrupt flag and all locks as they were before; releasing it again panics.
\<close>

theorem acquire_release_balanced:
  assumes "lock_free l s" and "cpu_wf s"
  shows "\<exists>t u. acquire l s = Ret () t \<and> holding l t \<and> \<not> if_flag (this_cpu t) \<and>
    acquire l t = Panic ''acquire'' \<and> release l t = Ret () u \<and> balanced s u \<and> lock_free l u \<and>
    release l u = Panic ''release''"
proof -
  let ?t = "lock_taken l s"
  have sec: "in_section l s ?t" by simp
  have u: "release l ?t = Ret () (lock_dropped l ?t)" using sec assms(2) by (rule release_in_section)
  have bal: "balanced s (lock_dropped l ?t)" using sec assms(2,1) by (rule balanced_section)
  have free: "lock_free l (lock_dropped l ?t)" using assms(1) balanced_lock_free[OF bal] by simp
  then have "release l (lock_dropped l ?t) = Panic ''release''"
    by (intro release_not_held) (simp add: holding_def lock_free_def)
  moreover have "holding l ?t" using sec by (rule in_section_holding)
  moreover have "\<not> if_flag (this_cpu ?t)" by (simp add: lock_taken_def pushed_def)
  ultimately show ?thesis
    using acquire_free[OF assms(1)] u bal free acquire_held_here[of l ?t] by blast
qed

theorem acquire_release_balanced_witness:
  "\<exists>t u. acquire L_kmem idle_machine = Ret () t \<and> holding L_kmem t \<and> release L_kmem t = Ret () u"
proof -
  have "lock_free L_kmem idle_machine" "cpu_wf idle_machine"
    by (simp_all add: lock_free_def cpu_wf_def idle_machine_def zero_lock_def zero_cpu_def)
  then show ?thesis using acquire_release_balanced[of L_kmem idle_machine] by blast
qed

end
