(* ===== verification/Cprintf.thy ===== *)
theory Cprintf
  imports Spinlock
begin

text \<open>
  The output half of \<open>console.c\<close>, with \<open>uartputc\<close> of \<open>uart.c\<close>: characters go to the
  serial port and to the text screen.  The screen memory and the cursor registers are a
  device of their own, apart from kernel memory.  \<open>cprintf\<close> interprets its format string
  and takes the console lock unless the kernel is panicking.
\<close>

section \<open>State\<close>

text \<open>
  \<open>cons_locking\<close> is \<open>cons.locking\<close>; \<open>uart_on\<close> tells whether a serial port was found and
  \<open>uart_out\<close> is what was sent to it, oldest first; \<open>crt\<close> are the cells of the text
  screen and \<open>crt_pos\<close> is the cursor register pair of the display controller.
\<close>

record cstate = machine +
  cons_locking :: bool
  panicked :: bool
  uart_on :: bool
  uart_out :: "byte list"
  crt :: "nat \<Rightarrow> u16"
  crt_pos :: nat

section \<open>Characters\<close>

definition BACKSPACE :: u32 where "BACKSPACE = 0x100"

definition uartputc :: "u32 \<Rightarrow> 'a cstate_scheme \<Rightarrow> 'a cstate_scheme" where
  "uartputc c s = (if uart_on s then s\<lparr>uart_out := uart_out s @ [ucast c]\<rparr> else s)"

text \<open>
  Scrolling moves 23 lines of 80 cells up and clears from the new cursor to the end of
  line 24.  The number of cells to clear is computed as an \<open>int\<close>; a cursor beyond the
  screen would make it negative, and the call clear all of memory.
\<close>

definition scroll_up :: "(nat \<Rightarrow> u16) \<Rightarrow> nat \<Rightarrow> nat \<Rightarrow> u16" where
  "scroll_up cells pos i =
     (if pos \<le> i \<and> i < 24 * 80 then 0
      else if i < 23 * 80 then cells (i + 80) else cells i)"

definition cgaputc :: "u32 \<Rightarrow> 'a cstate_scheme \<Rightarrow> (unit, 'a cstate_scheme) outcome" where
  "cgaputc c s =
     (let pos = crt_pos s;
          s = (if c = 10 \<or> c = BACKSPACE then s
               else s\<lparr>crt := (crt s)(pos := ucast (c AND 0xff) OR 0x0700)\<rparr>);
          pos = (if c = 10 then pos + (80 - pos mod 80)
                 else if c = BACKSPACE then pos - 1 else pos + 1)
      in if pos div 80 \<ge> 24 then
           (if pos - 80 > 24 * 80 then Fault ''cgaputc: cursor off the screen''
            else let s = s\<lparr>crt := scroll_up (crt s) (pos - 80)\<rparr> in
              Ret () (s\<lparr>crt_pos := pos - 80, crt := (crt s)(pos - 80 := 0x0720)\<rparr>))
         else Ret () (s\<lparr>crt_pos := pos, crt := (crt s)(pos := 0x0720)\<rparr>))"

text \<open>After a panic on any CPU the others stop at their next character.\<close>

definition consputc :: "u32 \<Rightarrow> 'a cstate_scheme \<Rightarrow> (unit, 'a cstate_scheme) outcome" where
  "consputc c s =
     (if panicked s then Panic ''consputc: frozen''
      else let s = (if c = BACKSPACE then uartputc 8 (uartputc 32 (uartputc 8 s)) else uartputc c s)
           in cgaputc c s)"

fun consputs :: "u32 list \<Rightarrow> 'a cstate_scheme \<Rightarrow> (unit, 'a cstate_scheme) outcome" where
  "consputs [] s = Ret () s"
| "consputs (c # cs) s = bnd (consputc c s) (\<lambda>_ s. consputs cs s)"

section \<open>Numbers\<close>

definition digit_char :: "nat \<Rightarrow> u32" where
  "digit_char d = (if d < 10 then 48 + of_nat d else 97 + of_nat (d - 10))"

text \<open>The digits of a number, lowest first, as the loop of \<open>printint\<close> stores them.\<close>

function digits_of :: "nat \<Rightarrow> nat \<Rightarrow> nat list" where
  "digits_of base x =
     x mod base # (if x div base = 0 \<or> base < 2 then [] else digits_of base (x div base))"
  by pat_completeness auto
termination digits_of
proof (relation "measure snd")
  fix base x :: nat
  assume "\<not> (x div base = 0 \<or> base < 2)"
  then have "0 < x" and "1 < base" by (auto intro: Nat.gr0I)
  then show "((base, x div base), base, x) \<in> measure snd" by simp
qed simp

declare digits_of.simps [simp del]

definition printint_chars :: "u32 \<Rightarrow> nat \<Rightarrow> bool \<Rightarrow> u32 list" where
  "printint_chars xx base sign =
     (let neg = (sign \<and> slt xx 0);
          x = (if neg then - xx else xx);
          buf = map digit_char (digits_of base (unat x));
          buf = (if neg then buf @ [45] else buf)
      in rev buf)"

definition printint :: "u32 \<Rightarrow> nat \<Rightarrow> bool \<Rightarrow> 'a cstate_scheme \<Rightarrow> (unit, 'a cstate_scheme) outcome" where
  "printint xx base sign s = consputs (printint_chars xx base sign) s"

section \<open>Formatted output\<close>

text \<open>
  The words on the stack after the format string: a number, or a pointer to a string
  (\<open>None\<close> for the null pointer).  Reading past the last argument reads whatever the
  stack holds and is a fault here.
\<close>

datatype cparg = A_int u32 | A_str "byte list option"

fun pop_arg :: "cparg list \<Rightarrow> (cparg \<Rightarrow> cparg list \<Rightarrow> 's \<Rightarrow> ('a, 's) outcome) \<Rightarrow> 's \<Rightarrow> ('a, 's) outcome" where
  "pop_arg [] f s = Fault ''cprintf: missing argument''"
| "pop_arg (a # as) f s = f a as s"

definition char32 :: "char \<Rightarrow> u32" where
  "char32 c = of_nat (of_char c)"

definition put_number :: "cparg \<Rightarrow> nat \<Rightarrow> bool \<Rightarrow> 'a cstate_scheme \<Rightarrow> (unit, 'a cstate_scheme) outcome" where
  "put_number a base sign s =
     (case a of A_int n \<Rightarrow> printint n base sign s
      | A_str _ \<Rightarrow> Fault ''cprintf: pointer printed as a number'')"

definition put_string :: "cparg \<Rightarrow> 'a cstate_scheme \<Rightarrow> (unit, 'a cstate_scheme) outcome" where
  "put_string a s =
     (case a of A_str None \<Rightarrow> consputs (map char32 ''(null)'') s
      | A_str (Some bs) \<Rightarrow> consputs (map ucast bs) s
      | A_int _ \<Rightarrow> Fault ''cprintf: number used as a string'')"

fun cprintf_loop :: "string \<Rightarrow> cparg list \<Rightarrow> 'a cstate_scheme \<Rightarrow> (unit, 'a cstate_scheme) outcome" where
  "cprintf_loop [] args s = Ret () s"
| "cprintf_loop [c] args s = (if c \<noteq> CHR ''%'' then consputc (char32 c) s else Ret () s)"
| "cprintf_loop (c # d # cs) args s =
     (if c \<noteq> CHR ''%'' then bnd (consputc (char32 c) s) (\<lambda>_ s. cprintf_loop (d # cs) args s)
      else if d = CHR ''d'' then
        pop_arg args (\<lambda>a args s. bnd (put_number a 10 True s) (\<lambda>_ s. cprintf_loop cs args s)) s
      else if d = CHR ''x'' \<or> d = CHR ''p'' then
        pop_arg args (\<lambda>a args s. bnd (put_number a 16 False s) (\<lambda>_ s. cprintf_loop cs args s)) s
      else if d = CHR ''s'' then
        pop_arg args (\<lambda>a args s. bnd (put_string a s) (\<lambda>_ s. cprintf_loop cs args s)) s
      else if d = CHR ''%'' then bnd (consputc 37 s) (\<lambda>_ s. cprintf_loop cs args s)
      else bnd (consputc 37 s) (\<lambda>_ s. bnd (consputc (char32 d) s) (\<lambda>_ s. cprintf_loop cs args s)))"

definition cprintf :: "string \<Rightarrow> cparg list \<Rightarrow> 'a cstate_scheme \<Rightarrow> (unit, 'a cstate_scheme) outcome" where
  "cprintf fmt args s =
     (let locking = cons_locking s in
      bnd (if locking then acquire L_cons s else Ret () s) (\<lambda>_ s.
      bnd (cprintf_loop fmt args s) (\<lambda>_ s.
      if locking then release L_cons s else Ret () s)))"

text \<open>A line feed, for format strings.\<close>

abbreviation LF :: string where "LF \<equiv> [CHR 0x0A]"

end
