(* ===== verification/Cstring.thy ===== *)
theory Cstring
  imports Prelude
begin

text \<open>
  The kernel's \<open>string.c\<close> and the two string instructions of \<open>x86.h\<close> it uses,
  over byte memory with 32-bit addresses.  A routine that returns its destination pointer
  is modelled by the memory it leaves; the returned pointer is its first argument.

  Shown: the word-wise and the byte-wise path of \<open>memset\<close> have the same effect;
  \<open>memmove\<close> copies correctly for overlapping ranges; \<open>strncpy\<close> pads and never
  writes outside its \<open>n\<close> bytes; \<open>safestrcpy\<close> always leaves a terminated string;
  \<open>strncmp\<close> and \<open>memcmp\<close> decide equality of what they read; \<open>strlen\<close> returns
  whenever the string is terminated.
\<close>

section \<open>Definitions\<close>

text \<open>\<open>rep stosb\<close> and \<open>rep stosl\<close> with the direction flag cleared.\<close>

fun stosb :: "memory \<Rightarrow> addr \<Rightarrow> byte \<Rightarrow> nat \<Rightarrow> memory" where
  "stosb m a c 0 = m"
| "stosb m a c (Suc n) = stosb (m(a := c)) (a + 1) c n"

fun stosl :: "memory \<Rightarrow> addr \<Rightarrow> u32 \<Rightarrow> nat \<Rightarrow> memory" where
  "stosl m a d 0 = m"
| "stosl m a d (Suc n) = stosl (store32 m a d) (a + 4) d n"

definition memset :: "memory \<Rightarrow> addr \<Rightarrow> u32 \<Rightarrow> u32 \<Rightarrow> memory" where
  "memset m dst c n =
     (if dst mod 4 = 0 \<and> n mod 4 = 0 then
        let c' = c AND 0xFF in
        stosl m dst (push_bit 24 c' OR push_bit 16 c' OR push_bit 8 c' OR c') (unat (n div 4))
      else stosb m dst (ucast c) (unat n))"

fun memcmp_loop :: "memory \<Rightarrow> addr \<Rightarrow> addr \<Rightarrow> nat \<Rightarrow> int" where
  "memcmp_loop m s1 s2 0 = 0"
| "memcmp_loop m s1 s2 (Suc n) =
     (if m s1 \<noteq> m s2 then uint (m s1) - uint (m s2)
      else memcmp_loop m (s1 + 1) (s2 + 1) n)"

definition memcmp :: "memory \<Rightarrow> addr \<Rightarrow> addr \<Rightarrow> u32 \<Rightarrow> int" where
  "memcmp m v1 v2 n = memcmp_loop m v1 v2 (unat n)"

text \<open>The two copy loops of \<open>memmove\<close>; the backward loop gets the end pointers.\<close>

fun copy_fwd :: "memory \<Rightarrow> addr \<Rightarrow> addr \<Rightarrow> nat \<Rightarrow> memory" where
  "copy_fwd m d s 0 = m"
| "copy_fwd m d s (Suc n) = copy_fwd (m(d := m s)) (d + 1) (s + 1) n"

fun copy_bwd :: "memory \<Rightarrow> addr \<Rightarrow> addr \<Rightarrow> nat \<Rightarrow> memory" where
  "copy_bwd m d s 0 = m"
| "copy_bwd m d s (Suc n) = copy_bwd (m(d - 1 := m (s - 1))) (d - 1) (s - 1) n"

definition memmove :: "memory \<Rightarrow> addr \<Rightarrow> addr \<Rightarrow> u32 \<Rightarrow> memory" where
  "memmove m dst src n =
     (if src < dst \<and> src + n > dst then copy_bwd m (dst + n) (src + n) (unat n)
      else copy_fwd m dst src (unat n))"

definition memcpy :: "memory \<Rightarrow> addr \<Rightarrow> addr \<Rightarrow> u32 \<Rightarrow> memory" where
  "memcpy m dst src n = memmove m dst src n"

fun strncmp_loop :: "memory \<Rightarrow> addr \<Rightarrow> addr \<Rightarrow> nat \<Rightarrow> int" where
  "strncmp_loop m p q 0 = 0"
| "strncmp_loop m p q (Suc n) =
     (if m p \<noteq> 0 \<and> m p = m q then strncmp_loop m (p + 1) (q + 1) n
      else uint (m p) - uint (m q))"

definition strncmp :: "memory \<Rightarrow> addr \<Rightarrow> addr \<Rightarrow> u32 \<Rightarrow> int" where
  "strncmp m p q n = strncmp_loop m p q (unat n)"

text \<open>\<open>strncpy\<close>: the copying loop and the padding loop; \<open>n\<close> is a signed \<open>int\<close>.\<close>

fun pad_zero :: "memory \<Rightarrow> addr \<Rightarrow> nat \<Rightarrow> memory" where
  "pad_zero m s 0 = m"
| "pad_zero m s (Suc n) = pad_zero (m(s := 0)) (s + 1) n"

fun strncpy_loop :: "memory \<Rightarrow> addr \<Rightarrow> addr \<Rightarrow> nat \<Rightarrow> memory" where
  "strncpy_loop m s t 0 = m"
| "strncpy_loop m s t (Suc n) =
     (let m' = m(s := m t) in
      if m t \<noteq> 0 then strncpy_loop m' (s + 1) (t + 1) n else pad_zero m' (s + 1) n)"

definition strncpy :: "memory \<Rightarrow> addr \<Rightarrow> addr \<Rightarrow> u32 \<Rightarrow> memory" where
  "strncpy m s t n = strncpy_loop m s t (nat (sint n))"

fun safestrcpy_loop :: "memory \<Rightarrow> addr \<Rightarrow> addr \<Rightarrow> nat \<Rightarrow> memory" where
  "safestrcpy_loop m s t 0 = m(s := 0)"
| "safestrcpy_loop m s t (Suc n) =
     (let m' = m(s := m t) in
      if m t \<noteq> 0 then safestrcpy_loop m' (s + 1) (t + 1) n else m'(s + 1 := 0))"

definition safestrcpy :: "memory \<Rightarrow> addr \<Rightarrow> addr \<Rightarrow> u32 \<Rightarrow> memory" where
  "safestrcpy m s t n =
     (if sint n \<le> 0 then m else safestrcpy_loop m s t (nat (sint n) - 1))"

text \<open>\<open>strlen\<close> runs until it meets a zero byte: \<open>None\<close> if it never does.\<close>

partial_function (option) strlen_loop :: "memory \<Rightarrow> addr \<Rightarrow> nat \<Rightarrow> nat option" where
  "strlen_loop m s n = (if m (s + of_nat n) = 0 then Some n else strlen_loop m s (Suc n))"

definition strlen :: "memory \<Rightarrow> addr \<Rightarrow> nat option" where
  "strlen m s = strlen_loop m s 0"

text \<open>The bytes of the string at \<open>t\<close> up to its zero byte, cut at \<open>n\<close>.\<close>

fun read_str :: "memory \<Rightarrow> addr \<Rightarrow> nat \<Rightarrow> byte list" where
  "read_str m t 0 = []"
| "read_str m t (Suc n) = (if m t = 0 then [] else m t # read_str m (t + 1) n)"

lemma read_str_numeral [simp]:
  "read_str m t (numeral k) = (if m t = 0 then [] else m t # read_str m (t + 1) (pred_numeral k))"
  by (simp add: numeral_eq_Suc)

section \<open>Filling\<close>

lemma stosb_eq:
  "n < 2 ^ 32 \<Longrightarrow> stosb m a c n = (\<lambda>b. if in_range b a n then c else m b)"
proof (induction n arbitrary: m a)
  case (Suc n)
  then show ?case by (auto simp: in_range_Suc fun_eq_iff)
qed simp

lemma store32_eq_stosb:
  assumes "\<And>k. k \<in> {0, 8, 16, 24} \<Longrightarrow> ucast (drop_bit k d) = c"
  shows "store32 m a d = stosb m a c 4"
proof -
  have "stosb m a c 4 = m(a := c, a + 1 := c, a + 2 := c, a + 3 := c)"
    using stosb.simps(2)[of m a c 3] by (simp add: eval_nat_numeral add.assoc)
  moreover have "ucast d = c" using assms[of 0] by simp
  ultimately show ?thesis using assms by (simp add: store32_def)
qed

lemma stosb_add: "stosb m a c (j + k) = stosb (stosb m a c j) (a + of_nat j) c k"
  by (induction j arbitrary: m a) (simp_all add: algebra_simps)

lemma stosl_eq_stosb:
  assumes "\<And>k. k \<in> {0, 8, 16, 24} \<Longrightarrow> ucast (drop_bit k d) = c"
  shows "stosl m a d n = stosb m a c (4 * n)"
proof (induction n arbitrary: m a)
  case (Suc n)
  have "stosb m a c (4 * Suc n) = stosb (stosb m a c 4) (a + 4) c (4 * n)"
    using stosb_add[of m a c 4 "4 * n"] by simp
  then show ?case using Suc store32_eq_stosb[OF assms] by simp
qed simp

lemma fill_pattern:
  fixes c :: u32
  assumes "k \<in> {0, 8, 16, 24}"
  defines "c' \<equiv> c AND 0xFF"
  shows "ucast (drop_bit k (push_bit 24 c' OR push_bit 16 c' OR push_bit 8 c' OR c')) = (ucast c :: byte)"
proof (rule bit_word_eqI)
  have "c' = c AND mask 8" by (simp add: c'_def mask_eq_exp_minus_1)
  then have low: "bit c' i \<longleftrightarrow> i < 8 \<and> bit c i" for i
    by (auto simp: bit_simps)
  fix n assume "n < LENGTH(8)"
  then have n: "n < 8" by simp
  show "bit (ucast (drop_bit k (push_bit 24 c' OR push_bit 16 c' OR push_bit 8 c' OR c')) :: byte) n
      \<longleftrightarrow> bit (ucast c :: byte) n"
    using assms(1) n
    by (elim insertE emptyE) (simp_all add: bit_simps low)
qed

lemma memset_eq:
  "memset m dst c n = (\<lambda>a. if in_range a dst (unat n) then ucast c else m a)"
proof -
  have bytes: "stosb m dst (ucast c) (unat n) = (\<lambda>a. if in_range a dst (unat n) then ucast c else m a)"
    by (rule stosb_eq) (rule unat_u32_less)
  show ?thesis
  proof (cases "dst mod 4 = 0 \<and> n mod 4 = 0")
    case True
    have "unat n mod 4 = unat (n mod 4)" by (simp add: unat_mod_distrib)
    then have "unat n mod 4 = 0" using True by simp
    then have "4 * unat (n div 4) = unat n"
      using mult_div_mod_eq[of 4 "unat n"] by (simp add: unat_div_distrib)
    moreover have "memset m dst c n = stosb m dst (ucast c) (4 * unat (n div 4))"
      unfolding memset_def Let_def if_P[OF True] by (rule stosl_eq_stosb) (rule fill_pattern)
    ultimately show ?thesis using bytes by (simp only:)
  next
    case False
    then show ?thesis unfolding memset_def by (simp only: if_False bytes)
  qed
qed

section \<open>Copying\<close>

lemma copy_fwd_eq:
  assumes "n \<le> 2 ^ 32" and "\<not> (0 < unat (d - s) \<and> unat (d - s) < n)"
  shows "copy_fwd m d s n = (\<lambda>a. if in_range a d n then m (s + (a - d)) else m a)"
  using assms
proof (induction n arbitrary: m d s)
  case (Suc n)
  let ?m = "m(d := m s)"
  have IH: "copy_fwd ?m (d + 1) (s + 1) n =
      (\<lambda>a. if in_range a (d + 1) n then ?m (s + 1 + (a - (d + 1))) else ?m a)"
    using Suc.prems by (intro Suc.IH) auto
  have src: "s + (a - d) \<noteq> d" if "in_range a (d + 1) n" "a \<noteq> d" for a
  proof
    assume "s + (a - d) = d"
    then have "d - s = a - d" by (simp add: algebra_simps)
    then have "unat (d - s) = unat (a - d)" by (simp only:)
    moreover have "unat (a - d) < Suc n"
      using that Suc.prems(1) by (simp add: in_range_Suc flip: in_range_def)
    moreover have "0 < unat (a - d)" using that(2) by (simp add: unat_gt_0)
    ultimately show False using Suc.prems(2) by linarith
  qed
  have "\<not> in_range d (d + 1) n"
    using Suc.prems(1) by (simp add: in_range_def unsigned_minus_1_eq_mask mask_eq_exp_minus_1)
  then show ?case
    using src Suc.prems(1) by (auto simp: IH in_range_Suc fun_eq_iff)
qed simp

lemma in_range_Suc_last:
  assumes "n < 2 ^ 32"
  shows "in_range a d (Suc n) \<longleftrightarrow> a = d + of_nat n \<or> in_range a d n"
proof -
  have "unat (of_nat n :: addr) = n" using assms by (simp add: unat_of_nat)
  then have "unat (a - d) = n \<longleftrightarrow> a = d + of_nat n"
    by (metis add_diff_cancel_left' diff_add_cancel add.commute of_nat_unat ucast_id)
  then show ?thesis by (auto simp: in_range_def less_Suc_eq)
qed

lemma copy_bwd_eq:
  assumes "n \<le> 2 ^ 32" and "\<not> (0 < unat (s - d) \<and> unat (s - d) < n)"
  shows "copy_bwd m (d + of_nat n) (s + of_nat n) n =
    (\<lambda>a. if in_range a d n then m (s + (a - d)) else m a)"
  using assms
proof (induction n arbitrary: m)
  case (Suc n)
  let ?m = "m(d + of_nat n := m (s + of_nat n))"
  have n: "n < 2 ^ 32" using Suc.prems(1) by simp
  have IH: "copy_bwd ?m (d + of_nat n) (s + of_nat n) n =
      (\<lambda>a. if in_range a d n then ?m (s + (a - d)) else ?m a)"
    using Suc.prems by (intro Suc.IH) auto
  have src: "s + (a - d) \<noteq> d + of_nat n" if "in_range a d n" for a
  proof
    assume "s + (a - d) = d + of_nat n"
    then have "s - d = of_nat n - (a - d)" by (simp add: algebra_simps)
    then have "unat (s - d) = unat (of_nat n - (a - d))" by (simp only:)
    moreover have "unat (of_nat n - (a - d)) = n - unat (a - d)"
      using that n by (subst unat_sub) (auto simp: in_range_def word_le_nat_alt unat_of_nat)
    moreover have "unat (a - d) < n" using that by (simp add: in_range_def)
    ultimately show False using Suc.prems(2) by linarith
  qed
  have last: "\<not> in_range (d + of_nat n) d n" using n by (simp add: in_range_def unat_of_nat)
  have "d + of_nat (Suc n) - 1 = d + of_nat n" "s + of_nat (Suc n) - 1 = s + of_nat n"
    by simp_all
  then have "copy_bwd m (d + of_nat (Suc n)) (s + of_nat (Suc n)) (Suc n) =
      copy_bwd ?m (d + of_nat n) (s + of_nat n) n"
    by (simp only: copy_bwd.simps)
  then show ?case
    using src last n by (auto simp: IH in_range_Suc_last fun_eq_iff)
qed simp

lemma memmove_eq:
  assumes src: "unat src + unat n < 2 ^ 32" and dst: "unat dst + unat n \<le> 2 ^ 32"
  shows "memmove m dst src n = (\<lambda>a. if in_range a dst (unat n) then m (src + (a - dst)) else m a)"
proof -
  have n: "unat n \<le> 2 ^ 32" using unat_u32_less[of n] by simp
  have sn: "unat (src + n) = unat src + unat n" using src by (simp add: unat_word_ariths)
  have sub: "unat (a - b) = (if unat b \<le> unat a then unat a - unat b else unat a + 2 ^ 32 - unat b)"
    for a b :: addr
    using unat_sub_if_size[of a b] by (simp add: word_size)
  show ?thesis
  proof (cases "src < dst \<and> src + n > dst")
    case True
    then have "unat src < unat dst" by (simp add: word_less_nat_alt)
    moreover from this have "unat (src - dst) = unat src + 2 ^ 32 - unat dst" by (simp add: sub)
    ultimately have "\<not> (0 < unat (src - dst) \<and> unat (src - dst) < unat n)"
      using dst by linarith
    from copy_bwd_eq[OF n this] True show ?thesis by (simp add: memmove_def)
  next
    case False
    then have "unat dst \<le> unat src \<or> unat src + unat n \<le> unat dst"
      using sn by (auto simp: word_less_nat_alt)
    then have "\<not> (0 < unat (dst - src) \<and> unat (dst - src) < unat n)"
      using src sub[of dst src] unat_u32_less[of dst] by (auto split: if_splits)
    from copy_fwd_eq[OF n this] show ?thesis unfolding memmove_def if_not_P[OF False] .
  qed
qed

section \<open>Comparing\<close>

lemma memcmp_loop_0_iff:
  "memcmp_loop m s1 s2 n = 0 \<longleftrightarrow> (\<forall>i < n. m (s1 + of_nat i) = m (s2 + of_nat i))"
proof (induction n arbitrary: s1 s2)
  case (Suc n)
  have "(\<forall>i < Suc n. m (s1 + of_nat i) = m (s2 + of_nat i)) \<longleftrightarrow>
      m s1 = m s2 \<and> (\<forall>i < n. m (s1 + 1 + of_nat i) = m (s2 + 1 + of_nat i))"
    by (simp add: All_less_Suc2 algebra_simps)
  then show ?case using Suc by (auto simp: word_uint_eq_iff)
qed simp

lemma strncmp_loop_0_iff:
  "strncmp_loop m p q n = 0 \<longleftrightarrow> read_str m p n = read_str m q n"
  by (induction n arbitrary: p q) (auto simp: word_uint_eq_iff)

section \<open>Copying strings\<close>

lemma length_read_str: "length (read_str m t n) \<le> n"
  by (induction n arbitrary: t) auto

lemma read_str_nonzero: "0 \<notin> set (read_str m t n)"
  by (induction n arbitrary: t) auto

lemma read_str_cong:
  assumes "\<And>a. in_range a t n \<Longrightarrow> m a = m' a" and "n < 2 ^ 32"
  shows "read_str m t n = read_str m' t n"
  using assms
proof (induction n arbitrary: t)
  case (Suc n)
  have "read_str m (t + 1) n = read_str m' (t + 1) n"
    using Suc.prems by (intro Suc.IH) (auto simp: in_range_Suc)
  then show ?case using Suc.prems(1)[of t] by simp
qed simp

lemma pad_zero_eq_stosb: "pad_zero m s n = stosb m s 0 n"
  by (induction n arbitrary: m s) auto

text \<open>The byte at position \<open>i\<close> of a string that is padded with zeros.\<close>

definition padded :: "byte list \<Rightarrow> nat \<Rightarrow> byte" where
  "padded cs i = (if i < length cs then cs ! i else 0)"

lemma padded_Nil [simp]: "padded [] i = 0"
  by (simp add: padded_def)

lemma padded_Cons: "padded (c # cs) i = (case i of 0 \<Rightarrow> c | Suc j \<Rightarrow> padded cs j)"
  by (simp add: padded_def split: nat.split)

lemma strncpy_loop_eq:
  assumes "n < 2 ^ 32" and "\<And>a. in_range a s n \<Longrightarrow> \<not> in_range a t n"
  shows "strncpy_loop m s t n =
    (\<lambda>a. if in_range a s n then padded (read_str m t n) (unat (a - s)) else m a)"
  using assms
proof (induction n arbitrary: m s t)
  case (Suc n)
  let ?m = "m(s := m t)"
  have n: "n < 2 ^ 32" using Suc.prems(1) by simp
  show ?case
  proof (cases "m t = 0")
    case True
    then show ?thesis
      using n Suc.prems(1) by (auto simp: pad_zero_eq_stosb stosb_eq in_range_Suc fun_eq_iff)
  next
    case False
    have disj: "\<not> in_range a (t + 1) n" if "in_range a (s + 1) n" for a
      using Suc.prems that n by (auto simp: in_range_Suc)
    have s_t: "\<not> in_range s (t + 1) n"
      using Suc.prems(2)[of s] n by (simp add: in_range_Suc)
    have "read_str ?m (t + 1) n = read_str m (t + 1) n"
      using n s_t by (intro read_str_cong) auto
    then have rec: "strncpy_loop m s t (Suc n) =
        (\<lambda>a. if in_range a (s + 1) n then padded (read_str m (t + 1) n) (unat (a - (s + 1))) else ?m a)"
      using False Suc.IH[where m = ?m and s = "s + 1" and t = "t + 1", OF n disj]
      by (simp only: strncpy_loop.simps Let_def not_False_eq_True if_True)
    have pos: "unat (a - s) = Suc (unat (a - (s + 1)))" if "a \<noteq> s" for a
      using that unat_minus_one[of "a - s"] by (simp add: diff_diff_eq unat_gt_0 Suc_diff_1)
    have s: "\<not> in_range s (s + 1) n"
      using n by (simp add: in_range_def unsigned_minus_1_eq_mask mask_eq_exp_minus_1)
    show ?thesis
    proof
      fix a
      show "strncpy_loop m s t (Suc n) a =
          (if in_range a s (Suc n) then padded (read_str m t (Suc n)) (unat (a - s)) else m a)"
        unfolding rec
        by (cases "a = s") (use False s n pos[of a] in \<open>simp_all add: in_range_Suc padded_Cons\<close>)
    qed
  qed
qed simp

lemma safestrcpy_loop_outside:
  "n < 2 ^ 32 - 1 \<Longrightarrow> \<not> in_range a s (Suc n) \<Longrightarrow> safestrcpy_loop m s t n a = m a"
proof (induction n arbitrary: m s t)
  case (Suc n)
  then have "a \<noteq> s" and out: "\<not> in_range a (s + 1) (Suc n)"
    by (simp_all add: in_range_Suc[of "Suc n"])
  moreover from out have "a \<noteq> s + 1" by auto
  ultimately show ?case using Suc.IH[of "s + 1"] Suc.prems(1) by (simp add: Let_def)
qed (simp add: in_range_Suc)

lemma safestrcpy_loop_read:
  assumes "n < 2 ^ 32 - 1" and "\<And>a. in_range a s (Suc n) \<Longrightarrow> \<not> in_range a t n"
  shows "read_str (safestrcpy_loop m s t n) s (Suc n) = read_str m t n"
  using assms
proof (induction n arbitrary: m s t)
  case (Suc n)
  let ?m = "m(s := m t)"
  have n: "n < 2 ^ 32 - 1" and n1: "Suc n < 2 ^ 32" using Suc.prems(1) by simp_all
  have s: "\<not> in_range s (s + 1) (Suc n)"
    using Suc.prems(1) by (simp add: in_range_def unsigned_minus_1_eq_mask mask_eq_exp_minus_1)
  show ?case
  proof (cases "m t = 0")
    case False
    have disj: "\<not> in_range a (t + 1) n" if "in_range a (s + 1) (Suc n)" for a
      using Suc.prems that n1 by (auto simp: in_range_Suc)
    have "\<not> in_range s (t + 1) n"
      using Suc.prems(2)[of s] n1 by (simp add: in_range_Suc)
    then have "read_str ?m (t + 1) n = read_str m (t + 1) n"
      using n by (intro read_str_cong) auto
    then have "read_str (safestrcpy_loop ?m (s + 1) (t + 1) n) (s + 1) (Suc n) = read_str m (t + 1) n"
      using Suc.IH[where m = ?m and s = "s + 1" and t = "t + 1", OF n disj] by (simp only:)
    moreover have "safestrcpy_loop ?m (s + 1) (t + 1) n s = m t"
      using safestrcpy_loop_outside[OF n s] by simp
    ultimately show ?thesis using False by (simp add: Let_def del: read_str.simps(2)) (simp add: False)
  qed (simp add: Let_def)
qed simp

lemma strlen_loop_found:
  assumes "m (s + of_nat (n + k)) = 0" and "\<And>i. i < k \<Longrightarrow> m (s + of_nat (n + i)) \<noteq> 0"
  shows "strlen_loop m s n = Some (n + k)"
  using assms
proof (induction k arbitrary: n)
  case 0
  then show ?case by (simp add: strlen_loop.simps)
next
  case (Suc k)
  have "strlen_loop m s (Suc n) = Some (Suc n + k)"
    using Suc.prems(1) Suc.prems(2)[of "Suc i" for i] by (intro Suc.IH) simp_all
  moreover have "m (s + of_nat n) \<noteq> 0" using Suc.prems(2)[of 0] by simp
  ultimately show ?case by (subst strlen_loop.simps) simp
qed

section \<open>Properties\<close>

text \<open>
  C20: \<open>memset\<close> fills exactly the \<open>n\<close> bytes from \<open>dst\<close> with the low byte of \<open>c\<close>, on the
  word-wise and on the byte-wise path, and changes no other byte.
\<close>

theorem memset_fills: "memset m dst c n a = (if in_range a dst (unat n) then ucast c else m a)"
  by (simp add: memset_eq)

text \<open>
  C21: \<open>memmove\<close> copies the \<open>n\<close> source bytes as they were before the call, also when source
  and destination overlap in either direction, and changes no other byte.
\<close>

theorem memmove_copies:
  assumes "unat src + unat n < 2 ^ 32" and "unat dst + unat n \<le> 2 ^ 32"
  shows "memmove m dst src n a = (if in_range a dst (unat n) then m (src + (a - dst)) else m a)"
  using memmove_eq[OF assms] by simp

theorem memmove_copies_witness:
  "memmove (\<lambda>a. ucast a) 0x102 0x100 8 0x105 = 3"
  using memmove_copies[of "0x100" 8 "0x102" "\<lambda>a. ucast a" "0x105"] by (simp add: in_range_def)

text \<open>
  C22: \<open>strncpy\<close> into a buffer that the source does not overlap.  The \<open>n\<close> bytes of the
  buffer become the string followed by zeros up to \<open>n\<close>; no other byte changes.
\<close>

theorem strncpy_copies:
  assumes "k = nat (sint n)" and "\<And>a. in_range a s k \<Longrightarrow> \<not> in_range a t k"
  shows "strncpy m s t n = (\<lambda>a. if in_range a s k then padded (read_str m t k) (unat (a - s)) else m a)"
proof -
  have "k < 2 ^ 32" using sint_range_32(2)[of n] assms(1) by simp
  then show ?thesis unfolding strncpy_def assms(1)[symmetric] using assms(2) by (rule strncpy_loop_eq)
qed

theorem strncpy_copies_witness:
  "strncpy ((\<lambda>_. 7)(0x100 := 65, 0x101 := 66, 0x102 := 0)) 0x200 0x100 4 0x203 = 0"
proof -
  have "\<not> in_range a 0x100 4" if "in_range a 0x200 4" for a :: addr
    using that by (simp add: in_range_nat)
  then show ?thesis
    using strncpy_copies[of 4 4 "0x200" "0x100" "(\<lambda>_. 7)(0x100 := 65, 0x101 := 66, 0x102 := 0)"]
    by (simp add: in_range_def padded_def)
qed

text \<open>
  C23: \<open>safestrcpy\<close> always leaves a terminated string: reading back at most \<open>n\<close> bytes gives
  the first \<open>n - 1\<close> bytes of the source string, and no byte outside the buffer changes.
\<close>

theorem safestrcpy_terminates:
  assumes "0 < sint n" and "k = nat (sint n)" and "\<And>a. in_range a s k \<Longrightarrow> \<not> in_range a t (k - 1)"
  shows "read_str (safestrcpy m s t n) s k = read_str m t (k - 1) \<and>
    (\<forall>a. \<not> in_range a s k \<longrightarrow> safestrcpy m s t n a = m a)"
proof -
  obtain j where j: "k = Suc j" using assms(1,2) by (metis gr0_implies_Suc zero_less_nat_eq)
  have "j < 2 ^ 32 - 1" using sint_range_32(2)[of n] assms(2) j by simp
  moreover have "safestrcpy m s t n = safestrcpy_loop m s t j"
    using assms(1) j unfolding safestrcpy_def assms(2)[symmetric] by simp
  ultimately show ?thesis
    using safestrcpy_loop_read[of j s t m] safestrcpy_loop_outside[of j _ s m t] assms(3) j
    by (simp del: read_str.simps)
qed

theorem safestrcpy_terminates_witness:
  "read_str (safestrcpy (\<lambda>_. 65) 0x200 0x100 3) 0x200 3 = [65, 65]"
proof -
  have "\<not> in_range a 0x100 2" if "in_range a 0x200 3" for a :: addr
    using that by (simp add: in_range_nat)
  then show ?thesis
    using safestrcpy_terminates[of 3 3 "0x200" "0x100" "\<lambda>_. 65"] by simp
qed

text \<open>
  C24: \<open>strncmp\<close> returns 0 exactly when the two strings, cut at \<open>n\<close> bytes, are equal, and
  \<open>strlen\<close> returns the position of the first zero byte whenever there is one.
\<close>

theorem strncmp_strlen_spec:
  "(strncmp m p q n = 0 \<longleftrightarrow> read_str m p (unat n) = read_str m q (unat n)) \<and>
   (m (p + of_nat k) = 0 \<and> (\<forall>i < k. m (p + of_nat i) \<noteq> 0) \<longrightarrow> strlen m p = Some k)"
  using strlen_loop_found[of m p 0 k] by (simp add: strncmp_def strncmp_loop_0_iff strlen_def)

theorem strncmp_strlen_spec_witness: "strlen ((\<lambda>_. 65)(0x102 := 0)) 0x100 = Some 2"
  using strncmp_strlen_spec[of "(\<lambda>_. 65)(0x102 := 0)" "0x100" 0 0 2] by (simp add: less_2_cases_iff)

end
