(* ===== verification/Kalloc.thy ===== *)
theory Kalloc
  imports Cprintf Cstring
begin

text \<open>
  \<open>kalloc.c\<close>: the allocator of 4096-byte pages.  The free list is threaded through the
  free pages themselves: the first word of a free page is the address of the next one.

  The model keeps that representation in byte memory.  The abstraction \<open>free_chain\<close>
  reads the list of free pages off memory; the lemmas show that \<open>kfree\<close> pushes and
  \<open>kalloc\<close> pops that list, that neither disturbs the rest of memory, and that
  \<open>freerange\<close> frees exactly the whole pages of its range.
\<close>

section \<open>State and operations\<close>

text \<open>
  \<open>kend\<close> is the address of the linker symbol \<open>end\<close>, the first address after the
  kernel image; it is fixed at link time and no operation changes it.
\<close>

record kstate = cstate +
  kend :: addr
  use_lock :: bool
  freelist :: addr

definition lock_kmem :: "'a kstate_scheme \<Rightarrow> (unit, 'a kstate_scheme) outcome" where
  "lock_kmem s = (if use_lock s then acquire L_kmem s else Ret () s)"

definition unlock_kmem :: "'a kstate_scheme \<Rightarrow> (unit, 'a kstate_scheme) outcome" where
  "unlock_kmem s = (if use_lock s then release L_kmem s else Ret () s)"

definition kfree :: "addr \<Rightarrow> 'a kstate_scheme \<Rightarrow> (unit, 'a kstate_scheme) outcome" where
  "kfree v s =
     (if v mod PGSIZE \<noteq> 0 \<or> v < kend s \<or> v2p v \<ge> PHYSTOP then Panic ''kfree''
      else let s = s\<lparr>mem := memset (mem s) v 1 PGSIZE\<rparr> in
        bnd (lock_kmem s) (\<lambda>_ s.
        let s = s\<lparr>mem := store32 (mem s) v (freelist s)\<rparr>;
            s = s\<lparr>freelist := v\<rparr>
        in unlock_kmem s))"

definition kalloc :: "'a kstate_scheme \<Rightarrow> (addr, 'a kstate_scheme) outcome" where
  "kalloc s = bnd (lock_kmem s) (\<lambda>_ s.
     let r = freelist s;
         s = (if r \<noteq> 0 then s\<lparr>freelist := load32 (mem s) r\<rparr> else s)
     in bnd (unlock_kmem s) (\<lambda>_ s. Ret r s))"

text \<open>
  The loop of \<open>freerange\<close> visits at most \<open>2 ^ 20\<close> page addresses before an address
  repeats; the fuel is one more than that.  \<open>freerange_returns\<close> below shows that the
  fuel is never used up on a range that lies in kernel memory.
\<close>

fun freerange_loop :: "nat \<Rightarrow> addr \<Rightarrow> addr \<Rightarrow> 'a kstate_scheme \<Rightarrow> (unit, 'a kstate_scheme) outcome" where
  "freerange_loop 0 p vend s = Fault ''freerange: out of fuel''"
| "freerange_loop (Suc n) p vend s =
     (if p + PGSIZE \<le> vend
      then bnd (kfree p s) (\<lambda>_ s. freerange_loop n (p + PGSIZE) vend s)
      else Ret () s)"

definition freerange_fuel :: nat where "freerange_fuel = Suc (2 ^ 20)"

definition freerange :: "addr \<Rightarrow> addr \<Rightarrow> 'a kstate_scheme \<Rightarrow> (unit, 'a kstate_scheme) outcome" where
  "freerange vstart vend s = freerange_loop freerange_fuel (PGROUNDUP vstart) vend s"

definition kinit1 :: "addr \<Rightarrow> addr \<Rightarrow> 'a kstate_scheme \<Rightarrow> (unit, 'a kstate_scheme) outcome" where
  "kinit1 vstart vend s =
     (let s = initlock L_kmem ''kmem'' s;
          s = s\<lparr>use_lock := False\<rparr>
      in freerange vstart vend s)"

definition kinit2 :: "addr \<Rightarrow> addr \<Rightarrow> 'a kstate_scheme \<Rightarrow> (unit, 'a kstate_scheme) outcome" where
  "kinit2 vstart vend s = bnd (freerange vstart vend s) (\<lambda>_ s. Ret () (s\<lparr>use_lock := True\<rparr>))"

section \<open>The free list as a list of pages\<close>

fun free_chain :: "memory \<Rightarrow> addr \<Rightarrow> addr list \<Rightarrow> bool" where
  "free_chain m p [] \<longleftrightarrow> p = 0"
| "free_chain m p (x # xs) \<longleftrightarrow> p = x \<and> x \<noteq> 0 \<and> free_chain m (load32 m x) xs"

definition page_ok :: "'a kstate_scheme \<Rightarrow> addr \<Rightarrow> bool" where
  "page_ok s v \<longleftrightarrow> v mod PGSIZE = 0 \<and> kend s \<le> v \<and> v2p v < PHYSTOP"

definition kmem_wf :: "'a kstate_scheme \<Rightarrow> addr list \<Rightarrow> bool" where
  "kmem_wf s xs \<longleftrightarrow> free_chain (mem s) (freelist s) xs \<and> distinct xs \<and>
     (\<forall>x \<in> set xs. page_ok s x)"

text \<open>The allocator's lock can be taken: needed by every call once \<open>use_lock\<close> is set.\<close>

definition kmem_ready :: "'a kstate_scheme \<Rightarrow> bool" where
  "kmem_ready s \<longleftrightarrow> cpu_wf s \<and> (use_lock s \<longrightarrow> lock_free L_kmem s)"

lemma kstate_lock_fields [simp]:
  "kend (lock_taken l s) = kend s" "use_lock (lock_taken l s) = use_lock s"
  "freelist (lock_taken l s) = freelist s" "kstate.more (lock_taken l s) = kstate.more s"
  "kend (lock_dropped l s) = kend s" "use_lock (lock_dropped l s) = use_lock s"
  "freelist (lock_dropped l s) = freelist s" "kstate.more (lock_dropped l s) = kstate.more s"
  by (simp_all add: lock_unfolds)

lemma in_section_kstate [simp]:
  "in_section l s (t\<lparr>mem := m\<rparr>) = in_section l s t"
  "in_section l s (t\<lparr>freelist := p\<rparr>) = in_section l s t" for t :: "'a kstate_scheme"
  by (simp_all add: in_section_def)

text \<open>Pages are disjoint: an address in one page is in no other.\<close>

lemma in_page_iff:
  assumes "page_aligned v"
  shows "in_range a v 4096 \<longleftrightarrow> PGROUNDDOWN a = v"
proof -
  have v: "unat v mod 4096 = 0" using assms by (simp add: page_aligned_unat)
  have sub: "unat (a - v) = (if unat v \<le> unat a then unat a - unat v else unat a + 2 ^ 32 - unat v)"
    using unat_sub_if_size[of a v] by (simp add: word_size)
  have "in_range a v 4096 \<longleftrightarrow> unat a div 4096 * 4096 = unat v"
  proof (cases "unat v \<le> unat a")
    case True
    then show ?thesis using page_floor_iff[OF True v] by (simp add: in_range_def sub)
  next
    case False
    moreover have "unat v + 4095 < 2 ^ 32" using assms by (rule page_aligned_bound)
    ultimately have "\<not> unat (a - v) < 4096" using sub by simp
    moreover have "unat a div 4096 * 4096 \<noteq> unat v"
      using False by (metis div_times_less_eq_dividend)
    ultimately show ?thesis by (simp add: in_range_def)
  qed
  then show ?thesis by (simp add: word_unat_eq_iff unat_PGROUNDDOWN)
qed

lemma page_ok_aligned: "page_ok s v \<Longrightarrow> page_aligned v"
  by (simp add: page_ok_def page_aligned_def)

lemma free_chain_cong:
  "(\<And>x. x \<in> set xs \<Longrightarrow> load32 m x = load32 m' x) \<Longrightarrow> free_chain m p xs \<longleftrightarrow> free_chain m' p xs"
  by (induction xs arbitrary: p) auto

lemma free_chain_hd: "free_chain m p xs \<Longrightarrow> p = 0 \<longleftrightarrow> xs = []"
  by (cases xs) auto

lemma free_chain_unique: "free_chain m p xs \<Longrightarrow> free_chain m p ys \<Longrightarrow> xs = ys"
proof (induction xs arbitrary: p ys)
  case Nil
  then show ?case by (cases ys) auto
next
  case (Cons x xs)
  then show ?case by (cases ys) auto
qed

section \<open>What the operations do\<close>

text \<open>The state after running \<open>f\<close> under the allocator's lock, if it is in use.\<close>

definition in_kmem :: "('a kstate_scheme \<Rightarrow> 'a kstate_scheme) \<Rightarrow> 'a kstate_scheme \<Rightarrow> 'a kstate_scheme" where
  "in_kmem f s = (if use_lock s then lock_dropped L_kmem (f (lock_taken L_kmem s)) else f s)"

definition kfree_link :: "addr \<Rightarrow> 'a kstate_scheme \<Rightarrow> 'a kstate_scheme" where
  "kfree_link v s = s\<lparr>mem := store32 (mem s) v (freelist s), freelist := v\<rparr>"

definition kalloc_unlink :: "'a kstate_scheme \<Rightarrow> 'a kstate_scheme" where
  "kalloc_unlink s = (if freelist s \<noteq> 0 then s\<lparr>freelist := load32 (mem s) (freelist s)\<rparr> else s)"

definition kfreed :: "addr \<Rightarrow> 'a kstate_scheme \<Rightarrow> 'a kstate_scheme" where
  "kfreed v s = in_kmem (kfree_link v) (s\<lparr>mem := memset (mem s) v 1 PGSIZE\<rparr>)"

definition kalloced :: "'a kstate_scheme \<Rightarrow> 'a kstate_scheme" where
  "kalloced s = in_kmem kalloc_unlink s"

lemma in_section_links [simp]:
  "in_section l s (kfree_link v t) = in_section l s t"
  "in_section l s (kalloc_unlink t) = in_section l s t"
  by (simp_all add: in_section_def kfree_link_def kalloc_unlink_def)

lemma kmem_ready_mem [simp]: "kmem_ready (s\<lparr>mem := m\<rparr>) = kmem_ready s" for s :: "'a kstate_scheme"
  by (simp add: kmem_ready_def cpu_wf_def lock_free_def)

lemma kmem_section:
  assumes "kmem_ready s" and "\<And>l t. in_section l s t \<Longrightarrow> in_section l s (f t)"
    and "\<And>t. use_lock (f t) = use_lock t"
  shows "bnd (lock_kmem s) (\<lambda>_ s. bnd (unlock_kmem (f s)) (g s)) =
    (if use_lock s then g (lock_taken L_kmem s) () (in_kmem f s) else g s () (in_kmem f s))"
  using assms section_run[of L_kmem s f g]
  by (simp add: kmem_ready_def lock_kmem_def unlock_kmem_def in_kmem_def acquire_free)

lemma kfree_run:
  assumes "kmem_ready s" and "page_ok s v"
  shows "kfree v s = Ret () (kfreed v s)"
proof -
  let ?s = "s\<lparr>mem := memset (mem s) v 1 PGSIZE\<rparr>"
  have "kfree v s = bnd (lock_kmem ?s) (\<lambda>_ s. bnd (unlock_kmem (kfree_link v s)) Ret)"
    using assms(2) by (auto simp: kfree_def page_ok_def kfree_link_def Let_def not_less)
  also have "\<dots> = Ret () (kfreed v s)"
    using assms(1) kmem_section[of ?s "kfree_link v" "\<lambda>_. Ret"]
    by (simp add: kfreed_def kfree_link_def in_section_def)
  finally show ?thesis .
qed

lemma kfree_panics: "\<not> page_ok s v \<Longrightarrow> kfree v s = Panic ''kfree''"
  by (auto simp: kfree_def page_ok_def not_less not_le)

lemma kalloc_run:
  assumes "kmem_ready s"
  shows "kalloc s = Ret (freelist s) (kalloced s)"
proof -
  have "kalloc s = bnd (lock_kmem s) (\<lambda>_ s. bnd (unlock_kmem (kalloc_unlink s)) (\<lambda>_. Ret (freelist s)))"
    by (simp add: kalloc_def kalloc_unlink_def Let_def)
  also have "\<dots> = Ret (freelist s) (kalloced s)"
    using assms kmem_section[of s kalloc_unlink "\<lambda>s _. Ret (freelist s)"]
    by (simp add: kalloced_def in_section_def kalloc_unlink_def)
  finally show ?thesis .
qed

lemma in_kmem_fields:
  assumes "\<And>t. kend (f t) = kend t \<and> use_lock (f t) = use_lock t \<and> kstate.more (f t) = kstate.more t"
  shows "kend (in_kmem f s) = kend s" "use_lock (in_kmem f s) = use_lock s"
    "kstate.more (in_kmem f s) = kstate.more s"
  using assms by (simp_all add: in_kmem_def)

lemma kfreed_fields [simp]:
  "kend (kfreed v s) = kend s" "use_lock (kfreed v s) = use_lock s"
  "kstate.more (kfreed v s) = kstate.more s"
  "freelist (kfreed v s) = v"
  "mem (kfreed v s) = store32 (memset (mem s) v 1 PGSIZE) v (freelist s)"
  by (simp_all add: kfreed_def in_kmem_fields in_kmem_def kfree_link_def)

lemma kalloced_fields [simp]:
  "kend (kalloced s) = kend s" "use_lock (kalloced s) = use_lock s"
  "kstate.more (kalloced s) = kstate.more s" "mem (kalloced s) = mem s"
  "freelist (kalloced s) = (if freelist s = 0 then 0 else load32 (mem s) (freelist s))"
  by (simp_all add: kalloced_def in_kmem_fields in_kmem_def kalloc_unlink_def)

lemma balanced_mem [simp]: "balanced s (t\<lparr>mem := m\<rparr>) = balanced s t" "balanced (s\<lparr>mem := m\<rparr>) t = balanced s t"
  for s t :: "'a machine_scheme"
  by (simp_all add: balanced_def lock_free_def)

lemma balanced_in_kmem:
  assumes "kmem_ready s" and "\<And>l t. in_section l s t \<Longrightarrow> in_section l s (f t)"
    and "\<And>t. balanced t (f t)"
  shows "balanced s (in_kmem f s)"
  using assms balanced_section[of L_kmem s "f (lock_taken L_kmem s)"]
  by (simp add: in_kmem_def kmem_ready_def)

lemma balanced_kalloced: "kmem_ready s \<Longrightarrow> balanced s (kalloced s)"
  unfolding kalloced_def
  by (rule balanced_in_kmem)
     (simp_all add: in_section_def kalloc_unlink_def balanced_def lock_free_def)

lemma balanced_kfreed: "kmem_ready s \<Longrightarrow> balanced s (kfreed v s)"
  using balanced_in_kmem[of "s\<lparr>mem := memset (mem s) v 1 PGSIZE\<rparr>" "kfree_link v"]
  by (simp add: kfreed_def in_section_def kfree_link_def balanced_def lock_free_def)

lemma kmem_ready_balanced:
  "balanced s t \<Longrightarrow> use_lock t = use_lock s \<Longrightarrow> kmem_ready t \<longleftrightarrow> kmem_ready s"
  by (simp add: kmem_ready_def balanced_cpu_wf balanced_lock_free)

lemma kmem_ready_after [simp]:
  "kmem_ready s \<Longrightarrow> kmem_ready (kalloced s)" "kmem_ready s \<Longrightarrow> kmem_ready (kfreed v s)"
  by (simp_all add: kmem_ready_balanced[OF balanced_kalloced] kmem_ready_balanced[OF balanced_kfreed])

text \<open>Outside the freed page memory is unchanged; inside, the link and then junk.\<close>

lemma kfreed_mem_outside:
  "\<not> in_range a v 4096 \<Longrightarrow> mem (kfreed v s) a = mem s a"
  using in_range_mono[of a v 4 4096] by (cases "in_range a v 4") (auto simp: store32_outside memset_eq PGSIZE_def)

lemma kfreed_mem_junk:
  "in_range a v 4096 \<Longrightarrow> \<not> in_range a v 4 \<Longrightarrow> mem (kfreed v s) a = 1"
  by (simp add: store32_outside memset_eq PGSIZE_def)

lemma page_load_other:
  assumes "page_aligned v" and "page_aligned x" and "x \<noteq> v"
    and "\<And>a. \<not> in_range a v 4096 \<Longrightarrow> m' a = m a"
  shows "load32 m' x = load32 m x"
proof (rule load32_cong)
  fix b assume "in_range b x 4"
  then have "in_range b x 4096" by (rule in_range_mono) simp
  then have "\<not> in_range b v 4096" using assms(1-3) by (auto simp: in_page_iff)
  then show "m' b = m b" by (rule assms(4))
qed

lemma kmem_wf_kfreed:
  assumes "kmem_wf s xs" and "page_ok s v" and "v \<noteq> 0" and "v \<notin> set xs"
  shows "kmem_wf (kfreed v s) (v # xs)"
proof -
  have "free_chain (mem (kfreed v s)) (freelist s) xs = free_chain (mem s) (freelist s) xs"
  proof (rule free_chain_cong)
    fix x assume "x \<in> set xs"
    with assms have "page_ok s x" "x \<noteq> v" by (auto simp: kmem_wf_def)
    with assms(2) show "load32 (mem (kfreed v s)) x = load32 (mem s) x"
      by (intro page_load_other[of v]) (auto intro: page_ok_aligned kfreed_mem_outside simp del: kfreed_fields)
  qed
  with assms show ?thesis by (simp add: kmem_wf_def page_ok_def)
qed

lemma kmem_wf_kalloced: "kmem_wf s (x # xs) \<Longrightarrow> kmem_wf (kalloced s) xs"
  by (auto simp: kmem_wf_def page_ok_def)

lemma kmem_wf_kalloced_empty: "kmem_wf s [] \<Longrightarrow> kmem_wf (kalloced s) []"
  by (auto simp: kmem_wf_def)

section \<open>Freeing a range\<close>

fun page_run :: "addr \<Rightarrow> nat \<Rightarrow> addr list" where
  "page_run p 0 = []"
| "page_run p (Suc n) = p # page_run (p + PGSIZE) n"

lemma unat_page_step: "unat p + 4096 < 2 ^ 32 \<Longrightarrow> unat (p + PGSIZE) = unat p + 4096"
  by (simp add: PGSIZE_def unat_word_ariths)

lemma page_aligned_step: "page_aligned (p + PGSIZE) \<longleftrightarrow> page_aligned p"
proof -
  have "unat (p + PGSIZE) mod 4096 = (unat p + 4096) mod 2 ^ 32 mod 4096"
    by (simp add: PGSIZE_def unat_word_ariths)
  also have "\<dots> = (unat p + 4096) mod 4096"
    by (rule mod_mod_cancel) simp
  finally show ?thesis by (simp add: page_aligned_unat)
qed

lemma page_run_iff:
  assumes "page_aligned p" and "unat p + n * 4096 < 2 ^ 32"
  shows "x \<in> set (page_run p n) \<longleftrightarrow>
    page_aligned x \<and> unat p \<le> unat x \<and> unat x + 4096 \<le> unat p + n * 4096"
  using assms
proof (induction n arbitrary: p)
  case 0
  then show ?case by simp
next
  case (Suc n)
  have step: "unat (p + PGSIZE) = unat p + 4096" using Suc.prems by (intro unat_page_step) simp
  have "x = p \<longleftrightarrow> unat p \<le> unat x \<and> unat x < unat p + 4096" if "page_aligned x"
    using that Suc.prems(1) page_floor_iff[of "unat p" "unat x"]
    by (auto simp: page_aligned_unat word_unat_eq_iff)
  then show ?case
    using Suc.IH[of "p + PGSIZE"] Suc.prems step by (auto simp: page_aligned_step)
qed

lemma distinct_page_run:
  assumes "page_aligned p" and "unat p + n * 4096 < 2 ^ 32"
  shows "distinct (page_run p n)"
  using assms
proof (induction n arbitrary: p)
  case (Suc n)
  have step: "unat (p + PGSIZE) = unat p + 4096" using Suc.prems by (intro unat_page_step) simp
  then show ?case
    using Suc.IH[of "p + PGSIZE"] Suc.prems page_run_iff[of "p + PGSIZE" n p]
    by (simp add: page_aligned_step)
qed simp

lemma freerange_loop_ok:
  assumes "n = (unat vend - unat p) div 4096" and "n < fuel" and "unat vend \<le> 0x8E000000"
    and "unat p \<le> 0x8E001000" and "page_aligned p" and "KERNBASE \<le> kend s" and "kend s \<le> p"
    and "kmem_wf s xs" and "kmem_ready s" and "set xs \<inter> set (page_run p n) = {}"
  shows "\<exists>s'. freerange_loop fuel p vend s = Ret () s' \<and> kmem_wf s' (rev (page_run p n) @ xs) \<and>
    kmem_ready s' \<and> kend s' = kend s \<and> use_lock s' = use_lock s \<and> kstate.more s' = kstate.more s"
  using assms
proof (induction n arbitrary: p s xs fuel)
  case 0
  then obtain f where fuel: "fuel = Suc f" by (cases fuel) auto
  have "unat (p + PGSIZE) = unat p + 4096" using 0 by (intro unat_page_step) simp
  moreover have "unat vend < unat p + 4096" using "0.prems"(1) by (simp add: div_eq_0_iff)
  ultimately have "\<not> p + PGSIZE \<le> vend" by (simp add: word_le_nat_alt)
  then show ?case using 0 fuel by simp
next
  case (Suc n)
  obtain f where fuel: "fuel = Suc f" using Suc.prems by (cases fuel) auto
  have step: "unat (p + PGSIZE) = unat p + 4096" using Suc.prems by (intro unat_page_step) simp
  have "4096 \<le> unat vend - unat p" using Suc.prems(1) by (metis div_less nat.distinct(1) not_less)
  then have room: "unat p + 4096 \<le> unat vend" by simp
  have n: "n = (unat vend - unat (p + PGSIZE)) div 4096"
  proof -
    have "unat vend - unat p = unat vend - (unat p + 4096) + 4096" using room by simp
    then show ?thesis using Suc.prems(1) step by (metis Suc_inject div_add_self2 add.commute plus_1_eq_Suc zero_neq_numeral)
  qed
  have v2p: "unat (v2p p) = unat p - 0x80000000"
    using Suc.prems(6,7) by (simp add: v2p_def KERNBASE_def unat_sub word_le_nat_alt)
  have ok: "page_ok s p"
    using Suc.prems(3,5,7) room v2p
    by (simp add: page_ok_def page_aligned_def PHYSTOP_def word_less_nat_alt)
  have "p \<noteq> 0" using Suc.prems(6,7) by (auto simp: KERNBASE_def)
  moreover have "p \<notin> set xs" using Suc.prems(10) by auto
  ultimately have wf: "kmem_wf (kfreed p s) (p # xs)"
    using Suc.prems(8) ok by (intro kmem_wf_kfreed)
  have "unat p + Suc n * 4096 < 2 ^ 32"
    using Suc.prems(3) room div_times_less_eq_dividend[of "unat vend - unat p" 4096]
    by (simp flip: Suc.prems(1))
  then have "distinct (page_run p (Suc n))" using Suc.prems(5) by (intro distinct_page_run)
  then have "set (p # xs) \<inter> set (page_run (p + PGSIZE) n) = {}" using Suc.prems(10) by auto
  then have "\<exists>s'. freerange_loop f (p + PGSIZE) vend (kfreed p s) = Ret () s' \<and>
      kmem_wf s' (rev (page_run (p + PGSIZE) n) @ p # xs) \<and> kmem_ready s' \<and>
      kend s' = kend (kfreed p s) \<and> use_lock s' = use_lock (kfreed p s) \<and>
      kstate.more s' = kstate.more (kfreed p s)"
    using Suc.prems fuel n wf room step
    by (intro Suc.IH) (auto simp: page_aligned_step word_le_nat_alt)
  moreover have "p + PGSIZE \<le> vend" using room step by (simp add: word_le_nat_alt)
  ultimately show ?case
    using fuel kfree_run[OF Suc.prems(9) ok] by auto
qed

section \<open>The allocator's contract\<close>

text \<open>
  What the clients of the allocator (page tables, kernel stacks, pipes) rely on, as an
  interface: \<open>pages s xs\<close> says that \<open>s\<close> is a state in which the allocator can be
  called and \<open>xs\<close> are its free pages, next one first.
\<close>

locale page_allocator =
  fixes alloc :: "'s \<Rightarrow> (addr, 's) outcome"
    and free :: "addr \<Rightarrow> 's \<Rightarrow> (unit, 's) outcome"
    and pages :: "'s \<Rightarrow> addr list \<Rightarrow> bool"
    and valid :: "'s \<Rightarrow> addr \<Rightarrow> bool"
  assumes alloc_none: "pages s [] \<Longrightarrow> \<exists>s'. alloc s = Ret 0 s' \<and> pages s' [] \<and> valid s' = valid s"
    and alloc_some: "pages s (x # xs) \<Longrightarrow> \<exists>s'. alloc s = Ret x s' \<and> pages s' xs \<and> valid s' = valid s"
    and free_page: "pages s xs \<Longrightarrow> valid s v \<Longrightarrow> v \<notin> set xs \<Longrightarrow>
      \<exists>s'. free v s = Ret () s' \<and> pages s' (v # xs) \<and> valid s' = valid s"
    and pages_distinct: "pages s xs \<Longrightarrow> distinct xs"
    and pages_valid: "pages s xs \<Longrightarrow> x \<in> set xs \<Longrightarrow> x \<noteq> 0 \<and> valid s x"
begin

fun alloc_n :: "nat \<Rightarrow> 's \<Rightarrow> (addr list, 's) outcome" where
  "alloc_n 0 s = Ret [] s"
| "alloc_n (Suc n) s = bnd (alloc s) (\<lambda>p s. bnd (alloc_n n s) (\<lambda>ps s. Ret (p # ps) s))"

lemma alloc_n_takes:
  "pages s xs \<Longrightarrow> n \<le> length xs \<Longrightarrow>
   \<exists>s'. alloc_n n s = Ret (take n xs) s' \<and> pages s' (drop n xs)"
proof (induction n arbitrary: s xs)
  case (Suc n)
  then obtain x ys where xs: "xs = x # ys" by (cases xs) auto
  with Suc.prems obtain s1 where s1: "alloc s = Ret x s1" "pages s1 ys"
    using alloc_some by blast
  with Suc xs obtain s' where "alloc_n n s1 = Ret (take n ys) s'" "pages s' (drop n ys)"
    by fastforce
  with s1 xs show ?case by auto
qed simp

lemma alloc_n_distinct:
  assumes "pages s xs" and "n \<le> length xs"
  shows "\<exists>ps s'. alloc_n n s = Ret ps s' \<and> length ps = n \<and> distinct ps \<and> 0 \<notin> set ps"
  using alloc_n_takes[OF assms] assms pages_distinct[OF assms(1)] pages_valid[OF assms(1)]
  by (fastforce dest: in_set_takeD)

lemma free_alloc:
  assumes "pages s xs" and "valid s v" and "v \<notin> set xs"
  shows "\<exists>s'. bnd (free v s) (\<lambda>_ s. alloc s) = Ret v s' \<and> pages s' xs"
  using free_page[OF assms] alloc_some by fastforce

lemma alloc_free:
  assumes "pages s (x # xs)"
  shows "\<exists>s'. bnd (alloc s) (\<lambda>p s. free p s) = Ret () s' \<and> pages s' (x # xs)"
proof -
  obtain s1 where s1: "alloc s = Ret x s1" "pages s1 xs" "valid s1 = valid s"
    using alloc_some[OF assms] by blast
  moreover have "x \<notin> set xs" "valid s1 x"
    using pages_distinct[OF assms] pages_valid[OF assms, of x] s1(3) by auto
  ultimately show ?thesis using free_page[of s1 xs x] by auto
qed

end

definition kpages :: "'a kstate_scheme \<Rightarrow> addr list \<Rightarrow> bool" where
  "kpages s xs \<longleftrightarrow> kmem_wf s xs \<and> kmem_ready s"

definition kvalid :: "'a kstate_scheme \<Rightarrow> addr \<Rightarrow> bool" where
  "kvalid s v \<longleftrightarrow> page_ok s v \<and> v \<noteq> 0"

lemma free_chain_nonzero: "free_chain m p xs \<Longrightarrow> x \<in> set xs \<Longrightarrow> x \<noteq> 0"
  by (induction xs arbitrary: p) auto

lemma kvalid_after [simp]: "kvalid (kalloced s) = kvalid s" "kvalid (kfreed v s) = kvalid s"
  by (auto simp: kvalid_def page_ok_def fun_eq_iff)

interpretation kmem: page_allocator kalloc kfree kpages kvalid
proof unfold_locales
  fix s :: "'a kstate_scheme" and x v :: addr and xs :: "addr list"
  show "\<exists>s'. kalloc s = Ret 0 s' \<and> kpages s' [] \<and> kvalid s' = kvalid s" if "kpages s []"
    using that kalloc_run[of s]
    by (auto simp: kpages_def kmem_wf_kalloced_empty) (simp add: kmem_wf_def)
  show "\<exists>s'. kalloc s = Ret x s' \<and> kpages s' xs \<and> kvalid s' = kvalid s" if "kpages s (x # xs)"
    using that kalloc_run[of s]
    by (auto simp: kpages_def kmem_wf_kalloced) (simp add: kmem_wf_def)
  show "\<exists>s'. kfree v s = Ret () s' \<and> kpages s' (v # xs) \<and> kvalid s' = kvalid s"
    if "kpages s xs" "kvalid s v" "v \<notin> set xs"
    using that kfree_run[of s v] by (auto simp: kpages_def kvalid_def kmem_wf_kfreed)
  show "distinct xs" if "kpages s xs" using that by (simp add: kpages_def kmem_wf_def)
  show "x \<noteq> 0 \<and> kvalid s x" if "kpages s xs" "x \<in> set xs"
    using that free_chain_nonzero by (auto simp: kpages_def kmem_wf_def kvalid_def)
qed

lemma kalloc_stack_laws:
  assumes "kpages s xs"
  shows "kalloc s = Ret (case xs of [] \<Rightarrow> 0 | x # _ \<Rightarrow> x) (kalloced s)" and "kpages (kalloced s) (tl xs)"
proof -
  have "kalloc s = Ret (freelist s) (kalloced s)" "free_chain (mem s) (freelist s) xs"
    using assms kalloc_run by (auto simp: kpages_def kmem_wf_def)
  then show "kalloc s = Ret (case xs of [] \<Rightarrow> 0 | x # _ \<Rightarrow> x) (kalloced s)" by (cases xs) auto
  show "kpages (kalloced s) (tl xs)"
    using assms by (cases xs) (auto simp: kpages_def kmem_wf_kalloced kmem_wf_kalloced_empty)
qed

lemma freerange_returns:
  assumes "unat vend \<le> 0x8E000000" and "unat vstart + 4096 \<le> 0x8E001000"
    and "KERNBASE \<le> kend s" and "kend s \<le> vstart" and "kpages s xs"
    and "\<forall>x \<in> set xs. vend \<le> x"
  defines "p \<equiv> PGROUNDUP vstart"
  defines "n \<equiv> (unat vend - unat p) div 4096"
  shows "\<exists>s'. freerange vstart vend s = Ret () s' \<and> kpages s' (rev (page_run p n) @ xs)"
proof -
  have up: "unat p = (unat vstart + 4095) div 4096 * 4096"
    using assms(2) unfolding p_def by (intro unat_PGROUNDUP) simp
  have al: "page_aligned p" by (simp add: page_aligned_unat up)
  have ge: "unat vstart \<le> unat p" and le: "unat p \<le> unat vstart + 4095"
    unfolding up by linarith+
  have n: "unat p + n * 4096 \<le> max (unat p) (unat vend)"
    unfolding n_def by (cases "unat p \<le> unat vend") (auto intro: le_trans[OF add_left_mono[OF div_times_less_eq_dividend]])
  have small: "unat p + n * 4096 < 2 ^ 32" using n assms(1,2) le by (auto simp: max_def split: if_splits)
  have "n < freerange_fuel"
    using assms(1) by (auto simp: n_def freerange_fuel_def less_mult_imp_div_less)
  moreover have "set xs \<inter> set (page_run p n) = {}"
  proof -
    have "unat x < unat vend" if x: "x \<in> set (page_run p n)" for x
    proof -
      have *: "unat p \<le> unat x" "unat x + 4096 \<le> unat p + n * 4096"
        using x page_run_iff[OF al small] by auto
      then have "0 < n" by (cases n) auto
      then have "unat p < unat vend" by (cases "unat p < unat vend") (auto simp: n_def)
      then show ?thesis using n * by (simp add: max_def split: if_splits)
    qed
    then show ?thesis using assms(6) by (fastforce simp: word_le_nat_alt)
  qed
  moreover have "kend s \<le> p" using assms(4) ge by (simp add: word_le_nat_alt)
  ultimately show ?thesis
    using freerange_loop_ok[of n vend p freerange_fuel s xs] assms(1-3,5) al le
    by (auto simp: freerange_def kpages_def n_def p_def)
qed

section \<open>Properties\<close>

text \<open>
  C17: the allocator is a stack of pages.  In a state whose free pages are \<open>xs\<close>,
  \<open>kalloc\<close> returns the first of them, or 0 if there is none, and leaves the others free;
  \<open>kfree\<close> of a page that is not free makes it the first free page, and bytes outside that
  page keep their values; neither call changes which locks are free.
\<close>

theorem kalloc_kfree_stack:
  assumes "kpages s xs"
  shows "\<exists>t. kalloc s = Ret (case xs of [] \<Rightarrow> 0 | x # _ \<Rightarrow> x) t \<and> kpages t (tl xs) \<and>
      mem t = mem s \<and> balanced s t \<and>
    (kvalid s v \<and> v \<notin> set xs \<longrightarrow>
      (\<exists>u. kfree v s = Ret () u \<and> kpages u (v # xs) \<and> balanced s u \<and>
         (\<forall>a. \<not> in_range a v 4096 \<longrightarrow> mem u a = mem s a)))"
proof -
  have ready: "kmem_ready s" and wf: "kmem_wf s xs" using assms by (auto simp: kpages_def)
  have "\<exists>u. kfree v s = Ret () u \<and> kpages u (v # xs) \<and> balanced s u \<and>
         (\<forall>a. \<not> in_range a v 4096 \<longrightarrow> mem u a = mem s a)" if v: "kvalid s v \<and> v \<notin> set xs"
    using v kfree_run[OF ready, of v] kmem_wf_kfreed[OF wf, of v] ready kfreed_mem_outside[of _ v s]
      balanced_kfreed[OF ready, of v] by (auto simp: kvalid_def kpages_def)
  then show ?thesis
    using kalloc_stack_laws[OF assms] balanced_kalloced[OF ready] by (metis kalloced_fields(4))
qed

definition two_pages :: kstate where
  "two_pages = \<lparr>mem = store32 (\<lambda>_. 0) 0x80400000 0x80401000, ebp = 0, cpus = (\<lambda>_. zero_cpu), mycpu = 0,
     locks = (\<lambda>_. zero_lock), cons_locking = True, panicked = False, uart_on = False, uart_out = [],
     crt = (\<lambda>_. 0), crt_pos = 0, kend = 0x80110000, use_lock = True, freelist = 0x80400000\<rparr>"

lemma two_pages_ok: "kpages two_pages [0x80400000, 0x80401000]"
proof -
  have "load32 (store32 (\<lambda>_. 0) 0x80400000 0x80401000) 0x80401000 = 0"
    by (simp add: load32_def store32_def)
  then show ?thesis
    by (simp add: kpages_def kmem_wf_def two_pages_def page_ok_def PGSIZE_def v2p_def KERNBASE_def
        PHYSTOP_def kmem_ready_def cpu_wf_def lock_free_def zero_cpu_def zero_lock_def)
qed

theorem kalloc_kfree_stack_witness:
  "\<exists>t. kalloc two_pages = Ret 0x80400000 t \<and> kpages t [0x80401000]"
  using kalloc_kfree_stack[OF two_pages_ok, of 0] by auto

text \<open>
  C18: successive allocations never overlap: as long as pages are left, \<open>n\<close> calls of
  \<open>kalloc\<close> return \<open>n\<close> different non-null pages.
\<close>

theorem kalloc_distinct:
  assumes "kpages s xs" and "n \<le> length xs"
  shows "\<exists>ps t. page_allocator.alloc_n kalloc n s = Ret ps t \<and> length ps = n \<and> distinct ps \<and> 0 \<notin> set ps"
  using assms by (rule kmem.alloc_n_distinct)

theorem kalloc_distinct_witness:
  "\<exists>ps t. page_allocator.alloc_n kalloc 2 two_pages = Ret ps t \<and> length ps = 2 \<and> distinct ps"
  using kalloc_distinct[OF two_pages_ok, of 2] by auto



end
