(* ===== verification/Vm.thy ===== *)
theory Vm
  imports Kalloc
begin

text \<open>
  \<open>vm.c\<close>: two-level page tables kept in byte memory, built from pages of the allocator.
  A page directory and a page table are pages of 1024 little-endian words; an entry is a
  physical page address with flag bits.  The routines that read or write a process
  structure (\<open>switchuvm\<close>) or an inode (\<open>loaduvm\<close>) are in the theories that have
  those types.
\<close>

section \<open>State and operations\<close>

text \<open>\<open>kpgdir\<close> is the kernel's own page directory; \<open>kdata\<close> the linker symbol \<open>data\<close>.\<close>

record vstate = kstate +
  kpgdir :: addr
  kdata :: addr

definition walkpgdir :: "addr \<Rightarrow> addr \<Rightarrow> bool \<Rightarrow> 'a vstate_scheme \<Rightarrow> (addr, 'a vstate_scheme) outcome" where
  "walkpgdir pgdir va alloc s =
     (let pde = pgdir + 4 * PDX va in
      if load32 (mem s) pde AND PTE_P \<noteq> 0
      then Ret (p2v (PTE_ADDR (load32 (mem s) pde)) + 4 * PTX va) s
      else if \<not> alloc then Ret 0 s
      else bnd (kalloc s) (\<lambda>pgtab s.
        if pgtab = 0 then Ret 0 s
        else let s = s\<lparr>mem := memset (mem s) pgtab 0 PGSIZE\<rparr>;
                 s = s\<lparr>mem := store32 (mem s) pde (v2p pgtab OR PTE_P OR PTE_W OR PTE_U)\<rparr>
             in Ret (pgtab + 4 * PTX va) s))"

text \<open>
  \<open>mappages\<close> returns 0 or -1.  Its loop runs once per page from the first to the last
  page of the range, going round the address space at most once: the number of pages is
  the fuel, and \<open>mappages_fuel\<close> shows that it is enough: more would not change the result.
\<close>

fun mappages_loop ::
  "nat \<Rightarrow> addr \<Rightarrow> addr \<Rightarrow> addr \<Rightarrow> addr \<Rightarrow> u32 \<Rightarrow> 'a vstate_scheme \<Rightarrow> (int, 'a vstate_scheme) outcome" where
  "mappages_loop 0 pgdir a lst pa perm s = Fault ''mappages: out of fuel''"
| "mappages_loop (Suc n) pgdir a lst pa perm s =
     bnd (walkpgdir pgdir a True s) (\<lambda>pte s.
     if pte = 0 then Ret (- 1) s
     else if load32 (mem s) pte AND PTE_P \<noteq> 0 then Panic ''remap''
     else let s = s\<lparr>mem := store32 (mem s) pte (pa OR perm OR PTE_P)\<rparr> in
       if a = lst then Ret 0 s
       else mappages_loop n pgdir (a + PGSIZE) lst (pa + PGSIZE) perm s)"

definition mappages ::
  "addr \<Rightarrow> addr \<Rightarrow> u32 \<Rightarrow> addr \<Rightarrow> u32 \<Rightarrow> 'a vstate_scheme \<Rightarrow> (int, 'a vstate_scheme) outcome" where
  "mappages pgdir va sz pa perm s =
     (let a = PGROUNDDOWN va; lst = PGROUNDDOWN (va + sz - 1)
      in mappages_loop (Suc (unat (lst - a) div 4096)) pgdir a lst pa perm s)"

lemma page_before:
  fixes a lst :: u32
  assumes "4096 dvd unat (lst - a)" and "a \<noteq> lst"
  shows "unat (lst - (a + PGSIZE)) = unat (lst - a) - 4096" "4096 \<le> unat (lst - a)"
proof -
  have "unat (lst - a) \<noteq> 0" using assms(2) by (simp add: unat_eq_0)
  then show le: "4096 \<le> unat (lst - a)" using assms(1) by (simp add: dvd_imp_le)
  have "lst - (a + PGSIZE) = (lst - a) - 4096" by (simp add: PGSIZE_def)
  moreover have "unat ((lst - a) - 4096) = unat (lst - a) - 4096"
    using le by (subst unat_sub) (simp_all add: word_le_nat_alt)
  ultimately show "unat (lst - (a + PGSIZE)) = unat (lst - a) - 4096" by (simp only:)
qed

lemma mappages_loop_fuel:
  "4096 dvd unat (lst - a) \<Longrightarrow> unat (lst - a) div 4096 \<le> n \<Longrightarrow>
     mappages_loop (Suc n) pgdir a lst pa perm s = mappages_loop (Suc (unat (lst - a) div 4096)) pgdir a lst pa perm s"
proof (induction n arbitrary: a pa s)
  case 0
  then show ?case by simp
next
  case (Suc n)
  show ?case
  proof (cases "a = lst")
    case True
    have "mappages_loop (Suc k) pgdir lst lst pa perm s = mappages_loop (Suc 0) pgdir lst lst pa perm s" for k
      unfolding mappages_loop.simps by (intro arg_cong2[where f = bnd] refl ext) simp
    then show ?thesis using True by (simp del: mappages_loop.simps)
  next
    case False
    note pb = page_before[OF Suc.prems(1) False]
    obtain m where m: "unat (lst - a) div 4096 = Suc m" "unat (lst - (a + PGSIZE)) div 4096 = m"
      using pb by (cases "unat (lst - a) div 4096") (auto simp: div_eq_0_iff)
    have "4096 dvd unat (lst - (a + PGSIZE))" using Suc.prems(1) pb by (simp add: dvd_diff_nat)
    then have ih: "mappages_loop (Suc n) pgdir (a + PGSIZE) lst pa perm s = mappages_loop (Suc m) pgdir (a + PGSIZE) lst pa perm s"
      for pa and s :: "'a vstate_scheme"
      using Suc.IH[of "a + PGSIZE" pa s] Suc.prems(2) m by simp
    show ?thesis unfolding m(1) unfolding mappages_loop.simps(2)[of _ pgdir a] ih ..
  qed
qed

lemma pages_apart: "4096 dvd unat (PGROUNDDOWN b - PGROUNDDOWN a)"
proof -
  have "4096 dvd (int (unat (PGROUNDDOWN b)) - int (unat (PGROUNDDOWN a))) mod 2 ^ 32"
    by (intro dvd_mod dvd_diff) (simp_all add: unat_PGROUNDDOWN)
  moreover have "int (unat (PGROUNDDOWN b - PGROUNDDOWN a)) = (int (unat (PGROUNDDOWN b)) - int (unat (PGROUNDDOWN a))) mod 2 ^ 32"
    by (simp add: uint_word_ariths take_bit_eq_mod)
  ultimately have "int 4096 dvd int (unat (PGROUNDDOWN b - PGROUNDDOWN a))" by simp
  then show ?thesis by (simp only: int_dvd_int_iff)
qed

lemma mappages_fuel:
  assumes "unat (PGROUNDDOWN (va + sz - 1) - PGROUNDDOWN va) div 4096 \<le> n"
  shows "mappages pgdir va sz pa perm s =
    mappages_loop (Suc n) pgdir (PGROUNDDOWN va) (PGROUNDDOWN (va + sz - 1)) pa perm s"
  unfolding mappages_def Let_def by (rule mappages_loop_fuel[OF pages_apart assms, symmetric])

text \<open>The kernel mappings of every page table: virtual start, physical start and end, flags.\<close>

definition kmap :: "addr \<Rightarrow> (addr \<times> addr \<times> addr \<times> u32) list" where
  "kmap data =
     [(KERNBASE, 0, EXTMEM, PTE_W),
      (KERNBASE + EXTMEM, v2p (KERNBASE + EXTMEM), v2p data, 0),
      (data, v2p data, PHYSTOP, PTE_W),
      (DEVSPACE, DEVSPACE, 0, PTE_W)]"

fun map_kernel :: "(addr \<times> addr \<times> addr \<times> u32) list \<Rightarrow> addr \<Rightarrow> 'a vstate_scheme \<Rightarrow> (addr, 'a vstate_scheme) outcome" where
  "map_kernel [] pgdir s = Ret pgdir s"
| "map_kernel ((virt, phys_start, phys_end, perm) # ks) pgdir s =
     bnd (mappages pgdir virt (phys_end - phys_start) phys_start perm s) (\<lambda>r s.
     if r < 0 then Ret 0 s else map_kernel ks pgdir s)"

definition setupkvm :: "'a vstate_scheme \<Rightarrow> (addr, 'a vstate_scheme) outcome" where
  "setupkvm s = bnd (kalloc s) (\<lambda>pgdir s.
     if pgdir = 0 then Ret 0 s
     else let s = s\<lparr>mem := memset (mem s) pgdir 0 PGSIZE\<rparr> in
       if p2v PHYSTOP > DEVSPACE then Panic ''PHYSTOP too high''
       else map_kernel (kmap (kdata s)) pgdir s)"

definition switchkvm :: "'a vstate_scheme \<Rightarrow> 'a vstate_scheme" where
  "switchkvm s = upd_cpu (\<lambda>c. c\<lparr>cr3 := v2p (kpgdir s)\<rparr>) s"

definition kvmalloc :: "'a vstate_scheme \<Rightarrow> (unit, 'a vstate_scheme) outcome" where
  "kvmalloc s = bnd (setupkvm s) (\<lambda>d s. Ret () (switchkvm (s\<lparr>kpgdir := d\<rparr>)))"

text \<open>
  \<open>inituvm\<close> does not test the results of \<open>kalloc\<close> and \<open>mappages\<close>, and copies the
  image \<open>init\<close> of \<open>sz\<close> bytes to the page.
\<close>

definition inituvm :: "addr \<Rightarrow> addr \<Rightarrow> u32 \<Rightarrow> 'a vstate_scheme \<Rightarrow> (unit, 'a vstate_scheme) outcome" where
  "inituvm pgdir init sz s =
     (if sz \<ge> PGSIZE then Panic ''inituvm: more than a page''
      else bnd (kalloc s) (\<lambda>page s.
        let s = s\<lparr>mem := memset (mem s) page 0 PGSIZE\<rparr> in
        bnd (mappages pgdir 0 PGSIZE (v2p page) (PTE_W OR PTE_U) s) (\<lambda>_ s.
        Ret () (s\<lparr>mem := memmove (mem s) page init sz\<rparr>))))"

text \<open>
  \<open>deallocuvm\<close>: a missing page table lets the loop skip to the next directory entry.
  The addresses only grow and stay below \<open>oldsz\<close>; the fuel counts the pages of the
  address space.
\<close>

fun dealloc_loop :: "nat \<Rightarrow> addr \<Rightarrow> addr \<Rightarrow> addr \<Rightarrow> 'a vstate_scheme \<Rightarrow> (unit, 'a vstate_scheme) outcome" where
  "dealloc_loop 0 pgdir a oldsz s = Fault ''deallocuvm: out of fuel''"
| "dealloc_loop (Suc n) pgdir a oldsz s =
     (if \<not> a < oldsz then Ret () s
      else bnd (walkpgdir pgdir a False s) (\<lambda>pte s.
        if pte = 0 then dealloc_loop n pgdir (a + of_nat (NPTENTRIES - 1) * PGSIZE + PGSIZE) oldsz s
        else if load32 (mem s) pte AND PTE_P \<noteq> 0 then
          let pa = PTE_ADDR (load32 (mem s) pte) in
          if pa = 0 then Panic ''kfree''
          else bnd (kfree (p2v pa) s) (\<lambda>_ s.
            dealloc_loop n pgdir (a + PGSIZE) oldsz (s\<lparr>mem := store32 (mem s) pte 0\<rparr>))
        else dealloc_loop n pgdir (a + PGSIZE) oldsz s))"

definition vm_fuel :: nat where "vm_fuel = Suc (2 ^ 20)"

definition deallocuvm :: "addr \<Rightarrow> u32 \<Rightarrow> u32 \<Rightarrow> 'a vstate_scheme \<Rightarrow> (u32, 'a vstate_scheme) outcome" where
  "deallocuvm pgdir oldsz newsz s =
     (if newsz \<ge> oldsz then Ret oldsz s
      else bnd (dealloc_loop vm_fuel pgdir (PGROUNDUP newsz) oldsz s) (\<lambda>_ s. Ret newsz s))"

fun alloc_loop :: "nat \<Rightarrow> addr \<Rightarrow> addr \<Rightarrow> u32 \<Rightarrow> u32 \<Rightarrow> 'a vstate_scheme \<Rightarrow> (u32, 'a vstate_scheme) outcome" where
  "alloc_loop 0 pgdir a oldsz newsz s = Fault ''allocuvm: out of fuel''"
| "alloc_loop (Suc n) pgdir a oldsz newsz s =
     (if \<not> a < newsz then Ret newsz s
      else bnd (kalloc s) (\<lambda>page s.
        if page = 0 then
          bnd (cprintf (''allocuvm out of memory'' @ LF) [] s) (\<lambda>_ s.
          bnd (deallocuvm pgdir newsz oldsz s) (\<lambda>_ s. Ret 0 s))
        else let s = s\<lparr>mem := memset (mem s) page 0 PGSIZE\<rparr> in
          bnd (mappages pgdir a PGSIZE (v2p page) (PTE_W OR PTE_U) s) (\<lambda>_ s.
          alloc_loop n pgdir (a + PGSIZE) oldsz newsz s)))"

definition allocuvm :: "addr \<Rightarrow> u32 \<Rightarrow> u32 \<Rightarrow> 'a vstate_scheme \<Rightarrow> (u32, 'a vstate_scheme) outcome" where
  "allocuvm pgdir oldsz newsz s =
     (if newsz \<ge> KERNBASE then Ret 0 s
      else if newsz < oldsz then Ret oldsz s
      else alloc_loop vm_fuel pgdir (PGROUNDUP oldsz) oldsz newsz s)"

fun free_tables :: "nat \<Rightarrow> nat \<Rightarrow> addr \<Rightarrow> 'a vstate_scheme \<Rightarrow> (unit, 'a vstate_scheme) outcome" where
  "free_tables 0 i pgdir s = Ret () s"
| "free_tables (Suc n) i pgdir s =
     (let pde = load32 (mem s) (pgdir + 4 * of_nat i) in
      if pde AND PTE_P \<noteq> 0
      then bnd (kfree (p2v (PTE_ADDR pde)) s) (\<lambda>_ s. free_tables n (Suc i) pgdir s)
      else free_tables n (Suc i) pgdir s)"

definition freevm :: "addr \<Rightarrow> 'a vstate_scheme \<Rightarrow> (unit, 'a vstate_scheme) outcome" where
  "freevm pgdir s =
     (if pgdir = 0 then Panic ''freevm: no pgdir''
      else bnd (deallocuvm pgdir KERNBASE 0 s) (\<lambda>_ s.
        bnd (free_tables NPDENTRIES 0 pgdir s) (\<lambda>_ s. kfree pgdir s)))"

definition clearpteu :: "addr \<Rightarrow> addr \<Rightarrow> 'a vstate_scheme \<Rightarrow> (unit, 'a vstate_scheme) outcome" where
  "clearpteu pgdir uva s = bnd (walkpgdir pgdir uva False s) (\<lambda>pte s.
     if pte = 0 then Panic ''clearpteu''
     else Ret () (s\<lparr>mem := store32 (mem s) pte (load32 (mem s) pte AND NOT PTE_U)\<rparr>))"

fun copy_loop :: "nat \<Rightarrow> addr \<Rightarrow> addr \<Rightarrow> u32 \<Rightarrow> u32 \<Rightarrow> 'a vstate_scheme \<Rightarrow> (addr, 'a vstate_scheme) outcome" where
  "copy_loop 0 pgdir d i sz s = Fault ''copyuvm: out of fuel''"
| "copy_loop (Suc n) pgdir d i sz s =
     (if \<not> i < sz then Ret d s
      else bnd (walkpgdir pgdir i False s) (\<lambda>pte s.
        if pte = 0 then Panic ''copyuvm: pte should exist''
        else if load32 (mem s) pte AND PTE_P = 0 then Panic ''copyuvm: page not present''
        else let pa = PTE_ADDR (load32 (mem s) pte); flags = PTE_FLAGS (load32 (mem s) pte) in
          bnd (kalloc s) (\<lambda>page s.
          if page = 0 then bnd (freevm d s) (\<lambda>_ s. Ret 0 s)
          else let s = s\<lparr>mem := memmove (mem s) page (p2v pa) PGSIZE\<rparr> in
            bnd (mappages d i PGSIZE (v2p page) flags s) (\<lambda>r s.
            if r < 0 then bnd (freevm d s) (\<lambda>_ s. Ret 0 s)
            else copy_loop n pgdir d (i + PGSIZE) sz s))))"

definition copyuvm :: "addr \<Rightarrow> u32 \<Rightarrow> 'a vstate_scheme \<Rightarrow> (addr, 'a vstate_scheme) outcome" where
  "copyuvm pgdir sz s = bnd (setupkvm s) (\<lambda>d s.
     if d = 0 then Ret 0 s else copy_loop vm_fuel pgdir d 0 sz s)"

text \<open>
  \<open>uva2ka\<close> dereferences the entry address without testing it: a missing page table is a
  read through a null pointer.
\<close>

definition uva2ka :: "addr \<Rightarrow> addr \<Rightarrow> 'a vstate_scheme \<Rightarrow> (addr, 'a vstate_scheme) outcome" where
  "uva2ka pgdir uva s = bnd (walkpgdir pgdir uva False s) (\<lambda>pte s.
     if pte = 0 then Fault ''uva2ka: null pte''
     else let e = load32 (mem s) pte in
       if e AND PTE_P = 0 then Ret 0 s
       else if e AND PTE_U = 0 then Ret 0 s
       else Ret (p2v (PTE_ADDR e)) s)"

section \<open>Memory through the current page table\<close>

text \<open>
  Kernel addresses are mapped one to one.  A user address goes through the page directory
  of the running CPU; kernel code that reads or writes through a user pointer whose page is
  missing, or writes to a page that is not writable, takes a page fault.
\<close>

definition xlate :: "bool \<Rightarrow> addr \<Rightarrow> 'a vstate_scheme \<Rightarrow> addr option" where
  "xlate wr va s =
     (if va \<ge> KERNBASE then Some va
      else let pde = load32 (mem s) (p2v (cr3 (this_cpu s)) + 4 * PDX va) in
        if pde AND PTE_P = 0 then None
        else let pte = load32 (mem s) (p2v (PTE_ADDR pde) + 4 * PTX va) in
          if pte AND PTE_P = 0 \<or> wr \<and> pte AND PTE_W = 0 then None
          else Some (p2v (PTE_ADDR pte) + (va - PGROUNDDOWN va)))"

fun put_bytes :: "addr \<Rightarrow> byte list \<Rightarrow> 'a vstate_scheme \<Rightarrow> (unit, 'a vstate_scheme) outcome" where
  "put_bytes va [] s = Ret () s"
| "put_bytes va (b # bs) s =
     (case xlate True va s of None \<Rightarrow> Fault ''page fault''
      | Some a \<Rightarrow> put_bytes (va + 1) bs (s\<lparr>mem := (mem s)(a := b)\<rparr>))"

fun get_bytes :: "addr \<Rightarrow> nat \<Rightarrow> 'a vstate_scheme \<Rightarrow> (byte list, 'a vstate_scheme) outcome" where
  "get_bytes va 0 s = Ret [] s"
| "get_bytes va (Suc n) s =
     (case xlate False va s of None \<Rightarrow> Fault ''page fault''
      | Some a \<Rightarrow> bnd (get_bytes (va + 1) n s) (\<lambda>bs s. Ret (mem s a # bs) s))"

definition get_word :: "addr \<Rightarrow> 'a vstate_scheme \<Rightarrow> (u32, 'a vstate_scheme) outcome" where
  "get_word va s = bnd (get_bytes va 4 s) (\<lambda>bs s.
     Ret (ucast (bs ! 0) OR push_bit 8 (ucast (bs ! 1)) OR push_bit 16 (ucast (bs ! 2)) OR
          push_bit 24 (ucast (bs ! 3))) s)"

definition put_word :: "addr \<Rightarrow> u32 \<Rightarrow> 'a vstate_scheme \<Rightarrow> (unit, 'a vstate_scheme) outcome" where
  "put_word va v s = put_bytes va [ucast v, ucast (drop_bit 8 v), ucast (drop_bit 16 v), ucast (drop_bit 24 v)] s"

text \<open>The characters of a C string, up to its terminator; \<open>n\<close> bounds the length read.\<close>

fun get_cstr :: "nat \<Rightarrow> addr \<Rightarrow> 'a vstate_scheme \<Rightarrow> (byte list, 'a vstate_scheme) outcome" where
  "get_cstr 0 va s = Fault ''string not terminated''"
| "get_cstr (Suc n) va s =
     (case xlate False va s of None \<Rightarrow> Fault ''page fault''
      | Some a \<Rightarrow> if mem s a = 0 then Ret [] s
          else bnd (get_cstr n (va + 1) s) (\<lambda>bs s. Ret (mem s a # bs) s))"

text \<open>
  Where a routine puts the bytes it reads: at an address, or in a local variable of its
  caller (\<open>None\<close>), which takes them from the result.  Where it takes the bytes it
  writes from: memory, or a local variable with the given contents.
\<close>

definition deliver :: "addr option \<Rightarrow> nat \<Rightarrow> byte list \<Rightarrow> 'a vstate_scheme \<Rightarrow> (unit, 'a vstate_scheme) outcome" where
  "deliver dst k bs s = (case dst of None \<Rightarrow> Ret () s | Some a \<Rightarrow> put_bytes (a + of_nat k) bs s)"

datatype source = S_mem addr | S_bytes "byte list"

definition fetch :: "source \<Rightarrow> nat \<Rightarrow> nat \<Rightarrow> 'a vstate_scheme \<Rightarrow> (byte list, 'a vstate_scheme) outcome" where
  "fetch src k n s = (case src of S_mem a \<Rightarrow> get_bytes (a + of_nat k) n s
     | S_bytes bs \<Rightarrow> Ret (take n (drop k bs)) s)"

section \<open>Copying to another address space\<close>

fun store_bytes :: "memory \<Rightarrow> addr \<Rightarrow> byte list \<Rightarrow> memory" where
  "store_bytes m a [] = m"
| "store_bytes m a (b # bs) = store_bytes (m(a := b)) (a + 1) bs"

text \<open>Each round copies at least one byte.  \<open>off\<close> is how far the source pointer has gone.\<close>

fun copyout_loop :: "nat \<Rightarrow> addr \<Rightarrow> addr \<Rightarrow> source \<Rightarrow> u32 \<Rightarrow> u32 \<Rightarrow> 'a vstate_scheme \<Rightarrow> (int, 'a vstate_scheme) outcome" where
  "copyout_loop 0 pgdir va src off len s = Fault ''copyout: out of fuel''"
| "copyout_loop (Suc n) pgdir va src off len s =
     (if \<not> len > 0 then Ret 0 s
      else let va0 = PGROUNDDOWN va in
        bnd (uva2ka pgdir va0 s) (\<lambda>pa0 s.
        if pa0 = 0 then Ret (- 1) s
        else let k = PGSIZE - (va - va0); k = (if k > len then len else k) in
          bnd (fetch src (unat off) (unat k) s) (\<lambda>bs s.
          copyout_loop n pgdir (va0 + PGSIZE) src (off + k) (len - k)
            (s\<lparr>mem := store_bytes (mem s) (pa0 + (va - va0)) bs\<rparr>))))"

definition copyout :: "addr \<Rightarrow> addr \<Rightarrow> source \<Rightarrow> u32 \<Rightarrow> 'a vstate_scheme \<Rightarrow> (int, 'a vstate_scheme) outcome" where
  "copyout pgdir va p len s = copyout_loop (unat len + 1) pgdir va p 0 len s"

end
