(* ===== verification/Proc.thy ===== *)
theory Proc
  imports Vm
begin

text \<open>
  The process table, the two schedulers and the sleep/wakeup primitives of \<open>proc.c\<close>, with
  \<open>struct proc\<close> of \<open>proc.h\<close>, \<open>struct trapframe\<close> of \<open>x86.h\<close> and \<open>switchuvm\<close> of
  \<open>vm.c\<close>.

  A routine that gives up the CPU ends in the outcome \<open>Swtch\<close>, having saved in the
  process's context where it will go on.  The scheduler loop is cut at its \<open>swtch\<close>: a
  first half that chooses and dispatches a process and a second half that runs when the
  process has come back.
\<close>

section \<open>Data\<close>

datatype procstate = UNUSED | EMBRYO | SLEEPING | RUNNABLE | RUNNING | ZOMBIE

text \<open>The enumeration constants are compared as numbers.\<close>

fun procstate_num :: "procstate \<Rightarrow> nat" where
  "procstate_num UNUSED = 0"
| "procstate_num EMBRYO = 1"
| "procstate_num SLEEPING = 2"
| "procstate_num RUNNABLE = 3"
| "procstate_num RUNNING = 4"
| "procstate_num ZOMBIE = 5"

instantiation procstate :: linorder
begin

definition less_eq_procstate :: "procstate \<Rightarrow> procstate \<Rightarrow> bool" where
  "a \<le> b \<longleftrightarrow> procstate_num a \<le> procstate_num b"

definition less_procstate :: "procstate \<Rightarrow> procstate \<Rightarrow> bool" where
  "a < b \<longleftrightarrow> procstate_num a < procstate_num b"

instance
proof
  fix a b c :: procstate
  show "a < b \<longleftrightarrow> a \<le> b \<and> \<not> b \<le> a"
    by (auto simp: less_eq_procstate_def less_procstate_def)
  show "a \<le> a"
    by (simp add: less_eq_procstate_def)
  show "a \<le> b \<Longrightarrow> b \<le> c \<Longrightarrow> a \<le> c"
    by (simp add: less_eq_procstate_def)
  show "a \<le> b \<Longrightarrow> b \<le> a \<Longrightarrow> a = b"
    by (cases a; cases b) (auto simp: less_eq_procstate_def)
  show "a \<le> b \<or> b \<le> a"
    by (auto simp: less_eq_procstate_def)
qed

end

record trapframe =
  tf_edi :: u32
  tf_esi :: u32
  tf_ebp :: u32
  tf_oesp :: u32
  tf_ebx :: u32
  tf_edx :: u32
  tf_ecx :: u32
  tf_eax :: u32
  tf_gs :: u16
  tf_fs :: u16
  tf_es :: u16
  tf_ds :: u16
  tf_trapno :: u32
  tf_err :: u32
  tf_eip :: u32
  tf_cs :: u16
  tf_eflags :: u32
  tf_esp :: u32
  tf_ss :: u16

text \<open>
  Where a process continues when the scheduler switches to it: at \<open>forkret\<close> with the
  stack pointer that \<open>allocproc\<close> prepared, or after the \<open>swtch\<close> in \<open>sched\<close>, which
  has the saved interrupt flag in a local variable and was called from \<open>yield\<close>,
  \<open>sleep\<close> or \<open>exit\<close>; the address is the saved frame pointer.
\<close>

datatype resume = R_yield | R_sleep lockid | R_exit

datatype kcontext = K_none | K_forkret addr | K_sched resume bool addr

record proc =
  sz :: u32
  pgdir :: addr
  kstack :: addr
  state :: procstate
  pid :: u32
  parent :: "nat option"
  tf :: addr
  ctxt :: kcontext
  chan :: "chan option"
  killed :: bool
  ofile :: "nat option list"
  cwd :: "nat option"
  name :: "byte list"
  tickets :: u32
  usage :: u32
  stride :: u32
  pass :: u32
  limitpass :: u32

text \<open>
  \<open>parent\<close>, \<open>initproc\<close> and the current process of a CPU are slots of the table;
  \<open>ofile\<close> and \<open>cwd\<close> are slots of the file and the inode table.  Trap frames are kept
  by address.  \<open>forkret_addr\<close> and \<open>trapret_addr\<close> are link-time addresses of code.
\<close>

record pstate = vstate +
  ptable :: "proc list"
  initproc :: "nat option"
  nextpid :: u32
  isRoundRobin :: bool
  isDebug :: bool
  tfs :: "addr \<Rightarrow> trapframe"
  forkret_addr :: addr
  trapret_addr :: addr

text \<open>A slot of the table as the loader leaves it: all bytes zero.\<close>

definition zero_proc :: proc where
  "zero_proc = \<lparr>sz = 0, pgdir = 0, kstack = 0, state = UNUSED, pid = 0, parent = None, tf = 0,
     ctxt = K_none, chan = None, killed = False, ofile = replicate 16 None, cwd = None, name = [],
     tickets = 0, usage = 0, stride = 0, pass = 0, limitpass = 0\<rparr>"

definition NPROC :: nat where "NPROC = 64"
definition NOFILE :: nat where "NOFILE = 16"
definition KSTACKSIZE :: u32 where "KSTACKSIZE = 4096"

definition upd_proc :: "nat \<Rightarrow> (proc \<Rightarrow> proc) \<Rightarrow> 'a pstate_scheme \<Rightarrow> 'a pstate_scheme" where
  "upd_proc i f s = s\<lparr>ptable := (ptable s)[i := f (ptable s ! i)]\<rparr>"

text \<open>The process this CPU runs; reading through the pointer faults when there is none.\<close>

definition with_proc :: "(nat \<Rightarrow> 'a pstate_scheme \<Rightarrow> ('r, 'a pstate_scheme) outcome) \<Rightarrow>
    'a pstate_scheme \<Rightarrow> ('r, 'a pstate_scheme) outcome" where
  "with_proc f s = (case cproc (this_cpu s) of None \<Rightarrow> Fault ''null proc'' | Some i \<Rightarrow> f i s)"

definition set_proc :: "nat option \<Rightarrow> 'a pstate_scheme \<Rightarrow> 'a pstate_scheme" where
  "set_proc p s = upd_cpu (\<lambda>c. c\<lparr>cproc := p\<rparr>) s"

section \<open>Process slots\<close>

definition pinit :: "'a pstate_scheme \<Rightarrow> 'a pstate_scheme" where
  "pinit s = initlock L_ptable ''ptable'' s"

text \<open>The first slot from \<open>i\<close> on whose process satisfies \<open>P\<close>: the shape of the search loops.\<close>

fun find_from :: "(proc \<Rightarrow> bool) \<Rightarrow> nat \<Rightarrow> proc list \<Rightarrow> nat option" where
  "find_from P i [] = None"
| "find_from P i (p # ps) = (if P p then Some i else find_from P (Suc i) ps)"

text \<open>\<open>tickets\<close>, \<open>pass\<close>, \<open>stride\<close> and \<open>limitpass\<close> of a new process.\<close>

definition stride_init :: "u32 \<Rightarrow> proc \<Rightarrow> proc option" where
  "stride_init tk p =
     (case c_div 10000 tk of None \<Rightarrow> None
      | Some d \<Rightarrow> Some (p\<lparr>tickets := tk, pass := 0, stride := d, limitpass := d\<rparr>))"

definition alloc_slot :: "u32 \<Rightarrow> nat \<Rightarrow> 'a pstate_scheme \<Rightarrow> (unit, 'a pstate_scheme) outcome" where
  "alloc_slot tk i s =
     (let s = upd_proc i (\<lambda>p. p\<lparr>state := EMBRYO, pid := nextpid s\<rparr>) s;
          s = s\<lparr>nextpid := nextpid s + 1\<rparr>
      in if isRoundRobin s then Ret () s
         else case stride_init tk (ptable s ! i) of
             None \<Rightarrow> Fault ''divide error''
           | Some p \<Rightarrow>
               let s = upd_proc i (\<lambda>_. p) s in
               if isDebug s
               then cprintf (LF @ ''|-Processo pid %d criado com %d tickets-|'' @ LF)
                      [A_int (pid p), A_int tk] s
               else Ret () s)"

text \<open>
  The kernel stack of a new process, from the top: the trap frame (76 bytes), the address
  of \<open>trapret\<close>, and a context (20 bytes, the return address last) that starts at
  \<open>forkret\<close>.
\<close>

definition alloc_stack :: "nat \<Rightarrow> addr \<Rightarrow> 'a pstate_scheme \<Rightarrow> 'a pstate_scheme" where
  "alloc_stack i stk s =
     (let sp = stk + KSTACKSIZE - 76;
          s = upd_proc i (\<lambda>p. p\<lparr>tf := sp\<rparr>) s;
          sp = sp - 4;
          s = s\<lparr>mem := store32 (mem s) sp (trapret_addr s)\<rparr>;
          sp = sp - 20;
          s = upd_proc i (\<lambda>p. p\<lparr>ctxt := K_forkret sp\<rparr>) s;
          s = s\<lparr>mem := memset (mem s) sp 0 20\<rparr>
      in s\<lparr>mem := store32 (mem s) (sp + 16) (forkret_addr s)\<rparr>)"

definition allocproc :: "u32 \<Rightarrow> 'a pstate_scheme \<Rightarrow> (nat option, 'a pstate_scheme) outcome" where
  "allocproc tk s = bnd (acquire L_ptable s) (\<lambda>_ s.
     case find_from (\<lambda>p. state p = UNUSED) 0 (ptable s) of
       None \<Rightarrow> bnd (release L_ptable s) (\<lambda>_ s. Ret None s)
     | Some i \<Rightarrow>
         bnd (alloc_slot tk i s) (\<lambda>_ s.
         bnd (release L_ptable s) (\<lambda>_ s.
         bnd (kalloc s) (\<lambda>stk s.
         let s = upd_proc i (\<lambda>p. p\<lparr>kstack := stk\<rparr>) s in
         if stk = 0 then Ret None (upd_proc i (\<lambda>p. p\<lparr>state := UNUSED\<rparr>) s)
         else Ret (Some i) (alloc_stack i stk s)))))"

section \<open>Address space switch\<close>

text \<open>The task state takes its stack from the current process, the page table from \<open>p\<close>.\<close>

definition switchuvm :: "nat \<Rightarrow> 'a pstate_scheme \<Rightarrow> (unit, 'a pstate_scheme) outcome" where
  "switchuvm p s = bnd (pushcli s) (\<lambda>_ s. with_proc (\<lambda>me s.
     let s = upd_cpu (\<lambda>c. c\<lparr>ts_ss0 := 2 * 8, ts_esp0 := kstack (ptable s ! me) + KSTACKSIZE\<rparr>) s in
     if pgdir (ptable s ! p) = 0 then Panic ''switchuvm: no pgdir''
     else let s = upd_cpu (\<lambda>c. c\<lparr>cr3 := v2p (pgdir (ptable s ! p))\<rparr>) s in popcli s) s)"

section \<open>The stride scheduler\<close>

text \<open>The test of the search loop: slot \<open>i\<close> replaces the best slot \<open>m\<close> so far.\<close>

definition stride_better :: "proc list \<Rightarrow> nat \<Rightarrow> nat \<Rightarrow> bool" where
  "stride_better ps i m \<longleftrightarrow>
     slt (pass (ps ! i)) (pass (ps ! m)) \<and> state (ps ! i) > EMBRYO \<and> state (ps ! i) < ZOMBIE \<and>
     slt 0 (tickets (ps ! i))"

fun stride_loop :: "proc list \<Rightarrow> nat \<Rightarrow> nat \<Rightarrow> nat \<Rightarrow> nat" where
  "stride_loop ps i 0 m = m"
| "stride_loop ps i (Suc n) m = stride_loop ps (Suc i) n (if stride_better ps i m then i else m)"

definition stride_pick :: "proc list \<Rightarrow> nat" where
  "stride_pick ps = stride_loop ps 0 (length ps) 0"

definition stride_account :: "proc \<Rightarrow> proc" where
  "stride_account p =
     (if sle (limitpass p) (pass p)
      then p\<lparr>limitpass := limitpass p + (pass p + stride p)\<rparr>
      else p\<lparr>pass := pass p + stride p\<rparr>)"

definition stride_reset :: "proc \<Rightarrow> proc" where
  "stride_reset p = (if slt (pass p) 0 then p\<lparr>pass := 0, limitpass := stride p\<rparr> else p)"

definition sched_stride :: "'a pstate_scheme \<Rightarrow> (nat, 'a pstate_scheme) outcome" where
  "sched_stride s =
     (let s = sti s in
      bnd (acquire L_ptable s) (\<lambda>_ s.
      let m = stride_pick (ptable s);
          s = upd_proc m stride_account s;
          s = upd_proc m (\<lambda>p. p\<lparr>state := RUNNING\<rparr>) s;
          s = set_proc (Some m) s;
          s = upd_proc m stride_reset s
      in bnd (switchuvm m s) (\<lambda>_ s. Ret m s)))"

definition sched_stride_back :: "'a pstate_scheme \<Rightarrow> (unit, 'a pstate_scheme) outcome" where
  "sched_stride_back s = (let s = set_proc None (switchkvm s) in release L_ptable s)"

text \<open>
  The accounting of \<open>trap\<close> (in \<open>trap.c\<close>): on a clock tick, or at the limit, the limit
  grows and the process yields; on any other interrupt its pass grows.
\<close>

definition tick_account :: "proc \<Rightarrow> proc" where
  "tick_account p = p\<lparr>limitpass := limitpass p + (pass p + stride p)\<rparr>"

definition intr_account :: "proc \<Rightarrow> proc" where
  "intr_account p = p\<lparr>pass := pass p + stride p\<rparr>"

section \<open>The round-robin scheduler\<close>

text \<open>
  From slot \<open>i\<close> on the loop dispatches the next runnable process; when the process has
  come back the loop goes on behind it.  \<open>None\<close> is the end of a pass over the table,
  where the lock is released.
\<close>

definition rr_next :: "nat \<Rightarrow> 'a pstate_scheme \<Rightarrow> (nat option, 'a pstate_scheme) outcome" where
  "rr_next i s =
     (case find_from (\<lambda>p. state p = RUNNABLE) i (drop i (ptable s)) of
        None \<Rightarrow> bnd (release L_ptable s) (\<lambda>_ s. Ret None s)
      | Some p \<Rightarrow>
          let s = set_proc (Some p) s in
          bnd (switchuvm p s) (\<lambda>_ s. Ret (Some p) (upd_proc p (\<lambda>q. q\<lparr>state := RUNNING\<rparr>) s)))"

definition sched_rr :: "'a pstate_scheme \<Rightarrow> (nat option, 'a pstate_scheme) outcome" where
  "sched_rr s = (let s = sti s in bnd (acquire L_ptable s) (\<lambda>_ s. rr_next 0 s))"

definition sched_rr_back :: "nat \<Rightarrow> 'a pstate_scheme \<Rightarrow> (nat option, 'a pstate_scheme) outcome" where
  "sched_rr_back p s = rr_next (Suc p) (set_proc None (switchkvm s))"

text \<open>The two halves of \<open>scheduler\<close>: to the next \<open>swtch\<close>, and from its return.\<close>

definition scheduler_enter :: "'a pstate_scheme \<Rightarrow> (nat option, 'a pstate_scheme) outcome" where
  "scheduler_enter s =
     (if isRoundRobin s then sched_rr s else bnd (sched_stride s) (\<lambda>m s. Ret (Some m) s))"

definition scheduler_back :: "nat \<Rightarrow> 'a pstate_scheme \<Rightarrow> (nat option, 'a pstate_scheme) outcome" where
  "scheduler_back p s =
     (if isRoundRobin s then sched_rr_back p s
      else bnd (sched_stride_back s) (\<lambda>_ s. Ret None s))"

section \<open>Giving up the CPU\<close>

definition sched :: "resume \<Rightarrow> 'a pstate_scheme \<Rightarrow> ('r, 'a pstate_scheme) outcome" where
  "sched r s =
     (if \<not> holding L_ptable s then Panic ''sched ptable.lock''
      else if ncli (this_cpu s) \<noteq> 1 then Panic ''sched locks''
      else with_proc (\<lambda>me s.
        if state (ptable s ! me) = RUNNING then Panic ''sched running''
        else if if_flag (this_cpu s) then Panic ''sched interruptible''
        else Swtch (upd_proc me (\<lambda>p. p\<lparr>ctxt := K_sched r (intena (this_cpu s)) (ebp s)\<rparr>) s)) s)"

definition yield :: "'a pstate_scheme \<Rightarrow> ('r, 'a pstate_scheme) outcome" where
  "yield s = bnd (acquire L_ptable s) (\<lambda>_ s.
     with_proc (\<lambda>me s. sched R_yield (upd_proc me (\<lambda>p. p\<lparr>state := RUNNABLE\<rparr>) s)) s)"

definition sleep :: "chan \<Rightarrow> lockid \<Rightarrow> 'a pstate_scheme \<Rightarrow> ('r, 'a pstate_scheme) outcome" where
  "sleep ch lk s =
     (case cproc (this_cpu s) of None \<Rightarrow> Panic ''sleep''
      | Some me \<Rightarrow>
          bnd (if lk \<noteq> L_ptable
               then bnd (acquire L_ptable s) (\<lambda>_ s. release lk s) else Ret () s) (\<lambda>_ s.
          sched (R_sleep lk) (upd_proc me (\<lambda>p. p\<lparr>chan := Some ch, state := SLEEPING\<rparr>) s)))"

text \<open>What runs after \<open>sched\<close> has come back, by the caller of \<open>sched\<close>.\<close>

definition yield_back :: "'a pstate_scheme \<Rightarrow> (unit, 'a pstate_scheme) outcome" where
  "yield_back s = release L_ptable s"

definition sleep_back :: "lockid \<Rightarrow> 'a pstate_scheme \<Rightarrow> (unit, 'a pstate_scheme) outcome" where
  "sleep_back lk s = with_proc (\<lambda>me s.
     let s = upd_proc me (\<lambda>p. p\<lparr>chan := None\<rparr>) s in
     if lk \<noteq> L_ptable then bnd (release L_ptable s) (\<lambda>_ s. acquire lk s) else Ret () s) s"

definition sched_back :: "resume \<Rightarrow> bool \<Rightarrow> 'a pstate_scheme \<Rightarrow> (unit, 'a pstate_scheme) outcome" where
  "sched_back r ie s =
     (let s = upd_cpu (\<lambda>c. c\<lparr>intena := ie\<rparr>) s in
      case r of R_yield \<Rightarrow> yield_back s
      | R_sleep lk \<Rightarrow> sleep_back lk s
      | R_exit \<Rightarrow> Panic ''zombie exit'')"

section \<open>Wakeup and kill\<close>

definition wake_one :: "chan \<Rightarrow> proc \<Rightarrow> proc" where
  "wake_one ch p = (if state p = SLEEPING \<and> chan p = Some ch then p\<lparr>state := RUNNABLE\<rparr> else p)"

definition wakeup1 :: "chan \<Rightarrow> 'a pstate_scheme \<Rightarrow> 'a pstate_scheme" where
  "wakeup1 ch s = s\<lparr>ptable := map (wake_one ch) (ptable s)\<rparr>"

definition wakeup :: "chan \<Rightarrow> 'a pstate_scheme \<Rightarrow> (unit, 'a pstate_scheme) outcome" where
  "wakeup ch s = bnd (acquire L_ptable s) (\<lambda>_ s. release L_ptable (wakeup1 ch s))"

definition kill :: "u32 \<Rightarrow> 'a pstate_scheme \<Rightarrow> (int, 'a pstate_scheme) outcome" where
  "kill n s = bnd (acquire L_ptable s) (\<lambda>_ s.
     case find_from (\<lambda>p. pid p = n) 0 (ptable s) of
       None \<Rightarrow> bnd (release L_ptable s) (\<lambda>_ s. Ret (- 1) s)
     | Some i \<Rightarrow>
         let s = upd_proc i (\<lambda>p. p\<lparr>killed := True\<rparr>) s;
             s = upd_proc i (\<lambda>p. if state p = SLEEPING then p\<lparr>state := RUNNABLE\<rparr> else p) s
         in bnd (release L_ptable s) (\<lambda>_ s. Ret 0 s))"

section \<open>Debugging aids\<close>

fun state_label :: "procstate \<Rightarrow> string" where
  "state_label UNUSED = ''unused''"
| "state_label EMBRYO = ''embryo''"
| "state_label SLEEPING = ''sleep ''"
| "state_label RUNNABLE = ''runble''"
| "state_label RUNNING = ''run   ''"
| "state_label ZOMBIE = ''zombie''"

definition c_str :: "string \<Rightarrow> byte list" where
  "c_str cs = map (\<lambda>c. of_nat (of_char c)) cs"

fun print_pcs :: "u32 list \<Rightarrow> 'a pstate_scheme \<Rightarrow> (unit, 'a pstate_scheme) outcome" where
  "print_pcs [] s = Ret () s"
| "print_pcs (pc # rest) s =
     (if pc \<noteq> 0 then bnd (cprintf '' %p'' [A_int pc] s) (\<lambda>_ s. print_pcs rest s) else Ret () s)"

fun saved_ebp :: "kcontext \<Rightarrow> addr option" where
  "saved_ebp K_none = None"
| "saved_ebp (K_forkret sp) = Some 0"
| "saved_ebp (K_sched r ie fp) = Some fp"

definition dump_one :: "proc \<Rightarrow> 'a pstate_scheme \<Rightarrow> (unit, 'a pstate_scheme) outcome" where
  "dump_one p s =
     bnd (cprintf ''%d %s %s'' [A_int (pid p), A_str (Some (c_str (state_label (state p)))),
            A_str (Some (name p))] s) (\<lambda>_ s.
     bnd (if state p = SLEEPING then
            (case saved_ebp (ctxt p) of None \<Rightarrow> Fault ''null context''
             | Some fp \<Rightarrow> print_pcs (getcallerpcs (mem s) (fp + 8)) s)
          else Ret () s) (\<lambda>_ s.
     cprintf LF [] s))"

fun dump_all :: "proc list \<Rightarrow> 'a pstate_scheme \<Rightarrow> (unit, 'a pstate_scheme) outcome" where
  "dump_all [] s = Ret () s"
| "dump_all (p # ps) s =
     (if state p = UNUSED then dump_all ps s else bnd (dump_one p s) (\<lambda>_ s. dump_all ps s))"

definition procdump :: "'a pstate_scheme \<Rightarrow> (unit, 'a pstate_scheme) outcome" where
  "procdump s = dump_all (ptable s) s"

definition switchDebug :: "'a pstate_scheme \<Rightarrow> bool \<times> 'a pstate_scheme" where
  "switchDebug s = (\<not> isDebug s, s\<lparr>isDebug := \<not> isDebug s\<rparr>)"

section \<open>Frame lemmas\<close>

lemma upd_proc_fields [simp]:
  "ptable (upd_proc i f s) = (ptable s)[i := f (ptable s ! i)]"
  "mem (upd_proc i f s) = mem s" "ebp (upd_proc i f s) = ebp s" "mycpu (upd_proc i f s) = mycpu s"
  "cpus (upd_proc i f s) = cpus s" "locks (upd_proc i f s) = locks s"
  "cons_locking (upd_proc i f s) = cons_locking s" "panicked (upd_proc i f s) = panicked s"
  "kend (upd_proc i f s) = kend s" "use_lock (upd_proc i f s) = use_lock s"
  "freelist (upd_proc i f s) = freelist s" "kpgdir (upd_proc i f s) = kpgdir s"
  "initproc (upd_proc i f s) = initproc s" "nextpid (upd_proc i f s) = nextpid s"
  "isRoundRobin (upd_proc i f s) = isRoundRobin s" "isDebug (upd_proc i f s) = isDebug s"
  "tfs (upd_proc i f s) = tfs s" "pstate.more (upd_proc i f s) = pstate.more s"
  by (simp_all add: upd_proc_def)

lemma upd_cpu_pstate [simp]:
  "ptable (upd_cpu f s) = ptable s" "initproc (upd_cpu f s) = initproc s"
  "nextpid (upd_cpu f s) = nextpid s" "isRoundRobin (upd_cpu f s) = isRoundRobin s"
  "isDebug (upd_cpu f s) = isDebug s" "tfs (upd_cpu f s) = tfs s" "kpgdir (upd_cpu f s) = kpgdir s"
  "use_lock (upd_cpu f s) = use_lock s" "freelist (upd_cpu f s) = freelist s"
  "kend (upd_cpu f s) = kend s" "pstate.more (upd_cpu f s) = pstate.more s"
  for s :: "'a pstate_scheme"
  by (simp_all add: upd_cpu_def)

lemma pstate_lock_fields [simp]:
  "ptable (lock_taken l s) = ptable s" "initproc (lock_taken l s) = initproc s"
  "nextpid (lock_taken l s) = nextpid s" "isRoundRobin (lock_taken l s) = isRoundRobin s"
  "isDebug (lock_taken l s) = isDebug s" "tfs (lock_taken l s) = tfs s"
  "kpgdir (lock_taken l s) = kpgdir s" "pstate.more (lock_taken l s) = pstate.more s"
  "ptable (lock_dropped l s) = ptable s" "initproc (lock_dropped l s) = initproc s"
  "nextpid (lock_dropped l s) = nextpid s" "isRoundRobin (lock_dropped l s) = isRoundRobin s"
  "isDebug (lock_dropped l s) = isDebug s" "tfs (lock_dropped l s) = tfs s"
  "kpgdir (lock_dropped l s) = kpgdir s" "pstate.more (lock_dropped l s) = pstate.more s"
  for s :: "'a pstate_scheme"
  by (simp_all add: lock_unfolds)

lemma pushed_pstate [simp]:
  "ptable (pushed s) = ptable s" "ptable (popped s) = ptable s"
  "nextpid (pushed s) = nextpid s" "nextpid (popped s) = nextpid s"
  "pstate.more (pushed s) = pstate.more s" "pstate.more (popped s) = pstate.more s"
  for s :: "'a pstate_scheme"
  by (simp_all add: pushed_def popped_def)

lemma in_section_pstate [simp]:
  "in_section l s (upd_proc i f t) = in_section l s t"
  "in_section l s (t\<lparr>ptable := ps\<rparr>) = in_section l s t"
  "in_section l s (t\<lparr>nextpid := n\<rparr>) = in_section l s t"
  "in_section l s (wakeup1 ch t) = in_section l s t" for t :: "'a pstate_scheme"
  by (simp_all add: in_section_def wakeup1_def)

lemma lock_taken_cpu [simp]:
  "ncli (cpus (lock_taken l s) i) = ncli (cpus s i) + (if i = mycpu s then 1 else 0)"
  "if_flag (cpus (lock_taken l s) i) = (i \<noteq> mycpu s \<and> if_flag (cpus s i))"
  "holding l (lock_taken l s)"
  by (simp_all add: lock_taken_def pushed_def holding_def)

lemma lock_free_taken [simp]: "lock_free k (lock_taken l s) \<longleftrightarrow> k \<noteq> l \<and> lock_free k s"
  by (simp add: lock_free_def lock_taken_def)

lemma lock_free_set_proc [simp]: "lock_free k (set_proc p s) = lock_free k s"
  by (simp add: lock_free_def set_proc_def)

lemma holding_upd_proc [simp]: "holding l (upd_proc i f s) = holding l s"
  by (simp add: holding_def)

lemma cpu_wf_upd_proc [simp]: "cpu_wf (upd_proc i f s) = cpu_wf s"
  by (simp add: cpu_wf_def)

lemma lock_free_upd_proc [simp]: "lock_free l (upd_proc i f s) = lock_free l s"
  by (simp add: lock_free_def)

lemma upd_proc_twice: "i < length (ptable s) \<Longrightarrow> upd_proc i f (upd_proc i g s) = upd_proc i (\<lambda>p. f (g p)) s"
  by (simp add: upd_proc_def)

text \<open>Slot searches.\<close>

lemma find_from_Some:
  "find_from P k ps = Some i \<longleftrightarrow>
     k \<le> i \<and> i - k < length ps \<and> P (ps ! (i - k)) \<and> (\<forall>j < i - k. \<not> P (ps ! j))"
proof (induction ps arbitrary: k)
  case (Cons p ps)
  show ?case
  proof (cases "P p")
    case True
    have "i = k" if "k \<le> i" and "\<forall>j < i - k. \<not> P ((p # ps) ! j)"
      using True that by (metis diff_is_0_eq le_antisym neq0_conv nth_Cons_0)
    then show ?thesis using True by auto
  next
    case False
    show ?thesis
    proof (cases "k < i")
      case True
      then obtain d where d: "i - k = Suc d" "i - Suc k = d" by (cases "i - k") auto
      show ?thesis using False True Cons.IH[of "Suc k"]
        by (auto simp: d less_Suc_eq_0_disj)
    qed (use False Cons.IH[of "Suc k"] in auto)
  qed
qed simp

lemma find_from_None: "find_from P k ps = None \<longleftrightarrow> (\<forall>p \<in> set ps. \<not> P p)"
  by (induction ps arbitrary: k) auto

text \<open>The states that the search loop of the stride scheduler accepts.\<close>

lemma between_EMBRYO_ZOMBIE:
  "EMBRYO < x \<and> x < ZOMBIE \<longleftrightarrow> x = SLEEPING \<or> x = RUNNABLE \<or> x = RUNNING"
  by (cases x) (auto simp: less_procstate_def)

section \<open>Wakeup and kill\<close>

lemma wakeup_run:
  assumes "lock_free L_ptable s" and "cpu_wf s"
  shows "wakeup ch s = Ret () (lock_dropped L_ptable (wakeup1 ch (lock_taken L_ptable s)))"
    and "balanced s (lock_dropped L_ptable (wakeup1 ch (lock_taken L_ptable s)))"
  using assms
  by (simp_all add: wakeup_def acquire_free release_in_section[where s = s] balanced_section)

text \<open>The state after \<open>wakeup\<close>.\<close>

definition woken :: "chan \<Rightarrow> 'a pstate_scheme \<Rightarrow> 'a pstate_scheme" where
  "woken ch s = lock_dropped L_ptable (wakeup1 ch (lock_taken L_ptable s))"

lemma wakeup_woken:
  assumes "lock_free L_ptable s" and "cpu_wf s"
  shows "wakeup ch s = Ret () (woken ch s)" and "balanced s (woken ch s)"
  using wakeup_run[OF assms] by (simp_all add: woken_def)

lemma woken_fields [simp]:
  "ptable (woken ch s) = map (wake_one ch) (ptable s)" "mem (woken ch s) = mem s"
  "mycpu (woken ch s) = mycpu s" "pstate.more (woken ch s) = pstate.more s"
  by (simp_all add: woken_def wakeup1_def)

lemma kill_run:
  assumes "lock_free L_ptable s" and "cpu_wf s"
  shows "find_from (\<lambda>p. pid p = n) 0 (ptable s) = None \<Longrightarrow>
      \<exists>t. kill n s = Ret (- 1) t \<and> ptable t = ptable s \<and> balanced s t"
    and "find_from (\<lambda>p. pid p = n) 0 (ptable s) = Some i \<Longrightarrow>
      \<exists>t. kill n s = Ret 0 t \<and> balanced s t \<and>
          ptable t = (ptable s)[i := (ptable s ! i)\<lparr>killed := True,
            state := (if state (ptable s ! i) = SLEEPING then RUNNABLE else state (ptable s ! i))\<rparr>]"
proof -
  show "\<exists>t. kill n s = Ret (- 1) t \<and> ptable t = ptable s \<and> balanced s t"
    if "find_from (\<lambda>p. pid p = n) 0 (ptable s) = None"
    using assms that
    by (simp add: kill_def acquire_free release_in_section[where s = s] balanced_section)
next
  assume i: "find_from (\<lambda>p. pid p = n) 0 (ptable s) = Some i"
  then have "i < length (ptable s)" by (simp add: find_from_Some)
  then show "\<exists>t. kill n s = Ret 0 t \<and> balanced s t \<and>
          ptable t = (ptable s)[i := (ptable s ! i)\<lparr>killed := True,
            state := (if state (ptable s ! i) = SLEEPING then RUNNABLE else state (ptable s ! i))\<rparr>]"
    using assms i
    by (simp add: kill_def acquire_free release_in_section[where s = s] balanced_section)
qed

section \<open>Dispatching\<close>

text \<open>\<open>switchuvm\<close> on a process with a page table: only the CPU's registers change.\<close>

definition uvm_switched :: "nat \<Rightarrow> nat \<Rightarrow> 'a pstate_scheme \<Rightarrow> 'a pstate_scheme" where
  "uvm_switched me p s = popped (upd_cpu (\<lambda>c. c\<lparr>ts_ss0 := 16,
      ts_esp0 := kstack (ptable s ! me) + KSTACKSIZE, cr3 := v2p (pgdir (ptable s ! p))\<rparr>) (pushed s))"

lemma switchuvm_run:
  assumes "cproc (this_cpu s) = Some me" and "pgdir (ptable s ! p) \<noteq> 0" and "cpu_wf s"
  shows "switchuvm p s = Ret () (uvm_switched me p s)"
proof -
  let ?t = "upd_cpu (\<lambda>c. c\<lparr>ts_ss0 := 16, ts_esp0 := kstack (ptable s ! me) + KSTACKSIZE,
      cr3 := v2p (pgdir (ptable s ! p))\<rparr>) (pushed s)"
  have "popcli ?t = Ret () (popped ?t)"
    using assms(3) by (intro popcli_eq) (auto simp: cpu_wf_def pushed_def)
  then show ?thesis
    using assms by (simp add: switchuvm_def pushcli_eq with_proc_def uvm_switched_def Let_def
        upd_cpu_upd_cpu pushed_def)
qed

lemma switchuvm_no_pgdir:
  "cproc (this_cpu s) = Some me \<Longrightarrow> pgdir (ptable s ! p) = 0 \<Longrightarrow>
   switchuvm p s = Panic ''switchuvm: no pgdir''"
  by (simp add: switchuvm_def pushcli_eq with_proc_def Let_def pushed_def)

lemma uvm_switched_fields [simp]:
  "mem (uvm_switched me p s) = mem s" "mycpu (uvm_switched me p s) = mycpu s"
  "locks (uvm_switched me p s) = locks s" "ptable (uvm_switched me p s) = ptable s"
  "nextpid (uvm_switched me p s) = nextpid s" "ebp (uvm_switched me p s) = ebp s"
  "cproc (cpus (uvm_switched me p s) i) = cproc (cpus s i)"
  "holding l (uvm_switched me p s) = holding l s"
  by (simp_all add: uvm_switched_def pushed_def popped_def holding_def)

lemma uvm_switched_cpu:
  assumes "cpu_wf s"
  shows "ncli (this_cpu (uvm_switched me p s)) = ncli (this_cpu s)"
    and "if_flag (this_cpu (uvm_switched me p s)) = if_flag (this_cpu s)"
    and "cr3 (this_cpu (uvm_switched me p s)) = v2p (pgdir (ptable s ! p))"
    and "ts_esp0 (this_cpu (uvm_switched me p s)) = kstack (ptable s ! me) + KSTACKSIZE"
  using assms by (auto simp: uvm_switched_def pushed_def popped_def cpu_wf_def)

text \<open>What the stride scheduler does to the process it dispatches.\<close>

definition stride_dispatched :: "proc \<Rightarrow> proc" where
  "stride_dispatched p = stride_reset ((stride_account p)\<lparr>state := RUNNING\<rparr>)"

lemma stride_dispatched_keeps [simp]:
  "pgdir (stride_dispatched p) = pgdir p" "kstack (stride_dispatched p) = kstack p"
  "pid (stride_dispatched p) = pid p" "ctxt (stride_dispatched p) = ctxt p"
  "state (stride_dispatched p) = RUNNING" "tickets (stride_dispatched p) = tickets p"
  "stride (stride_dispatched p) = stride p" "chan (stride_dispatched p) = chan p"
  by (simp_all add: stride_dispatched_def stride_reset_def stride_account_def)

lemma cproc_set_proc [simp]:
  "cproc (cpus (set_proc p s) i) = (if i = mycpu s then p else cproc (cpus s i))"
  by (simp add: set_proc_def)

lemma set_proc_fields [simp]:
  "ptable (set_proc p s) = ptable s" "locks (set_proc p s) = locks s" "mycpu (set_proc p s) = mycpu s"
  "mem (set_proc p s) = mem s" "nextpid (set_proc p s) = nextpid s" "ebp (set_proc p s) = ebp s"
  "holding l (set_proc p s) = holding l s" "cpu_wf (set_proc p s) = cpu_wf s"
  "ncli (cpus (set_proc p s) i) = ncli (cpus s i)" "if_flag (cpus (set_proc p s) i) = if_flag (cpus s i)"
  "intena (cpus (set_proc p s) i) = intena (cpus s i)" "cr3 (cpus (set_proc p s) i) = cr3 (cpus s i)"
  by (simp_all add: set_proc_def holding_def cpu_wf_def)

lemma cpu_wf_taken: "cpu_wf s \<Longrightarrow> cpu_wf (lock_taken l s)"
  by (simp add: cpu_wf_def lock_taken_def pushed_def)

lemma sti_fields [simp]:
  "ptable (sti s) = ptable s" "locks (sti s) = locks s" "mycpu (sti s) = mycpu s"
  "mem (sti s) = mem s" "ncli (cpus (sti s) i) = ncli (cpus s i)" "lock_free l (sti s) = lock_free l s"
  for s :: "'a pstate_scheme"
  by (simp_all add: sti_def lock_free_def)

lemma cpu_wf_sti: "ncli (this_cpu s) = 0 \<Longrightarrow> cpu_wf (sti s)"
  by (simp add: sti_def cpu_wf_def)

text \<open>
  One round of the stride scheduler up to its \<open>swtch\<close>: the CPU holds only the table lock,
  interrupts are off, the chosen process is accounted, marked running and current, and
  its page table is loaded.
\<close>

lemma sched_stride_run:
  fixes s :: "'a pstate_scheme"
  defines "m \<equiv> stride_pick (ptable s)"
  assumes free: "lock_free L_ptable s" and n0: "ncli (this_cpu s) = 0"
    and m: "m < length (ptable s)" and pg: "pgdir (ptable s ! m) \<noteq> 0"
  shows "\<exists>t. sched_stride s = Ret m t \<and> holding L_ptable t \<and> ncli (this_cpu t) = 1 \<and>
     \<not> if_flag (this_cpu t) \<and> cproc (this_cpu t) = Some m \<and>
     cr3 (this_cpu t) = v2p (pgdir (ptable s ! m)) \<and> mycpu t = mycpu s \<and> mem t = mem s \<and>
     (\<forall>c. c \<noteq> mycpu s \<longrightarrow> cpus t c = cpus s c) \<and>
     ptable t = (ptable s)[m := stride_dispatched (ptable s ! m)]"
proof -
  let ?a = "lock_taken L_ptable (sti s)"
  let ?b = "upd_proc m stride_reset (set_proc (Some m)
      (upd_proc m (\<lambda>p. p\<lparr>state := RUNNING\<rparr>) (upd_proc m stride_account ?a)))"
  have pt: "ptable ?b = (ptable s)[m := stride_dispatched (ptable s ! m)]"
    using m by (simp add: stride_dispatched_def)
  have wf: "cpu_wf ?b" using n0 by (simp add: cpu_wf_taken cpu_wf_sti)
  have cp: "cproc (this_cpu ?b) = Some m" by simp
  have pgb: "pgdir (ptable ?b ! m) = pgdir (ptable s ! m)" using m pt by simp
  have sw: "switchuvm m ?b = Ret () (uvm_switched m m ?b)"
    using pg pgb by (intro switchuvm_run[OF cp _ wf]) simp
  have "sched_stride s = Ret m (uvm_switched m m ?b)"
    using free sw unfolding m_def by (simp add: sched_stride_def acquire_free Let_def)
  moreover have "ncli (this_cpu ?b) = 1" "\<not> if_flag (this_cpu ?b)" "holding L_ptable ?b"
    using n0 by (simp_all add: lock_taken_def pushed_def holding_def)
  moreover have "\<forall>c. c \<noteq> mycpu s \<longrightarrow> cpus (uvm_switched m m ?b) c = cpus s c"
    by (simp add: uvm_switched_def pushed_def popped_def set_proc_def lock_taken_def sti_def)
  ultimately show ?thesis
    using uvm_switched_cpu[OF wf, of m m] pgb cp pt by (auto simp del: upd_proc_fields(1))
qed

section \<open>The choice of the stride scheduler\<close>

definition eligible :: "proc \<Rightarrow> bool" where
  "eligible p \<longleftrightarrow> state p > EMBRYO \<and> state p < ZOMBIE \<and> slt 0 (tickets p)"

lemma stride_better_iff:
  "stride_better ps i m \<longleftrightarrow> eligible (ps ! i) \<and> slt (pass (ps ! i)) (pass (ps ! m))"
  by (auto simp: stride_better_def eligible_def)

lemma stride_loop_inv:
  assumes "i + n = length ps" and "m < length ps" and "m = 0 \<or> m < i"
    and "m = 0 \<or> eligible (ps ! m) \<and> slt (pass (ps ! m)) (pass (ps ! 0))"
    and "\<forall>j < i. eligible (ps ! j) \<longrightarrow> sle (pass (ps ! m)) (pass (ps ! j)) \<and>
           (j < m \<longrightarrow> slt (pass (ps ! m)) (pass (ps ! j)))"
    and "r = stride_loop ps i n m"
  shows "r < length ps \<and>
    (r = 0 \<or> eligible (ps ! r) \<and> slt (pass (ps ! r)) (pass (ps ! 0))) \<and>
    (\<forall>j < length ps. eligible (ps ! j) \<longrightarrow> sle (pass (ps ! r)) (pass (ps ! j)) \<and>
           (j < r \<longrightarrow> slt (pass (ps ! r)) (pass (ps ! j))))"
  using assms
proof (induction n arbitrary: i m)
  case (Suc n)
  let ?m = "if stride_better ps i m then i else m"
  have "\<forall>j < Suc i. eligible (ps ! j) \<longrightarrow> sle (pass (ps ! ?m)) (pass (ps ! j)) \<and>
           (j < ?m \<longrightarrow> slt (pass (ps ! ?m)) (pass (ps ! j)))"
    using Suc.prems(3,5) by (auto simp: stride_better_iff slt_def sle_def less_Suc_eq)
  moreover have "?m = 0 \<or> eligible (ps ! ?m) \<and> slt (pass (ps ! ?m)) (pass (ps ! 0))"
    using Suc.prems(4) by (auto simp: stride_better_iff slt_def)
  moreover have "?m = 0 \<or> ?m < Suc i" "?m < length ps" "Suc i + n = length ps"
    using Suc.prems(1,2,3) by auto
  moreover have "r = stride_loop ps (Suc i) n ?m"
    using Suc.prems(6) by simp
  ultimately show ?case by (intro Suc.IH[of "Suc i" ?m])
qed auto

lemma stride_pick_props:
  assumes "ps \<noteq> []"
  shows "stride_pick ps < length ps"
    and "stride_pick ps = 0 \<or> eligible (ps ! stride_pick ps) \<and>
           slt (pass (ps ! stride_pick ps)) (pass (ps ! 0))"
    and "j < length ps \<Longrightarrow> eligible (ps ! j) \<Longrightarrow> sle (pass (ps ! stride_pick ps)) (pass (ps ! j))"
    and "j < stride_pick ps \<Longrightarrow> eligible (ps ! j) \<Longrightarrow> slt (pass (ps ! stride_pick ps)) (pass (ps ! j))"
proof -
  note * = stride_loop_inv[of 0 "length ps" ps 0 "stride_pick ps"]
  show "stride_pick ps < length ps"
    and "stride_pick ps = 0 \<or> eligible (ps ! stride_pick ps) \<and>
           slt (pass (ps ! stride_pick ps)) (pass (ps ! 0))"
    using * assms by (auto simp: stride_pick_def)
  show "j < length ps \<Longrightarrow> eligible (ps ! j) \<Longrightarrow> sle (pass (ps ! stride_pick ps)) (pass (ps ! j))"
    using * assms by (simp add: stride_pick_def)
  show "j < stride_pick ps \<Longrightarrow> eligible (ps ! j) \<Longrightarrow> slt (pass (ps ! stride_pick ps)) (pass (ps ! j))"
    using * assms by (auto simp: stride_pick_def)
qed

section \<open>Giving up the CPU\<close>

text \<open>The state in which a process leaves the CPU, as its \<open>sched\<close> leaves it to the scheduler.\<close>

lemma sched_run:
  assumes "holding L_ptable s" and "ncli (this_cpu s) = 1" and "cproc (this_cpu s) = Some me"
    and "state (ptable s ! me) \<noteq> RUNNING" and "\<not> if_flag (this_cpu s)"
  shows "sched r s = Swtch (upd_proc me (\<lambda>p. p\<lparr>ctxt := K_sched r (intena (this_cpu s)) (ebp s)\<rparr>) s)"
  using assms by (simp add: sched_def with_proc_def)

lemma yield_run:
  assumes "lock_free L_ptable s" and "ncli (this_cpu s) = 0" and "cproc (this_cpu s) = Some me"
    and "me < length (ptable s)"
  shows "yield s = Swtch (upd_proc me (\<lambda>p. p\<lparr>state := RUNNABLE,
      ctxt := K_sched R_yield (if_flag (this_cpu s)) (ebp s)\<rparr>) (lock_taken L_ptable s))"
proof -
  let ?t = "upd_proc me (\<lambda>p. p\<lparr>state := RUNNABLE\<rparr>) (lock_taken L_ptable s)"
  have "sched R_yield ?t = Swtch (upd_proc me
      (\<lambda>p. p\<lparr>ctxt := K_sched R_yield (intena (this_cpu ?t)) (ebp ?t)\<rparr>) ?t)"
    by (rule sched_run) (use assms in simp_all)
  moreover have "intena (this_cpu ?t) = if_flag (this_cpu s)"
    using assms(2) by (simp add: lock_taken_def pushed_def)
  ultimately show ?thesis
    using assms by (simp add: yield_def acquire_free with_proc_def upd_proc_twice)
qed

text \<open>
  A sleeper leaves with the table lock held, its own lock released, and its channel
  recorded: nobody can run \<open>wakeup\<close> between the release and the sleep.
\<close>

lemma sleep_run:
  fixes s :: "'a pstate_scheme"
  assumes free: "lock_free L_ptable s" and lk: "lk \<noteq> L_ptable" "holding lk s"
    and cpu: "ncli (this_cpu s) = 1" "\<not> if_flag (this_cpu s)" "cproc (this_cpu s) = Some me"
    and me: "me < length (ptable s)"
  shows "\<exists>t. (sleep ch lk s :: ('r, 'a pstate_scheme) outcome) = Swtch t \<and> holding L_ptable t \<and> lock_free lk t \<and>
     ncli (this_cpu t) = 1 \<and> \<not> if_flag (this_cpu t) \<and> mycpu t = mycpu s \<and>
     ptable t = (ptable s)[me := (ptable s ! me)\<lparr>chan := Some ch, state := SLEEPING,
       ctxt := K_sched (R_sleep lk) (intena (this_cpu s)) (ebp s)\<rparr>]"
proof -
  let ?a = "lock_taken L_ptable s"
  let ?b = "lock_dropped lk ?a"
  let ?c = "upd_proc me (\<lambda>p. p\<lparr>chan := Some ch, state := SLEEPING\<rparr>) ?b"
  have rel: "release lk ?a = Ret () ?b"
    by (rule release_held) (use lk cpu in \<open>auto simp: holding_def lock_taken_def pushed_def cpu_wf_def\<close>)
  have c: "holding L_ptable ?c" "ncli (this_cpu ?c) = 1" "cproc (this_cpu ?c) = Some me"
    "\<not> if_flag (this_cpu ?c)" "intena (this_cpu ?c) = intena (this_cpu s)" "mycpu ?c = mycpu s"
    "lock_free lk ?c"
    using lk cpu by (auto simp: lock_dropped_def lock_taken_def pushed_def popped_def holding_def lock_free_def)
  have "(sched (R_sleep lk) ?c :: ('r, 'a pstate_scheme) outcome) = Swtch (upd_proc me
      (\<lambda>p. p\<lparr>ctxt := K_sched (R_sleep lk) (intena (this_cpu ?c)) (ebp ?c)\<rparr>) ?c)"
    by (rule sched_run) (use c me in simp_all)
  then have "(sleep ch lk s :: ('r, 'a pstate_scheme) outcome) = Swtch (upd_proc me
      (\<lambda>p. p\<lparr>ctxt := K_sched (R_sleep lk) (intena (this_cpu s)) (ebp s)\<rparr>) ?c)"
    using cpu(3) lk(1) free rel c(5) by (simp add: sleep_def acquire_free)
  then show ?thesis using c me by (simp add: lock_free_def)
qed

text \<open>The scheduler takes the CPU back and the process gets it again.\<close>

lemma switchkvm_fields [simp]:
  "ptable (switchkvm s) = ptable s" "locks (switchkvm s) = locks s" "mycpu (switchkvm s) = mycpu s"
  "mem (switchkvm s) = mem s" "ncli (cpus (switchkvm s) i) = ncli (cpus s i)"
  "if_flag (cpus (switchkvm s) i) = if_flag (cpus s i)" "intena (cpus (switchkvm s) i) = intena (cpus s i)"
  "holding l (switchkvm s) = holding l s" "cproc (cpus (switchkvm s) i) = cproc (cpus s i)"
  for s :: "'a pstate_scheme"
  by (simp_all add: switchkvm_def holding_def)

lemma lock_dropped_cpu:
  assumes "ncli (this_cpu s) = 1"
  shows "ncli (this_cpu (lock_dropped l s)) = 0"
    and "if_flag (this_cpu (lock_dropped l s)) = intena (this_cpu s)"
    and "lock_free l (lock_dropped l s)"
    and "lock_free k (lock_dropped l s) \<longleftrightarrow> k = l \<or> lock_free k s"
  using assms by (auto simp: lock_dropped_def popped_def lock_free_def)

lemma sched_stride_back_run:
  fixes t :: "'a pstate_scheme"
  assumes "holding L_ptable t" and "ncli (this_cpu t) = 1" and "\<not> if_flag (this_cpu t)"
  shows "\<exists>u. sched_stride_back t = Ret () u \<and> ncli (this_cpu u) = 0 \<and> cproc (this_cpu u) = None \<and>
    lock_free L_ptable u \<and> (\<forall>k. k \<noteq> L_ptable \<longrightarrow> lock_free k u = lock_free k t) \<and>
    mycpu u = mycpu t \<and> ptable u = ptable t"
proof -
  let ?u = "set_proc None (switchkvm t)"
  have n: "ncli (this_cpu ?u) = 1" using assms(2) by simp
  have "release L_ptable ?u = Ret () (lock_dropped L_ptable ?u)"
    by (rule release_held) (use assms in \<open>simp_all add: cpu_wf_def\<close>)
  moreover have "lock_free k ?u = lock_free k t" for k by (simp add: lock_free_def)
  ultimately show ?thesis using lock_dropped_cpu[OF n] by (simp add: sched_stride_back_def)
qed

lemma sched_back_yield_run:
  fixes t :: "'a pstate_scheme"
  assumes "holding L_ptable t" and "ncli (this_cpu t) = 1" and "\<not> if_flag (this_cpu t)"
  shows "\<exists>u. sched_back R_yield ie t = Ret () u \<and> ncli (this_cpu u) = 0 \<and>
    if_flag (this_cpu u) = ie \<and> lock_free L_ptable u \<and> mycpu u = mycpu t \<and>
    cproc (this_cpu u) = cproc (this_cpu t) \<and> ptable u = ptable t"
proof -
  let ?u = "upd_cpu (\<lambda>c. c\<lparr>intena := ie\<rparr>) t"
  have n: "ncli (this_cpu ?u) = 1" using assms(2) by simp
  have "release L_ptable ?u = Ret () (lock_dropped L_ptable ?u)"
    by (rule release_held) (use assms in \<open>simp_all add: cpu_wf_def holding_def\<close>)
  then show ?thesis using lock_dropped_cpu[OF n, of L_ptable]
    by (simp add: sched_back_def yield_back_def)
qed

section \<open>Allocation of a slot\<close>

lemma kalloced_pstate [simp]:
  "ptable (kalloced s) = ptable s" "nextpid (kalloced s) = nextpid s" "initproc (kalloced s) = initproc s"
  "isRoundRobin (kalloced s) = isRoundRobin s" "isDebug (kalloced s) = isDebug s"
  "tfs (kalloced s) = tfs s" "pstate.more (kalloced s) = pstate.more s"
  for s :: "'a pstate_scheme"
  by (simp_all add: kalloced_def in_kmem_def kalloc_unlink_def)

text \<open>What \<open>allocproc\<close> writes into the slot before it asks for a stack.\<close>

definition slot_filled :: "u32 \<Rightarrow> 'a pstate_scheme \<Rightarrow> proc \<Rightarrow> proc" where
  "slot_filled tk s p =
     (let p = p\<lparr>state := EMBRYO, pid := nextpid s\<rparr> in
      if isRoundRobin s then p
      else p\<lparr>tickets := tk, pass := 0, stride := word_of_int (10000 sdiv sint tk),
             limitpass := word_of_int (10000 sdiv sint tk)\<rparr>)"

lemma alloc_slot_run:
  assumes "isRoundRobin s \<or> tk \<noteq> 0" and "\<not> isDebug s" and "i < length (ptable s)"
  shows "alloc_slot tk i s = Ret () (upd_proc i (slot_filled tk s) (s\<lparr>nextpid := nextpid s + 1\<rparr>))"
  using assms
  by (auto simp: alloc_slot_def slot_filled_def stride_init_def c_div_def upd_proc_def Let_def)

lemma balanced_pstate [simp]:
  "balanced s (upd_proc i f t) = balanced s t" "balanced (upd_proc i f s) t = balanced s t"
  for s t :: "'a pstate_scheme"
  by (simp_all add: balanced_def lock_free_def)

lemma alloc_stack_fields [simp]:
  "i < length (ptable s) \<Longrightarrow> ptable (alloc_stack i stk s) = (ptable s)[i := (ptable s ! i)
     \<lparr>tf := stk + KSTACKSIZE - 76, ctxt := K_forkret (stk + KSTACKSIZE - 100)\<rparr>]"
  "nextpid (alloc_stack i stk s) = nextpid s" "balanced t (alloc_stack i stk s) = balanced t s"
  "freelist (alloc_stack i stk s) = freelist s" "kend (alloc_stack i stk s) = kend s"
  by (simp_all add: alloc_stack_def Let_def)

lemma allocproc_full:
  assumes "lock_free L_ptable s" and "cpu_wf s" and "\<forall>p \<in> set (ptable s). state p \<noteq> UNUSED"
  shows "\<exists>t. allocproc tk s = Ret None t \<and> ptable t = ptable s \<and> nextpid t = nextpid s \<and> balanced s t"
proof -
  have "find_from (\<lambda>p. state p = UNUSED) 0 (ptable s) = None"
    using assms(3) by (simp add: find_from_None)
  then show ?thesis using assms(1,2)
    by (simp add: allocproc_def acquire_free release_in_section[where s = s] balanced_section)
qed

lemma allocproc_run:
  fixes s :: "'a pstate_scheme"
  assumes "lock_free L_ptable s" and "kmem_ready s" and "\<not> isDebug s"
    and "isRoundRobin s \<or> tk \<noteq> 0"
    and "find_from (\<lambda>p. state p = UNUSED) 0 (ptable s) = Some i"
  shows "\<exists>t. nextpid t = nextpid s + 1 \<and> balanced s t \<and>
     (if freelist s = 0
      then allocproc tk s = Ret None t \<and>
           ptable t = (ptable s)[i := (slot_filled tk s (ptable s ! i))\<lparr>kstack := 0, state := UNUSED\<rparr>]
      else allocproc tk s = Ret (Some i) t \<and>
           ptable t = (ptable s)[i := (slot_filled tk s (ptable s ! i))\<lparr>kstack := freelist s,
             tf := freelist s + KSTACKSIZE - 76, ctxt := K_forkret (freelist s + KSTACKSIZE - 100)\<rparr>])"
proof -
  let ?a = "lock_taken L_ptable s"
  let ?b = "upd_proc i (slot_filled tk ?a) (?a\<lparr>nextpid := nextpid s + 1\<rparr>)"
  let ?c = "lock_dropped L_ptable ?b"
  let ?d = "upd_proc i (\<lambda>p. p\<lparr>kstack := freelist s\<rparr>) (kalloced ?c)"
  have i: "i < length (ptable s)" using assms(5) by (simp add: find_from_Some)
  have wf: "cpu_wf s" using assms(2) by (simp add: kmem_ready_def)
  have sec: "in_section L_ptable s ?b" by simp
  have bal: "balanced s ?c" by (rule balanced_section[OF sec wf assms(1)])
  have ready: "kmem_ready ?c"
    using assms(2) balanced_cpu_wf[OF bal] balanced_lock_free[OF bal] by (simp add: kmem_ready_def)
  have filled: "slot_filled tk ?a = slot_filled tk s"
    by (simp add: slot_filled_def fun_eq_iff)
  have run: "allocproc tk s =
      (if freelist s = 0 then Ret None (upd_proc i (\<lambda>p. p\<lparr>state := UNUSED\<rparr>) ?d)
       else Ret (Some i) (alloc_stack i (freelist s) ?d))"
    using assms i kalloc_run[OF ready] release_in_section[OF sec wf]
    by (simp add: allocproc_def acquire_free alloc_slot_run Let_def)
  have "balanced s (kalloced ?c)"
    using bal balanced_kalloced[OF ready] by (rule balanced_trans)
  then show ?thesis using i run filled by (cases "freelist s = 0") simp_all
qed

section \<open>Properties\<close>

text \<open>
  A machine with two CPUs and three processes: the initial process runs on CPU 1, a second
  one sleeps in a pipe, a third slot is free.
\<close>

definition demo_state :: pstate where
  "demo_state = \<lparr>mem = (\<lambda>_. 0), ebp = 0,
     cpus = (\<lambda>c. if c = 1 then zero_cpu\<lparr>cpu_id := 1, cproc := Some 0, if_flag := True\<rparr>
                  else zero_cpu\<lparr>if_flag := True\<rparr>),
     mycpu = 0, locks = (\<lambda>_. zero_lock),
     cons_locking = True, panicked = False, uart_on = False, uart_out = [], crt = (\<lambda>_. 0), crt_pos = 0,
     kend = 0x80110000, use_lock = True, freelist = 0x80200000,
     kpgdir = 0x80400000, kdata = 0x8010a000,
     ptable =
       [zero_proc\<lparr>pgdir := 0x80300000, kstack := 0x80301000, state := RUNNING, pid := 1,
          tickets := 300, stride := 33, pass := 33, limitpass := 99\<rparr>,
        zero_proc\<lparr>pgdir := 0x80302000, kstack := 0x80303000, state := SLEEPING, pid := 2,
          chan := Some (Ch_nread 0x80305000), ctxt := K_sched (R_sleep (L_pipe 0x80305000)) True 0,
          tickets := 500, stride := 20, pass := 40, limitpass := 120\<rparr>,
        zero_proc],
     initproc = Some 0, nextpid = 3, isRoundRobin = False, isDebug = False,
     tfs = (\<lambda>_. \<lparr>tf_edi = 0, tf_esi = 0, tf_ebp = 0, tf_oesp = 0, tf_ebx = 0, tf_edx = 0, tf_ecx = 0,
        tf_eax = 0, tf_gs = 0, tf_fs = 0, tf_es = 0, tf_ds = 0, tf_trapno = 0, tf_err = 0, tf_eip = 0,
        tf_cs = 0, tf_eflags = 0, tf_esp = 0, tf_ss = 0\<rparr>),
     forkret_addr = 0x80103a00, trapret_addr = 0x80106000\<rparr>"

lemma demo_state_simps:
  "lock_free l demo_state" "cpu_wf demo_state" "ncli (cpus demo_state c) = 0" "mycpu demo_state = 0"
  "length (ptable demo_state) = 3" "stride_pick (ptable demo_state) = 0"
  "pgdir (ptable demo_state ! 0) = 0x80300000" "cproc (cpus demo_state 1) = Some 0"
  "kmem_ready demo_state" "\<not> isDebug demo_state" "\<not> isRoundRobin demo_state"
  "find_from (\<lambda>p. state p = UNUSED) 0 (ptable demo_state) = Some 2"
  by (simp_all add: demo_state_def lock_free_def cpu_wf_def zero_cpu_def zero_lock_def zero_proc_def
      kmem_ready_def stride_pick_def stride_better_def slt_def eval_nat_numeral)

text \<open>
  C6: the search loop of the stride scheduler.  The slot it returns is slot 0 or holds an
  eligible process; its pass is at most that of every eligible process, and less than that
  of every eligible process in an earlier slot.
\<close>

theorem stride_pick_least:
  assumes "ps \<noteq> []"
  shows "stride_pick ps < length ps \<and> (stride_pick ps = 0 \<or> eligible (ps ! stride_pick ps)) \<and>
    (\<forall>j < length ps. eligible (ps ! j) \<longrightarrow>
       sle (pass (ps ! stride_pick ps)) (pass (ps ! j)) \<and>
       (j < stride_pick ps \<longrightarrow> slt (pass (ps ! stride_pick ps)) (pass (ps ! j))))"
  using stride_pick_props[OF assms] by blast

theorem stride_pick_least_witness:
  "sle (pass (ptable demo_state ! 0)) (pass (ptable demo_state ! 1))"
proof -
  have "eligible (ptable demo_state ! 1)" "ptable demo_state \<noteq> []"
    by (simp_all add: demo_state_def eligible_def less_procstate_def slt_def zero_proc_def)
  then show ?thesis using stride_pick_least[of "ptable demo_state"] demo_state_simps by simp
qed

text \<open>
  C7: a round of the stride scheduler up to its context switch.  If the table lock is free
  and the chosen process has a page table, the round returns with the table lock held by
  this CPU at nesting depth one and interrupts off, the chosen process accounted, marked
  running and current on this CPU with its page table loaded, and no other process, CPU or
  byte of memory changed.
\<close>

theorem stride_round_dispatches:
  assumes "lock_free L_ptable s" and "ncli (this_cpu s) = 0" and "ptable s \<noteq> []"
    and "m = stride_pick (ptable s)" and "pgdir (ptable s ! m) \<noteq> 0"
  shows "\<exists>t. sched_stride s = Ret m t \<and> holding L_ptable t \<and> ncli (this_cpu t) = 1 \<and>
     \<not> if_flag (this_cpu t) \<and> cproc (this_cpu t) = Some m \<and>
     cr3 (this_cpu t) = v2p (pgdir (ptable s ! m)) \<and> mem t = mem s \<and>
     (\<forall>c. c \<noteq> mycpu s \<longrightarrow> cpus t c = cpus s c) \<and>
     ptable t = (ptable s)[m := stride_dispatched (ptable s ! m)]"
  using sched_stride_run[OF assms(1,2)] stride_pick_props(1)[OF assms(3)] assms(4,5) by blast

theorem stride_round_dispatches_witness:
  "\<exists>t. sched_stride demo_state = Ret 0 t \<and> holding L_ptable t \<and> cproc (this_cpu t) = Some 0"
  using stride_round_dispatches[of demo_state 0] demo_state_simps
  by (auto simp: length_greater_0_conv[symmetric] simp del: length_greater_0_conv)



text \<open>
  C9: \<open>yield\<close> gives the CPU away and gets it back.  A process that yields outside all
  critical sections leaves runnable and with the table lock held; the scheduler's second half
  releases the lock and forgets the process; when a later round picks the process, it leaves
  \<open>yield\<close> as current process with no lock held and interrupts as they were.
\<close>

theorem yield_round_trip:
  fixes s :: "'a pstate_scheme"
  assumes "lock_free L_ptable s" and "ncli (this_cpu s) = 0" and "cproc (this_cpu s) = Some me"
    and "me < length (ptable s)" and "pgdir (ptable s ! me) \<noteq> 0"
    and "me = stride_pick ((ptable s)[me := (ptable s ! me)\<lparr>state := RUNNABLE,
      ctxt := K_sched R_yield (if_flag (this_cpu s)) (ebp s)\<rparr>])"
  shows "\<exists>t u v w. (yield s :: (unit, 'a pstate_scheme) outcome) = Swtch t \<and>
    state (ptable t ! me) = RUNNABLE \<and>
    sched_stride_back t = Ret () u \<and> cproc (this_cpu u) = None \<and> lock_free L_ptable u \<and>
    sched_stride u = Ret me v \<and> ctxt (ptable v ! me) = K_sched R_yield (if_flag (this_cpu s)) (ebp s) \<and>
    sched_back R_yield (if_flag (this_cpu s)) v = Ret () w \<and>
    cproc (this_cpu w) = Some me \<and> lock_free L_ptable w \<and> ncli (this_cpu w) = 0 \<and>
    if_flag (this_cpu w) = if_flag (this_cpu s)"
proof -
  let ?p = "(ptable s ! me)\<lparr>state := RUNNABLE, ctxt := K_sched R_yield (if_flag (this_cpu s)) (ebp s)\<rparr>"
  let ?t = "upd_proc me (\<lambda>p. p\<lparr>state := RUNNABLE,
      ctxt := K_sched R_yield (if_flag (this_cpu s)) (ebp s)\<rparr>) (lock_taken L_ptable s)"
  have t: "holding L_ptable ?t" "ncli (this_cpu ?t) = 1" "\<not> if_flag (this_cpu ?t)"
    "ptable ?t = (ptable s)[me := ?p]"
    using assms(2) by simp_all
  obtain u where u: "sched_stride_back ?t = Ret () u" "ncli (this_cpu u) = 0" "cproc (this_cpu u) = None"
    "lock_free L_ptable u" "ptable u = (ptable s)[me := ?p]"
    using sched_stride_back_run[OF t(1-3)] t(4) by auto
  have "stride_pick (ptable u) = me" "me < length (ptable u)" "pgdir (ptable u ! me) \<noteq> 0"
    using assms(4-6) u(5) by simp_all
  then obtain v where v: "sched_stride u = Ret me v" "holding L_ptable v" "ncli (this_cpu v) = 1"
    "\<not> if_flag (this_cpu v)" "cproc (this_cpu v) = Some me"
    "ptable v = (ptable u)[me := stride_dispatched (ptable u ! me)]"
    using sched_stride_run[OF u(4,2)] by blast
  have "ctxt (ptable v ! me) = K_sched R_yield (if_flag (this_cpu s)) (ebp s)"
    using v(6) u(5) assms(4) by simp
  moreover obtain w where "sched_back R_yield (if_flag (this_cpu s)) v = Ret () w"
    "cproc (this_cpu w) = Some me" "lock_free L_ptable w" "ncli (this_cpu w) = 0"
    "if_flag (this_cpu w) = if_flag (this_cpu s)"
    using sched_back_yield_run[OF v(2-4)] v(5) by metis
  moreover have "state (ptable ?t ! me) = RUNNABLE" using t(4) assms(4) by simp
  ultimately show ?thesis using yield_run[OF assms(1-4)] u v(1) by blast
qed

definition demo_user :: pstate where
  "demo_user = set_proc (Some 0) demo_state"

theorem yield_round_trip_witness:
  "\<exists>t. (yield demo_user :: (unit, pstate) outcome) = Swtch t \<and> state (ptable t ! 0) = RUNNABLE"
proof -
  have "lock_free L_ptable demo_user" "ncli (this_cpu demo_user) = 0" "cproc (this_cpu demo_user) = Some 0"
    "0 < length (ptable demo_user)" "pgdir (ptable demo_user ! 0) \<noteq> 0"
    using demo_state_simps by (simp_all add: demo_user_def lock_free_def)
  moreover have "0 = stride_pick ((ptable demo_user)[0 := (ptable demo_user ! 0)\<lparr>state := RUNNABLE,
      ctxt := K_sched R_yield (if_flag (this_cpu demo_user)) (ebp demo_user)\<rparr>])"
    by (simp add: demo_user_def demo_state_def zero_proc_def stride_pick_def stride_better_def
        slt_def eval_nat_numeral)
  ultimately show ?thesis using yield_round_trip[of demo_user 0] by blast
qed


definition demo_pipe_user :: pstate where
  "demo_pipe_user = lock_taken (L_pipe 0x80305000) demo_user"


text \<open>
  C11: \<open>wakeup\<close> makes exactly the processes that sleep on the channel runnable, changes no
  other process, and leaves locks, nesting and interrupts as they were.
\<close>

theorem wakeup_exact:
  assumes "lock_free L_ptable s" and "cpu_wf s"
  shows "\<exists>t. wakeup ch s = Ret () t \<and> balanced s t \<and> length (ptable t) = length (ptable s) \<and>
    (\<forall>i < length (ptable s). ptable t ! i =
       (if state (ptable s ! i) = SLEEPING \<and> chan (ptable s ! i) = Some ch
        then (ptable s ! i)\<lparr>state := RUNNABLE\<rparr> else ptable s ! i))"
  using wakeup_run[OF assms, of ch] by (auto simp: wakeup1_def wake_one_def)

theorem wakeup_exact_witness:
  "\<exists>t. wakeup (Ch_nread 0x80305000) demo_state = Ret () t \<and> state (ptable t ! 1) = RUNNABLE"
proof -
  have "state (ptable demo_state ! 1) = SLEEPING" "chan (ptable demo_state ! 1) = Some (Ch_nread 0x80305000)"
    "1 < length (ptable demo_state)"
    by (simp_all add: demo_state_def)
  then show ?thesis using wakeup_exact[of demo_state "Ch_nread 0x80305000"] demo_state_simps by auto
qed

text \<open>
  C12: \<open>kill\<close>.  If no slot has the pid it returns -1 and changes no process; otherwise it
  returns 0, and the first slot with that pid is marked killed and, if it slept, made
  runnable, and nothing else changes.  In both cases the table lock is free again.
\<close>

theorem kill_spec:
  assumes "lock_free L_ptable s" and "cpu_wf s"
  shows "((\<forall>p \<in> set (ptable s). pid p \<noteq> n) \<longrightarrow>
      (\<exists>t. kill n s = Ret (- 1) t \<and> ptable t = ptable s \<and> balanced s t)) \<and>
    (i < length (ptable s) \<and> pid (ptable s ! i) = n \<and> (\<forall>j < i. pid (ptable s ! j) \<noteq> n) \<longrightarrow>
      (\<exists>t. kill n s = Ret 0 t \<and> balanced s t \<and>
          ptable t = (ptable s)[i := (ptable s ! i)\<lparr>killed := True,
            state := (if state (ptable s ! i) = SLEEPING then RUNNABLE else state (ptable s ! i))\<rparr>]))"
proof (intro conjI impI)
  assume "\<forall>p \<in> set (ptable s). pid p \<noteq> n"
  then have "find_from (\<lambda>p. pid p = n) 0 (ptable s) = None" by (simp add: find_from_None)
  then show "\<exists>t. kill n s = Ret (- 1) t \<and> ptable t = ptable s \<and> balanced s t"
    by (rule kill_run(1)[OF assms])
next
  assume "i < length (ptable s) \<and> pid (ptable s ! i) = n \<and> (\<forall>j < i. pid (ptable s ! j) \<noteq> n)"
  then have "find_from (\<lambda>p. pid p = n) 0 (ptable s) = Some i" by (simp add: find_from_Some)
  then show "\<exists>t. kill n s = Ret 0 t \<and> balanced s t \<and>
          ptable t = (ptable s)[i := (ptable s ! i)\<lparr>killed := True,
            state := (if state (ptable s ! i) = SLEEPING then RUNNABLE else state (ptable s ! i))\<rparr>]"
    by (rule kill_run(2)[OF assms])
qed

theorem kill_spec_witness:
  "(\<exists>t. kill 77 demo_state = Ret (- 1) t) \<and>
   (\<exists>t. kill 2 demo_state = Ret 0 t \<and> killed (ptable t ! 1) \<and> state (ptable t ! 1) = RUNNABLE)"
proof
  show "\<exists>t. kill 77 demo_state = Ret (- 1) t"
    using kill_spec[of demo_state 77 0] demo_state_simps by (auto simp: demo_state_def zero_proc_def)
  have "1 < length (ptable demo_state)" "pid (ptable demo_state ! 1) = 2"
    "\<forall>j < 1. pid (ptable demo_state ! j) \<noteq> 2" "state (ptable demo_state ! 1) = SLEEPING"
    by (simp_all add: demo_state_def)
  then show "\<exists>t. kill 2 demo_state = Ret 0 t \<and> killed (ptable t ! 1) \<and> state (ptable t ! 1) = RUNNABLE"
    using kill_spec[of demo_state 2 1] demo_state_simps by auto
qed





end
