(* ===== verification/Stride.thy ===== *)
theory Stride
  imports Proc
begin

text \<open>
  Fairness of the stride scheduler.

  A quantum is what happens to the process table when the scheduler dispatches a process
  and the clock tick preempts it: the accounting of \<open>scheduler\<close> in \<open>proc.c\<close> followed
  by that of \<open>trap\<close> in \<open>trap.c\<close>.  The argument needs only that the choice returns an
  eligible process of least pass; this is the interface \<open>least_pass_picker\<close>, which
  \<open>stride_pick\<close> implements as long as slot 0 holds an eligible process.

  While no counter overflows, a process that was given \<open>k\<close> quanta has pass
  \<open>k * stride\<close>, and any two passes differ by at most one stride.
\<close>

section \<open>Quanta\<close>

definition preempted :: "proc \<Rightarrow> proc" where
  "preempted p = (tick_account p)\<lparr>state := RUNNABLE\<rparr>"

definition quantum :: "(proc list \<Rightarrow> nat) \<Rightarrow> proc list \<Rightarrow> proc list" where
  "quantum pick ps = ps[pick ps := preempted (stride_dispatched (ps ! pick ps))]"

primrec quanta :: "(proc list \<Rightarrow> nat) \<Rightarrow> nat \<Rightarrow> proc list \<Rightarrow> proc list" where
  "quanta pick 0 ps = ps"
| "quanta pick (Suc n) ps = quantum pick (quanta pick n ps)"

primrec runs :: "(proc list \<Rightarrow> nat) \<Rightarrow> nat \<Rightarrow> proc list \<Rightarrow> nat \<Rightarrow> nat" where
  "runs pick 0 ps i = 0"
| "runs pick (Suc n) ps i = runs pick n ps i + (if pick (quanta pick n ps) = i then 1 else 0)"

text \<open>A process as \<open>allocproc\<close> and \<open>forks\<close> set it up.\<close>

definition fresh :: "proc \<Rightarrow> bool" where
  "fresh p \<longleftrightarrow> pass p = 0 \<and> limitpass p = stride p \<and> slt 0 (stride p)"

text \<open>The counters of a process that was given \<open>k\<close> quanta.\<close>

definition charged :: "nat \<Rightarrow> proc \<Rightarrow> bool" where
  "charged k p \<longleftrightarrow> 0 < sint (stride p) \<and> sint (pass p) = int k * sint (stride p) \<and>
     2 * sint (limitpass p) = sint (stride p) * (int k + 1) * (int k + 2)"

definition lag_inv :: "proc list \<Rightarrow> (nat \<Rightarrow> nat) \<Rightarrow> bool" where
  "lag_inv ps k \<longleftrightarrow>
     (\<forall>i < length ps. eligible (ps ! i) \<longrightarrow> charged (k i) (ps ! i)) \<and>
     (\<forall>i < length ps. \<forall>j < length ps. eligible (ps ! i) \<longrightarrow> eligible (ps ! j) \<longrightarrow>
        sint (pass (ps ! i)) \<le> sint (pass (ps ! j)) + sint (stride (ps ! i)))"

definition no_overflow :: "nat \<Rightarrow> proc list \<Rightarrow> bool" where
  "no_overflow n ps \<longleftrightarrow> (\<forall>i < length ps. eligible (ps ! i) \<longrightarrow>
     sint (stride (ps ! i)) * ((int n + 1) * (int n + 2)) < 2 ^ 32)"

section \<open>One quantum of one process\<close>

lemma charged_fresh: "fresh p \<Longrightarrow> charged 0 p"
  by (simp add: fresh_def charged_def slt_def)

lemma charged_le_limit: "charged k p \<Longrightarrow> sint (pass p) < sint (limitpass p)"
proof -
  assume c: "charged k p"
  let ?s = "sint (stride p)"
  have "2 * (int k * ?s) < ?s * ((int k + 1) * (int k + 2))"
  proof -
    have "2 * int k < (int k + 1) * (int k + 2)"
      by (simp add: algebra_simps add_nonneg_pos add_pos_nonneg)
    then have "?s * (2 * int k) < ?s * ((int k + 1) * (int k + 2))"
      using c by (intro mult_strict_left_mono) (auto simp: charged_def)
    then show ?thesis by (simp add: algebra_simps)
  qed
  then show ?thesis using c by (simp add: charged_def algebra_simps)
qed

lemma stride_step_bounds:
  assumes "0 < st" and "st * ((int k + 2) * (int k + 3)) < 2 ^ 32"
  shows "int k * st + st < 2 ^ 31" and "0 \<le> int k * st"
proof -
  have "2 * (int k + 1) \<le> (int k + 2) * (int k + 3)" by (simp add: algebra_simps)
  then have "st * (2 * (int k + 1)) \<le> st * ((int k + 2) * (int k + 3))"
    using assms(1) by (intro mult_left_mono) auto
  with assms(2) show "int k * st + st < 2 ^ 31" by (simp add: algebra_simps)
  show "0 \<le> int k * st" using assms(1) by simp
qed

lemma dispatch_charged:
  assumes c: "charged k p"
    and b: "sint (stride p) * ((int k + 2) * (int k + 3)) < 2 ^ 32"
  shows "sint (pass (stride_dispatched p)) = (int k + 1) * sint (stride p)"
    and "limitpass (stride_dispatched p) = limitpass p"
proof -
  have st: "0 < sint (stride p)" "sint (pass p) = int k * sint (stride p)"
    using c by (auto simp: charged_def)
  note bs = stride_step_bounds[OF st(1) b]
  have p1: "sint (pass p + stride p) = int k * sint (stride p) + sint (stride p)"
  proof (subst sint_add_nonneg)
    show "0 \<le> sint (pass p) + sint (stride p)" using st bs by linarith
    show "sint (pass p) + sint (stride p) < 2 ^ 31" using st(2) bs(1) by (simp only:)
    show "sint (pass p) + sint (stride p) = int k * sint (stride p) + sint (stride p)"
      by (simp only: st(2))
  qed
  have nn: "0 \<le> sint (pass p + stride p)" using p1 bs(2) st(1) by linarith
  have "\<not> sle (limitpass p) (pass p)" using charged_le_limit[OF c] by (simp add: sle_def)
  then have "stride_dispatched p = p\<lparr>pass := pass p + stride p, state := RUNNING\<rparr>"
    using nn by (simp add: stride_dispatched_def stride_account_def stride_reset_def slt_def)
  then show "sint (pass (stride_dispatched p)) = (int k + 1) * sint (stride p)"
    and "limitpass (stride_dispatched p) = limitpass p"
    using p1 by (simp_all add: distrib_right)
qed

lemma quantum_charged:
  assumes c: "charged k p"
    and b: "sint (stride p) * ((int k + 2) * (int k + 3)) < 2 ^ 32"
  shows "charged (Suc k) (preempted (stride_dispatched p))"
proof -
  let ?d = "stride_dispatched p" and ?s = "sint (stride p)"
  have s: "0 < ?s" using c by (simp add: charged_def)
  note d = dispatch_charged[OF c b]
  have lim: "2 * sint (limitpass p) = ?s * (int k + 1) * (int k + 2)"
    using c by (simp add: charged_def)
  have tot: "2 * (sint (limitpass p) + (?s * (int k + 2))) = ?s * ((int k + 2) * (int k + 3))"
    using lim by (simp add: algebra_simps)
  have pos: "0 \<le> ?s * (int k + 2)" "0 \<le> sint (limitpass p)"
  proof -
    show "0 \<le> ?s * (int k + 2)" using s by simp
    have "0 \<le> ?s * (int k + 1) * (int k + 2)" using s by simp
    then show "0 \<le> sint (limitpass p)" using lim by linarith
  qed
  have small: "sint (limitpass p) + ?s * (int k + 2) < 2 ^ 31" using tot b by simp
  have "sint (pass ?d + stride p) = ?s * (int k + 2)"
    using d(1) pos small by (subst sint_add_nonneg) (auto simp: algebra_simps)
  then have "sint (limitpass p + (pass ?d + stride p)) = sint (limitpass p) + ?s * (int k + 2)"
    using pos small by (subst sint_add_nonneg) auto
  then show ?thesis
    using d s tot by (simp add: charged_def preempted_def tick_account_def algebra_simps)
qed

lemma eligible_quantum [simp]: "eligible p \<Longrightarrow> eligible (preempted (stride_dispatched p))"
  by (auto simp: eligible_def preempted_def tick_account_def less_procstate_def)

lemma stride_quantum [simp]: "stride (preempted p) = stride p" "pass (preempted p) = pass p"
  by (simp_all add: preempted_def tick_account_def)

section \<open>The interface: choice of an eligible process of least pass\<close>

locale least_pass_picker =
  fixes pick :: "proc list \<Rightarrow> nat"
    and ok :: "proc list \<Rightarrow> bool"
  assumes pick_eligible: "ok ps \<Longrightarrow> pick ps < length ps \<and> eligible (ps ! pick ps)"
    and pick_least: "ok ps \<Longrightarrow> j < length ps \<Longrightarrow> eligible (ps ! j) \<Longrightarrow>
      sint (pass (ps ! pick ps)) \<le> sint (pass (ps ! j))"
    and ok_keeps: "ok ps \<Longrightarrow> i < length ps \<Longrightarrow> eligible p \<Longrightarrow> ok (ps[i := p])"
begin

lemma ok_quantum: "ok ps \<Longrightarrow> ok (quantum pick ps)"
  using pick_eligible[of ps] by (simp add: quantum_def ok_keeps)

lemma ok_quanta: "ok ps \<Longrightarrow> ok (quanta pick n ps)"
  by (induction n) (simp_all add: ok_quantum)

lemma length_quanta [simp]: "length (quanta pick n ps) = length ps"
  by (induction n) (simp_all add: quantum_def)

lemma quantum_keeps:
  assumes "ok ps" and "i < length ps"
  shows "eligible (quantum pick ps ! i) = eligible (ps ! i)"
    and "stride (quantum pick ps ! i) = stride (ps ! i)"
  using assms pick_eligible[OF assms(1)]
  by (auto simp: quantum_def nth_list_update)

lemma quanta_keeps:
  assumes "ok ps" and "i < length ps"
  shows "eligible (quanta pick n ps ! i) = eligible (ps ! i)"
    and "stride (quanta pick n ps ! i) = stride (ps ! i)"
proof -
  have "eligible (quanta pick n ps ! i) = eligible (ps ! i) \<and> stride (quanta pick n ps ! i) = stride (ps ! i)"
  proof (induction n)
    case (Suc n)
    have "ok (quanta pick n ps)" and "i < length (quanta pick n ps)"
      using assms by (simp_all add: ok_quanta)
    from quantum_keeps[OF this] Suc show ?case by simp
  qed simp
  then show "eligible (quanta pick n ps ! i) = eligible (ps ! i)"
    and "stride (quanta pick n ps ! i) = stride (ps ! i)" by simp_all
qed

lemma lag_inv_quantum:
  assumes ok: "ok ps" and inv: "lag_inv ps k"
    and b: "sint (stride (ps ! pick ps)) * ((int (k (pick ps)) + 2) * (int (k (pick ps)) + 3)) < 2 ^ 32"
  shows "lag_inv (quantum pick ps) (k(pick ps := Suc (k (pick ps))))"
proof -
  let ?m = "pick ps" and ?q = "quantum pick ps"
  have m: "?m < length ps" "eligible (ps ! ?m)" using pick_eligible[OF ok] by auto
  have c: "charged (k ?m) (ps ! ?m)" using inv m by (simp add: lag_inv_def)
  have qm: "?q ! ?m = preempted (stride_dispatched (ps ! ?m))" using m by (simp add: quantum_def)
  have qi: "i \<noteq> ?m \<Longrightarrow> ?q ! i = ps ! i" for i by (simp add: quantum_def)
  have pm: "sint (pass (?q ! ?m)) = sint (pass (ps ! ?m)) + sint (stride (ps ! ?m))"
    using dispatch_charged(1)[OF c b] c by (simp add: qm charged_def algebra_simps)
  have st: "0 < sint (stride (ps ! ?m))" using c by (simp add: charged_def)
  show ?thesis unfolding lag_inv_def
  proof (intro conjI allI impI)
    fix i assume "i < length ?q" and "eligible (?q ! i)"
    then show "charged ((k(?m := Suc (k ?m))) i) (?q ! i)"
      using quantum_charged[OF c b] inv qm qi by (cases "i = ?m") (auto simp: lag_inv_def quantum_def)
  next
    fix i j assume ij: "i < length ?q" "j < length ?q" "eligible (?q ! i)" "eligible (?q ! j)"
    then have el: "i < length ps" "j < length ps" "eligible (ps ! i)" "eligible (ps ! j)"
      using quantum_keeps[OF ok] by (auto simp: quantum_def)
    have old: "sint (pass (ps ! i)) \<le> sint (pass (ps ! j)) + sint (stride (ps ! i))"
      using inv el by (simp add: lag_inv_def)
    have least: "sint (pass (ps ! ?m)) \<le> sint (pass (ps ! j))"
      using pick_least[OF ok] el by simp
    have str: "stride (?q ! i) = stride (ps ! i)" using quantum_keeps[OF ok el(1)] by simp
    show "sint (pass (?q ! i)) \<le> sint (pass (?q ! j)) + sint (stride (?q ! i))"
      using old least st pm str qi[of i] qi[of j]
      by (cases "i = ?m"; cases "j = ?m") auto
  qed
qed

lemma runs_le: "runs pick n ps i \<le> n"
  by (induction n) auto

lemma lag_inv_quanta:
  assumes "ok ps" and "\<And>i. i < length ps \<Longrightarrow> eligible (ps ! i) \<Longrightarrow> fresh (ps ! i)"
    and "no_overflow n ps"
  shows "lag_inv (quanta pick n ps) (runs pick n ps)"
  using assms(3)
proof (induction n)
  case 0
  have "pass (ps ! i) = 0 \<and> 0 \<le> sint (stride (ps ! i))" if "i < length ps" "eligible (ps ! i)" for i
    using assms(2)[OF that] by (simp add: fresh_def slt_def)
  then show ?case using assms(2) by (simp add: lag_inv_def charged_fresh)
next
  case (Suc n)
  let ?q = "quanta pick n ps"
  let ?m = "pick ?q"
  have ok: "ok ?q" using assms(1) by (rule ok_quanta)
  have m: "?m < length ps" "eligible (ps ! ?m)" "stride (?q ! ?m) = stride (ps ! ?m)"
    using pick_eligible[OF ok] quanta_keeps[OF assms(1)] by auto
  have mono: "(int a + 1) * (int a + 2) \<le> (int c + 1) * (int c + 2)" if "a \<le> c" for a c
    using that by (intro mult_mono) auto
  have pos: "0 < sint (stride (ps ! i))" if "i < length ps" "eligible (ps ! i)" for i
    using assms(2)[OF that] by (simp add: fresh_def slt_def)
  have "no_overflow n ps" unfolding no_overflow_def
  proof (intro allI impI)
    fix i assume i: "i < length ps" "eligible (ps ! i)"
    have "sint (stride (ps ! i)) * ((int n + 1) * (int n + 2))
       \<le> sint (stride (ps ! i)) * ((int (Suc n) + 1) * (int (Suc n) + 2))"
      using pos[OF i] mono[of n "Suc n"] by (intro mult_left_mono) auto
    also have "\<dots> < 2 ^ 32" using Suc.prems i by (simp only: no_overflow_def)
    finally show "sint (stride (ps ! i)) * ((int n + 1) * (int n + 2)) < 2 ^ 32" .
  qed
  then have inv: "lag_inv ?q (runs pick n ps)" by (rule Suc.IH)
  have "sint (stride (?q ! ?m)) * ((int (runs pick n ps ?m) + 2) * (int (runs pick n ps ?m) + 3)) < 2 ^ 32"
  proof -
    have "sint (stride (ps ! ?m)) * ((int (Suc (runs pick n ps ?m)) + 1) * (int (Suc (runs pick n ps ?m)) + 2))
       \<le> sint (stride (ps ! ?m)) * ((int (Suc n) + 1) * (int (Suc n) + 2))"
      using pos[OF m(1,2)] mono[of "Suc (runs pick n ps ?m)" "Suc n"] runs_le
      by (intro mult_left_mono) auto
    also have "\<dots> < 2 ^ 32" using Suc.prems m(1,2) by (simp only: no_overflow_def)
    finally show ?thesis using m(3) by (simp add: add.commute)
  qed
  moreover have "runs pick (Suc n) ps = (runs pick n ps)(?m := Suc (runs pick n ps ?m))"
    by (auto simp: fun_eq_iff)
  ultimately show ?case using lag_inv_quantum[OF ok inv] by (simp only: quanta.simps)
qed

lemma lag_bound:
  assumes "ok ps" and "\<And>i. i < length ps \<Longrightarrow> eligible (ps ! i) \<Longrightarrow> fresh (ps ! i)"
    and "no_overflow n ps" and "i < length ps" and "eligible (ps ! i)"
    and "j < length ps" and "eligible (ps ! j)"
  shows "int (runs pick n ps i) * sint (stride (ps ! i))
       \<le> int (runs pick n ps j) * sint (stride (ps ! j)) + sint (stride (ps ! i))"
proof -
  let ?q = "quanta pick n ps"
  have inv: "lag_inv ?q (runs pick n ps)" using assms(1-3) by (rule lag_inv_quanta)
  have i: "charged (runs pick n ps i) (?q ! i)" and j: "charged (runs pick n ps j) (?q ! j)"
    and le: "sint (pass (?q ! i)) \<le> sint (pass (?q ! j)) + sint (stride (?q ! i))"
    using inv assms(4-7) quanta_keeps[OF assms(1)] by (simp_all add: lag_inv_def)
  from le show ?thesis using i j quanta_keeps[OF assms(1)] assms(4,6) by (simp add: charged_def)
qed

lemma runs_ineligible:
  assumes "ok ps" and "i < length ps" and "\<not> eligible (ps ! i)"
  shows "runs pick n ps i = 0"
proof (induction n)
  case (Suc n)
  have "eligible (quanta pick n ps ! pick (quanta pick n ps))"
    using pick_eligible[OF ok_quanta[OF assms(1)]] by blast
  then have "pick (quanta pick n ps) \<noteq> i" using assms quanta_keeps(1)[OF assms(1,2)] by auto
  with Suc show ?case by simp
qed simp

lemma runs_total:
  assumes "ok ps"
  shows "(\<Sum>i < length ps. runs pick n ps i) = n"
proof (induction n)
  case (Suc n)
  have "pick (quanta pick n ps) < length ps" using pick_eligible[OF ok_quanta[OF assms]] by simp
  with Suc show ?case by (simp add: sum.distrib)
qed simp

lemma runs_total_eligible:
  assumes "ok ps"
  shows "(\<Sum>i \<in> {i. i < length ps \<and> eligible (ps ! i)}. runs pick n ps i) = n"
proof -
  have "(\<Sum>i \<in> {i. i < length ps \<and> eligible (ps ! i)}. runs pick n ps i) = (\<Sum>i < length ps. runs pick n ps i)"
    by (rule sum.mono_neutral_left) (auto simp: runs_ineligible[OF assms])
  with runs_total[OF assms] show ?thesis by simp
qed

lemma all_run:
  assumes "ok ps" and "\<And>i. i < length ps \<Longrightarrow> eligible (ps ! i) \<Longrightarrow> fresh (ps ! i)"
    and "no_overflow n ps" and "card {i. i < length ps \<and> eligible (ps ! i)} \<le> n"
    and "j < length ps" and "eligible (ps ! j)"
  shows "0 < runs pick n ps j"
proof (rule ccontr)
  assume "\<not> 0 < runs pick n ps j"
  then have j0: "runs pick n ps j = 0" by simp
  let ?E = "{i. i < length ps \<and> eligible (ps ! i)}"
  have le1: "runs pick n ps i \<le> 1" if "i \<in> ?E" for i
  proof -
    have "int (runs pick n ps i) * sint (stride (ps ! i)) \<le> 1 * sint (stride (ps ! i))"
      using lag_bound[OF assms(1-3), of i j] that assms(5,6) j0 by simp
    moreover have "0 < sint (stride (ps ! i))"
      using assms(2)[of i] that by (simp add: fresh_def slt_def)
    ultimately have "int (runs pick n ps i) \<le> 1" by (simp only: mult_le_cancel_right)
    then show ?thesis by simp
  qed
  have "n = (\<Sum>i \<in> ?E. runs pick n ps i)" using runs_total_eligible[OF assms(1)] by simp
  also have "\<dots> = (\<Sum>i \<in> ?E - {j}. runs pick n ps i)"
    by (rule sum.mono_neutral_right) (auto simp: j0)
  also have "\<dots> \<le> (\<Sum>i \<in> ?E - {j}. 1)" by (rule sum_mono) (use le1 in auto)
  also have "\<dots> = card (?E - {j})" by simp
  also have "\<dots> < card ?E" by (rule psubset_card_mono) (use assms(5,6) in auto)
  finally show False using assms(4) by simp
qed

end

interpretation stride_sched: least_pass_picker stride_pick "\<lambda>ps. ps \<noteq> [] \<and> eligible (ps ! 0)"
proof unfold_locales
  fix ps :: "proc list" and j :: nat
  assume ok: "ps \<noteq> [] \<and> eligible (ps ! 0)"
  then have ne: "ps \<noteq> []" by simp
  show "stride_pick ps < length ps \<and> eligible (ps ! stride_pick ps)"
    using stride_pick_props(1,2)[OF ne] ok by auto
  show "j < length ps \<Longrightarrow> eligible (ps ! j) \<Longrightarrow> sint (pass (ps ! stride_pick ps)) \<le> sint (pass (ps ! j))"
    using stride_pick_props(3)[OF ne] by (simp add: sle_def)
next
  fix ps :: "proc list" and i :: nat and p :: proc
  show "ps \<noteq> [] \<and> eligible (ps ! 0) \<Longrightarrow> i < length ps \<Longrightarrow> eligible p \<Longrightarrow>
    ps[i := p] \<noteq> [] \<and> eligible (ps[i := p] ! 0)"
    by (auto simp: nth_list_update)
qed

section \<open>Overflow of the limit\<close>

text \<open>
  The limit grows with the square of the number of quanta, because the new limit is added
  to the old one, and is the first counter to overflow.  While it is negative the
  scheduler takes the branch that leaves the pass alone, so the process of least pass stays
  the process of least pass.
\<close>

lemma stride_loop_cong:
  assumes "\<And>i. eligible (ps ! i) = eligible (qs ! i)" and "\<And>i. pass (ps ! i) = pass (qs ! i)"
  shows "stride_loop ps i n m = stride_loop qs i n m"
  by (induction n arbitrary: i m) (simp_all add: stride_better_iff assms)

lemma stride_pick_cong:
  assumes "length ps = length qs"
    and "\<And>i. eligible (ps ! i) = eligible (qs ! i)" and "\<And>i. pass (ps ! i) = pass (qs ! i)"
  shows "stride_pick ps = stride_pick qs"
  using stride_loop_cong[of ps qs] assms by (simp add: stride_pick_def)

lemma quantum_at_limit:
  assumes "sint (limitpass p) \<le> sint (pass p)" and "0 \<le> sint (pass p)"
    and "0 \<le> sint (stride p)" and "sint (pass p) + sint (stride p) < 2 ^ 31"
    and "sint (limitpass p) + 2 * (sint (pass p) + sint (stride p)) \<le> sint (pass p)"
  shows "pass (preempted (stride_dispatched p)) = pass p"
    and "sint (limitpass (preempted (stride_dispatched p))) =
      sint (limitpass p) + 2 * (sint (pass p) + sint (stride p))"
proof -
  let ?d = "sint (pass p) + sint (stride p)"
  have d: "stride_dispatched p = p\<lparr>limitpass := limitpass p + (pass p + stride p), state := RUNNING\<rparr>"
    using assms(1,2)
    by (simp add: stride_dispatched_def stride_account_def stride_reset_def sle_def slt_def)
  then show "pass (preempted (stride_dispatched p)) = pass p" by simp
  have q: "limitpass (preempted (stride_dispatched p)) =
      limitpass p + (pass p + stride p) + (pass p + stride p)"
    by (simp add: d preempted_def tick_account_def)
  have ps: "sint (pass p + stride p) = ?d" using assms by (intro sint_add_nonneg) auto
  have lo: "- (2 ^ 31) \<le> sint (limitpass p)" and hi: "sint (pass p) < 2 ^ 31"
    by (rule sint_range_32)+
  have one: "sint (limitpass p + (pass p + stride p)) = sint (limitpass p) + ?d"
  proof (subst sint_add_no_overflow)
    show "- (2 ^ 31) \<le> sint (limitpass p) + sint (pass p + stride p)"
      using lo assms(2,3) ps by linarith
    have "L + (P + S) \<le> P" if "0 \<le> P" "0 \<le> S" "L + 2 * (P + S) \<le> P" for L P S :: int
      using that by presburger
    with assms(2,3,5) have "sint (limitpass p) + ?d \<le> sint (pass p)" by blast
    then show "sint (limitpass p) + sint (pass p + stride p) < 2 ^ 31" using hi by (simp add: ps)
  qed (simp only: ps)
  show "sint (limitpass (preempted (stride_dispatched p))) = sint (limitpass p) + 2 * ?d"
    unfolding q
  proof (subst sint_add_no_overflow)
    show "- (2 ^ 31) \<le> sint (limitpass p + (pass p + stride p)) + sint (pass p + stride p)"
      using lo assms(2,3) ps one by linarith
    show "sint (limitpass p + (pass p + stride p)) + sint (pass p + stride p) < 2 ^ 31"
      using hi assms(5) by (simp add: ps one)
  qed (simp only: ps one, simp)
qed

lemma monopoly_quanta:
  assumes "m = stride_pick ps" and "m < length ps" and "eligible (ps ! m)"
    and "0 \<le> sint (pass (ps ! m))" and "0 \<le> sint (stride (ps ! m))"
    and "sint (pass (ps ! m)) + sint (stride (ps ! m)) < 2 ^ 31"
    and "sint (limitpass (ps ! m)) + 2 * int n * (sint (pass (ps ! m)) + sint (stride (ps ! m)))
         \<le> sint (pass (ps ! m))"
  shows "stride_pick (quanta stride_pick n ps) = m \<and> runs stride_pick n ps m = n \<and>
    (\<forall>i. pass (quanta stride_pick n ps ! i) = pass (ps ! i))"
proof -
  let ?q = "\<lambda>k. quanta stride_pick k ps" and ?p = "ps ! m"
  let ?d = "sint (pass ?p) + sint (stride ?p)"
  have "stride_pick (?q k) = m \<and> runs stride_pick k ps m = k \<and> length (?q k) = length ps \<and>
      (\<forall>i. eligible (?q k ! i) = eligible (ps ! i) \<and> pass (?q k ! i) = pass (ps ! i) \<and>
           stride (?q k ! i) = stride (ps ! i)) \<and>
      sint (limitpass (?q k ! m)) = sint (limitpass ?p) + 2 * int k * ?d" if "k \<le> n" for k
    using that
  proof (induction k)
    case 0
    then show ?case using assms(1) by simp
  next
    case (Suc k)
    let ?r = "?q k ! m"
    have IH: "stride_pick (?q k) = m" "runs stride_pick k ps m = k" "length (?q k) = length ps"
      "eligible (?q k ! i) = eligible (ps ! i)" "pass (?q k ! i) = pass (ps ! i)"
      "stride (?q k ! i) = stride (ps ! i)"
      "sint (limitpass ?r) = sint (limitpass ?p) + 2 * int k * ?d" for i
      using Suc by auto
    have q: "?q (Suc k) = (?q k)[m := preempted (stride_dispatched ?r)]"
      by (simp add: quantum_def IH(1))
    have d0: "0 \<le> ?d" using assms(4,5) by simp
    have "2 * int (Suc k) * ?d \<le> 2 * int n * ?d"
      using Suc.prems d0 by (intro mult_right_mono) auto
    then have top: "sint (limitpass ?r) + 2 * ?d \<le> sint (pass ?p)"
      using assms(7) IH(7) by (simp add: algebra_simps)
    have lim: "pass (preempted (stride_dispatched ?r)) = pass ?r"
      "sint (limitpass (preempted (stride_dispatched ?r))) = sint (limitpass ?r) + 2 * ?d"
      using quantum_at_limit[of ?r] IH(5,6)[of m] top d0 assms(4-6) by simp_all
    have same: "eligible (?q (Suc k) ! i) = eligible (ps ! i) \<and> pass (?q (Suc k) ! i) = pass (ps ! i) \<and>
        stride (?q (Suc k) ! i) = stride (ps ! i)" for i
      using IH(3-6) assms(2,3) lim(1) unfolding q by (cases "i = m") auto
    have "stride_pick (?q (Suc k)) = stride_pick ps"
      by (rule stride_pick_cong) (use same IH(3) q in auto)
    moreover have "length (?q (Suc k)) = length ps" using IH(3) by (simp only: q length_list_update)
    moreover have "sint (limitpass (?q (Suc k) ! m)) = sint (limitpass ?p) + 2 * int (Suc k) * ?d"
      using lim(2) IH(3,7) assms(2) unfolding q by (simp add: algebra_simps)
    moreover have "runs stride_pick (Suc k) ps m = Suc k" using IH(1,2) by simp
    ultimately show ?case using same assms(1) by blast
  qed
  from this[of n] show ?thesis by simp
qed

lemma limit_wraps:
  assumes c: "charged k p"
    and small: "(int k + 2) * sint (stride p) < 2 ^ 31"
    and big: "2 ^ 32 \<le> sint (stride p) * ((int k + 2) * (int k + 3))"
  shows "sint (limitpass (preempted (stride_dispatched p))) < 0"
proof -
  let ?s = "sint (stride p)"
  have s: "0 < ?s" "sint (pass p) = int k * ?s" "2 * sint (limitpass p) = ?s * (int k + 1) * (int k + 2)"
    using c by (auto simp: charged_def)
  have k0: "0 \<le> int k * ?s" using s(1) by simp
  have small': "int k * ?s + 2 * ?s < 2 ^ 31" using small by (simp only: distrib_right)
  have p1: "sint (pass p + stride p) = int k * ?s + ?s"
    by (rule sint_add_eq) (use s small' k0 in linarith)+
  have p2: "sint (pass p + stride p + stride p) = (int k * ?s + ?s) + ?s"
    by (rule sint_add_eq[OF p1 refl]) (use s small' k0 in linarith)+
  have "\<not> sle (limitpass p) (pass p)" using charged_le_limit[OF c] by (simp add: sle_def)
  moreover have "0 \<le> sint (pass p + stride p)" using p1 k0 s(1) by linarith
  ultimately have d: "stride_dispatched p = p\<lparr>pass := pass p + stride p, state := RUNNING\<rparr>"
    by (simp add: stride_dispatched_def stride_account_def stride_reset_def slt_def)
  have "2 * (sint (limitpass p) + (int k * ?s + ?s + ?s)) = ?s * ((int k + 2) * (int k + 3))"
    using s(3) by (simp add: algebra_simps)
  then have "2 ^ 31 \<le> sint (limitpass p) + sint (pass p + stride p + stride p)"
    using big p2 by simp
  then have "sint (limitpass p + (pass p + stride p + stride p)) =
      sint (limitpass p) + sint (pass p + stride p + stride p) - 2 ^ 32"
    by (rule sint_add_wraps)
  moreover have "sint (limitpass p) < 2 ^ 31" "sint (pass p + stride p + stride p) < 2 ^ 31"
    by (rule sint_range_32)+
  ultimately show ?thesis by (simp add: d preempted_def tick_account_def)
qed

section \<open>Properties\<close>

text \<open>Two processes, with 100 and with 500 tickets, as \<open>forkLowest\<close> and \<open>fork\<close> create them.\<close>

definition two_procs :: "proc list" where
  "two_procs =
     [zero_proc\<lparr>state := RUNNABLE, pid := 1, tickets := 100, stride := 100, limitpass := 100\<rparr>,
      zero_proc\<lparr>state := RUNNABLE, pid := 2, tickets := 500, stride := 20, limitpass := 20\<rparr>]"

lemma two_procs_ok:
  "two_procs \<noteq> [] \<and> eligible (two_procs ! 0) \<and> eligible (two_procs ! 1) \<and> length two_procs = 2"
  "\<forall>p \<in> set two_procs. eligible p \<longrightarrow> fresh p" "no_overflow 60 two_procs"
  "stride (two_procs ! 0) = 100" "stride (two_procs ! 1) = 20"
  by (auto simp: two_procs_def zero_proc_def eligible_def fresh_def less_procstate_def slt_def
      no_overflow_def less_Suc_eq)

text \<open>
  C2: proportional share of the stride scheduler (\<open>scheduler\<close> of \<open>proc.c\<close>, accounting of
  \<open>trap.c\<close>).  Take a table whose slot 0 is eligible and whose eligible processes are as
  \<open>allocproc\<close> sets them up, and let \<open>n\<close> quanta pass, \<open>n\<close> small enough for the limits not
  to overflow.  Then the pass of every eligible process is the number of quanta it was given
  times its stride, and of any two eligible processes neither is ahead of the other by more
  than one of its own strides: quanta are shared in inverse proportion to the strides.
\<close>

theorem stride_proportional_share:
  assumes "ps \<noteq> []" and "eligible (ps ! 0)" and "\<forall>p \<in> set ps. eligible p \<longrightarrow> fresh p"
    and "no_overflow n ps" and "i < length ps" and "eligible (ps ! i)"
    and "j < length ps" and "eligible (ps ! j)"
  shows "sint (pass (quanta stride_pick n ps ! i)) = int (runs stride_pick n ps i) * sint (stride (ps ! i)) \<and>
    int (runs stride_pick n ps i) * sint (stride (ps ! i))
      \<le> int (runs stride_pick n ps j) * sint (stride (ps ! j)) + sint (stride (ps ! i))"
proof
  have ok: "ps \<noteq> [] \<and> eligible (ps ! 0)" using assms by simp
  have fr: "\<And>i. i < length ps \<Longrightarrow> eligible (ps ! i) \<Longrightarrow> fresh (ps ! i)"
    using assms(3) by simp
  have "lag_inv (quanta stride_pick n ps) (runs stride_pick n ps)"
    using ok fr assms(4) by (rule stride_sched.lag_inv_quanta)
  then show "sint (pass (quanta stride_pick n ps ! i)) = int (runs stride_pick n ps i) * sint (stride (ps ! i))"
    using stride_sched.quanta_keeps[OF ok assms(5)] assms(5,6) by (simp add: lag_inv_def charged_def)
  show "int (runs stride_pick n ps i) * sint (stride (ps ! i))
      \<le> int (runs stride_pick n ps j) * sint (stride (ps ! j)) + sint (stride (ps ! i))"
    using ok fr assms(4-8) by (rule stride_sched.lag_bound)
qed

theorem stride_proportional_share_witness:
  "int (runs stride_pick 60 two_procs 0) * 100 \<le> int (runs stride_pick 60 two_procs 1) * 20 + 100 \<and>
   int (runs stride_pick 60 two_procs 1) * 20 \<le> int (runs stride_pick 60 two_procs 0) * 100 + 20"
  using stride_proportional_share[of two_procs 60 0 1] stride_proportional_share[of two_procs 60 1 0]
    two_procs_ok by simp

text \<open>
  C3: no starvation.  Under the same conditions, once as many quanta have passed as there are
  eligible processes, every eligible process has been given at least one.
\<close>

theorem stride_no_starvation:
  assumes "ps \<noteq> []" and "eligible (ps ! 0)" and "\<forall>p \<in> set ps. eligible p \<longrightarrow> fresh p"
    and "no_overflow n ps" and "card {i. i < length ps \<and> eligible (ps ! i)} \<le> n"
    and "j < length ps" and "eligible (ps ! j)"
  shows "0 < runs stride_pick n ps j"
  by (rule stride_sched.all_run) (use assms in simp_all)

theorem stride_no_starvation_witness: "0 < runs stride_pick 60 two_procs 0"
proof -
  have "card {i. i < length two_procs \<and> eligible (two_procs ! i)} \<le> card {..<length two_procs}"
    by (intro card_mono) auto
  then show ?thesis using stride_no_starvation[of two_procs 60 0] two_procs_ok by simp
qed

text \<open>
  C4: the limit overflows first.  Because \<open>trap\<close> adds the new limit to the old one, a
  process that was given \<open>k\<close> quanta has limit \<open>stride * (k + 1) * (k + 2) / 2\<close>; the
  quantum in which this leaves the range of \<open>int\<close> makes it negative, although the pass
  itself is far from overflowing.
\<close>

theorem limitpass_overflow:
  assumes "charged k p" and "(int k + 2) * sint (stride p) < 2 ^ 31"
    and "2 ^ 32 \<le> sint (stride p) * ((int k + 2) * (int k + 3))"
  shows "slt (limitpass (preempted (stride_dispatched p))) 0"
  using limit_wraps[OF assms] by (simp add: slt_def)

theorem limitpass_overflow_witness:
  "slt (limitpass (preempted (stride_dispatched
     (zero_proc\<lparr>stride := 20, pass := 293040, limitpass := 2147250620\<rparr>)))) 0"
  by (rule limitpass_overflow[of 14652]) (simp_all add: charged_def zero_proc_def)

text \<open>
  C5: a process whose limit has become negative monopolises the CPU.  If it is the one the
  scheduler picks, then for as many quanta as its limit needs to grow past its pass again it
  is picked every time, its pass stays where it is, and no other process runs.
\<close>

theorem wrapped_limit_monopoly:
  assumes "m = stride_pick ps" and "m < length ps" and "eligible (ps ! m)"
    and "0 \<le> sint (pass (ps ! m))" and "0 \<le> sint (stride (ps ! m))"
    and "sint (pass (ps ! m)) + sint (stride (ps ! m)) < 2 ^ 31"
    and "sint (limitpass (ps ! m)) + 2 * int n * (sint (pass (ps ! m)) + sint (stride (ps ! m)))
         \<le> sint (pass (ps ! m))"
  shows "runs stride_pick n ps m = n \<and> (\<forall>i. pass (quanta stride_pick n ps ! i) = pass (ps ! i))"
  using monopoly_quanta[OF assms] by blast

text \<open>The process of the overflow above: 500 tickets, given 14653 quanta.\<close>

definition wrapped_procs :: "proc list" where
  "wrapped_procs =
     [zero_proc\<lparr>state := RUNNABLE, tickets := 500, stride := 20, pass := 293060, limitpass := - 2147423596\<rparr>,
      zero_proc\<lparr>state := RUNNABLE, tickets := 500, stride := 20, pass := 293060, limitpass := 20\<rparr>]"

theorem wrapped_limit_monopoly_witness: "runs stride_pick 3600 wrapped_procs 0 = 3600"
proof -
  have "stride_pick wrapped_procs = 0"
    by (simp add: stride_pick_def wrapped_procs_def stride_better_def zero_proc_def slt_def numeral_2_eq_2)
  then show ?thesis
    using wrapped_limit_monopoly[of 0 wrapped_procs 3600]
    by (simp add: wrapped_procs_def zero_proc_def eligible_def less_procstate_def slt_def)
qed

end
