(* ===== verification/Hw.thy ===== *)
theory Hw
  imports Proc
begin

text \<open>
  The interrupt controllers, the clock and the discovery of processors:
  \<open>picirq.c\<close>, \<open>ioapic.c\<close>, \<open>lapic.c\<close>, \<open>timer.c\<close> and \<open>mp.c\<close>.  Writes to I/O ports
  are kept as a log; the registers of the two APICs and of the CMOS clock are components of
  the state.
\<close>

section \<open>State\<close>

text \<open>
  \<open>lapic\<close> is the address of the local APIC, 0 if there is none; \<open>bcpu\<close> the slot of the
  boot processor; \<open>cpunum_calls\<close> the static counter of \<open>cpunum\<close>; \<open>cmos\<close> the cells of
  the CMOS clock; \<open>imcr\<close> what port 0x23 reads.
\<close>

record hstate = pstate +
  portlog :: "(u16 \<times> byte) list"
  irqmask :: u16
  ismp :: bool
  ncpu :: nat
  bcpu :: nat
  ioapicid :: byte
  ioapic_regs :: "u32 \<Rightarrow> u32"
  lapic :: addr
  lapic_regs :: "nat \<Rightarrow> u32"
  cpunum_calls :: nat
  cmos :: "byte \<Rightarrow> byte"
  imcr :: byte

definition outb :: "u16 \<Rightarrow> byte \<Rightarrow> 'a hstate_scheme \<Rightarrow> 'a hstate_scheme" where
  "outb port v s = s\<lparr>portlog := portlog s @ [(port, v)]\<rparr>"

definition T_IRQ0 :: u32 where "T_IRQ0 = 32"
definition IRQ_TIMER :: nat where "IRQ_TIMER = 0"
definition IRQ_KBD :: nat where "IRQ_KBD = 1"
definition IRQ_COM1 :: nat where "IRQ_COM1 = 4"
definition IRQ_IDE :: nat where "IRQ_IDE = 14"
definition IRQ_ERROR :: nat where "IRQ_ERROR = 19"
definition IRQ_SPURIOUS :: nat where "IRQ_SPURIOUS = 31"

section \<open>The 8259A controllers\<close>

definition picsetmask :: "u16 \<Rightarrow> 'a hstate_scheme \<Rightarrow> 'a hstate_scheme" where
  "picsetmask m s =
     (let s = s\<lparr>irqmask := m\<rparr>; s = outb 0x21 (ucast m) s in outb 0xA1 (ucast (drop_bit 8 m)) s)"

definition picenable :: "nat \<Rightarrow> 'a hstate_scheme \<Rightarrow> 'a hstate_scheme" where
  "picenable irq s = picsetmask (irqmask s AND NOT (push_bit irq 1)) s"

definition picinit :: "'a hstate_scheme \<Rightarrow> 'a hstate_scheme" where
  "picinit s =
     (let s = outb 0x21 0xFF s; s = outb 0xA1 0xFF s;
          s = outb 0x20 0x11 s; s = outb 0x21 (ucast T_IRQ0) s; s = outb 0x21 4 s; s = outb 0x21 3 s;
          s = outb 0xA0 0x11 s; s = outb 0xA1 (ucast (T_IRQ0 + 8)) s; s = outb 0xA1 2 s; s = outb 0xA1 3 s;
          s = outb 0x20 0x68 s; s = outb 0x20 0x0a s; s = outb 0xA0 0x68 s; s = outb 0xA0 0x0a s
      in if irqmask s \<noteq> 0xFFFF then picsetmask (irqmask s) s else s)"

section \<open>The I/O APIC\<close>

definition REG_TABLE :: u32 where "REG_TABLE = 0x10"
definition INT_DISABLED :: u32 where "INT_DISABLED = 0x10000"

definition ioapicread :: "u32 \<Rightarrow> 'a hstate_scheme \<Rightarrow> u32" where
  "ioapicread reg s = ioapic_regs s reg"

definition ioapicwrite :: "u32 \<Rightarrow> u32 \<Rightarrow> 'a hstate_scheme \<Rightarrow> 'a hstate_scheme" where
  "ioapicwrite reg v s = s\<lparr>ioapic_regs := (ioapic_regs s)(reg := v)\<rparr>"

fun ioapic_mask_from :: "nat \<Rightarrow> u32 \<Rightarrow> 'a hstate_scheme \<Rightarrow> 'a hstate_scheme" where
  "ioapic_mask_from 0 i s = s"
| "ioapic_mask_from (Suc n) i s =
     ioapic_mask_from n (i + 1)
       (ioapicwrite (REG_TABLE + 2 * i + 1) 0
         (ioapicwrite (REG_TABLE + 2 * i) (INT_DISABLED OR (T_IRQ0 + i)) s))"

definition ioapicinit :: "'a hstate_scheme \<Rightarrow> (unit, 'a hstate_scheme) outcome" where
  "ioapicinit s =
     (if \<not> ismp s then Ret () s
      else let maxintr = drop_bit 16 (ioapicread 1 s) AND 0xFF;
               id = drop_bit 24 (ioapicread 0 s)
           in bnd (if id \<noteq> ucast (ioapicid s)
                   then cprintf (''ioapicinit: id isn'' @ [CHR 0x27] @ ''t equal to ioapicid; not a MP'' @ LF) [] s
                   else Ret () s) (\<lambda>_ s.
              Ret () (ioapic_mask_from (Suc (unat maxintr)) 0 s)))"

definition ioapicenable :: "nat \<Rightarrow> nat \<Rightarrow> 'a hstate_scheme \<Rightarrow> 'a hstate_scheme" where
  "ioapicenable irq cpunum s =
     (if \<not> ismp s then s
      else let s = ioapicwrite (REG_TABLE + 2 * of_nat irq) (T_IRQ0 + of_nat irq) s
           in ioapicwrite (REG_TABLE + 2 * of_nat irq + 1) (push_bit 24 (of_nat cpunum)) s)"

section \<open>The local APIC\<close>

text \<open>Register numbers are word indices: the byte offset divided by 4.\<close>

definition lapicw :: "nat \<Rightarrow> u32 \<Rightarrow> 'a hstate_scheme \<Rightarrow> 'a hstate_scheme" where
  "lapicw index v s = s\<lparr>lapic_regs := (lapic_regs s)(index := v)\<rparr>"

definition lapicinit :: "'a hstate_scheme \<Rightarrow> (unit, 'a hstate_scheme) outcome" where
  "lapicinit s =
     (if lapic s = 0 then Ret () s
      else let s = lapicw 0x3C (0x100 OR (T_IRQ0 + of_nat IRQ_SPURIOUS)) s;
               s = lapicw 0xF8 0xB s;
               s = lapicw 0xC8 (0x20000 OR (T_IRQ0 + of_nat IRQ_TIMER)) s;
               s = lapicw 0xE0 10000000 s;
               s = lapicw 0xD4 0x10000 s;
               s = lapicw 0xD8 0x10000 s;
               s = (if (drop_bit 16 (lapic_regs s 0xC) AND 0xFF) \<ge> 4 then lapicw 0xD0 0x10000 s else s);
               s = lapicw 0xDC (T_IRQ0 + of_nat IRQ_ERROR) s;
               s = lapicw 0xA0 0 s;
               s = lapicw 0xA0 0 s;
               s = lapicw 0x2C 0 s;
               s = lapicw 0xC4 0 s;
               s = lapicw 0xC0 (0x80000 OR 0x500 OR 0x8000) s
           in if lapic_regs s 0xC0 AND 0x1000 \<noteq> 0 then Fault ''lapicinit: delivery never ends''
              else Ret () (lapicw 0x20 0 s))"

text \<open>\<open>ra\<close> is the return address that the warning prints.\<close>

definition cpunum :: "addr \<Rightarrow> 'a hstate_scheme \<Rightarrow> (u32, 'a hstate_scheme) outcome" where
  "cpunum ra s =
     bnd (if if_flag (this_cpu s) then
            let k = cpunum_calls s; s = s\<lparr>cpunum_calls := Suc k\<rparr> in
            if k = 0 then cprintf (''cpu called from %x with interrupts enabled'' @ LF) [A_int ra] s
            else Ret () s
          else Ret () s) (\<lambda>_ s.
     Ret (if lapic s \<noteq> 0 then drop_bit 24 (lapic_regs s 8) else 0) s)"

definition lapiceoi :: "'a hstate_scheme \<Rightarrow> 'a hstate_scheme" where
  "lapiceoi s = (if lapic s \<noteq> 0 then lapicw 0x2C 0 s else s)"

definition microdelay :: "nat \<Rightarrow> 'a hstate_scheme \<Rightarrow> 'a hstate_scheme" where
  "microdelay us s = s"

definition store16 :: "memory \<Rightarrow> addr \<Rightarrow> u16 \<Rightarrow> memory" where
  "store16 m a v = m(a := ucast v, a + 1 := ucast (drop_bit 8 v))"

definition startup_ipi :: "byte \<Rightarrow> addr \<Rightarrow> 'a hstate_scheme \<Rightarrow> 'a hstate_scheme" where
  "startup_ipi apicid code s =
     (let s = lapicw 0xC4 (push_bit 24 (ucast apicid)) s;
          s = lapicw 0xC0 (0x600 OR drop_bit 12 code) s
      in microdelay 200 s)"

definition lapicstartap :: "byte \<Rightarrow> addr \<Rightarrow> 'a hstate_scheme \<Rightarrow> 'a hstate_scheme" where
  "lapicstartap apicid code s =
     (let s = outb 0x70 0xF s;
          s = outb 0x71 0x0A s;
          wrv = p2v 0x467;
          s = s\<lparr>mem := store16 (mem s) wrv 0\<rparr>;
          s = s\<lparr>mem := store16 (mem s) (wrv + 2) (ucast (drop_bit 4 code))\<rparr>;
          s = lapicw 0xC4 (push_bit 24 (ucast apicid)) s;
          s = lapicw 0xC0 (0x500 OR 0x8000 OR 0x4000) s;
          s = microdelay 200 s;
          s = lapicw 0xC0 (0x500 OR 0x8000) s;
          s = microdelay 100 s
      in startup_ipi apicid code (startup_ipi apicid code s))"

section \<open>The clock\<close>

definition timerinit :: "'a hstate_scheme \<Rightarrow> 'a hstate_scheme" where
  "timerinit s =
     (let d = (1193182 + 100 div 2) div (100 :: nat);
          s = outb 0x43 0x34 s;
          s = outb 0x40 (of_nat (d mod 256)) s;
          s = outb 0x40 (of_nat (d div 256)) s
      in picenable IRQ_TIMER s)"

record rtcdate =
  second :: u32
  minute :: u32
  hour :: u32
  day :: u32
  month :: u32
  year :: u32

definition cmos_read :: "byte \<Rightarrow> 'a hstate_scheme \<Rightarrow> u32 \<times> 'a hstate_scheme" where
  "cmos_read reg s = (let s = microdelay 200 (outb 0x70 reg s) in (ucast (cmos s reg), s))"

definition fill_rtcdate :: "'a hstate_scheme \<Rightarrow> rtcdate \<times> 'a hstate_scheme" where
  "fill_rtcdate s =
     (let (a, s) = cmos_read 0 s; (b, s) = cmos_read 2 s; (c, s) = cmos_read 4 s;
          (d, s) = cmos_read 7 s; (e, s) = cmos_read 8 s; (f, s) = cmos_read 9 s
      in (\<lparr>second = a, minute = b, hour = c, day = d, month = e, year = f\<rparr>, s))"

definition bcd_conv :: "u32 \<Rightarrow> u32" where
  "bcd_conv x = drop_bit 4 x * 10 + (x AND 0xf)"

definition rtc_conv :: "rtcdate \<Rightarrow> rtcdate" where
  "rtc_conv r = \<lparr>second = bcd_conv (second r), minute = bcd_conv (minute r), hour = bcd_conv (hour r),
     day = bcd_conv (day r), month = bcd_conv (month r), year = bcd_conv (year r)\<rparr>"

text \<open>
  The reading loop repeats while an update is in progress; the clock is a state component
  that does not move by itself, so the loop ends at once or never.
\<close>

definition cmostime :: "'a hstate_scheme \<Rightarrow> (rtcdate, 'a hstate_scheme) outcome" where
  "cmostime s =
     (let (sb, s) = cmos_read 0x0b s;
          bcd = (sb AND 4 = 0);
          (t1, s) = fill_rtcdate s;
          (sa, s) = cmos_read 0x0a s
      in if sa AND 0x80 \<noteq> 0 then Fault ''cmostime: update never ends''
         else let (t2, s) = fill_rtcdate s;
                  t1 = (if bcd then rtc_conv t1 else t1)
              in Ret (t1\<lparr>year := year t1 + 2000\<rparr>) s)"

section \<open>Discovery of processors\<close>

text \<open>Reading the BIOS tables from memory: bytes, 16-bit and 32-bit little-endian fields.\<close>

definition load16 :: "memory \<Rightarrow> addr \<Rightarrow> u16" where
  "load16 m a = ucast (m a) OR push_bit 8 (ucast (m (a + 1)))"

fun sum_bytes :: "memory \<Rightarrow> addr \<Rightarrow> nat \<Rightarrow> byte" where
  "sum_bytes m a 0 = 0"
| "sum_bytes m a (Suc n) = m a + sum_bytes m (a + 1) n"

definition has_sig :: "memory \<Rightarrow> addr \<Rightarrow> string \<Rightarrow> bool" where
  "has_sig m a sig \<longleftrightarrow> map (\<lambda>i. m (a + of_nat i)) [0..<length sig] = c_str sig"

text \<open>The candidates are 16 bytes apart: the size of the structure.\<close>

fun mpsearch_loop :: "memory \<Rightarrow> addr \<Rightarrow> nat \<Rightarrow> addr" where
  "mpsearch_loop m p 0 = 0"
| "mpsearch_loop m p (Suc n) =
     (if has_sig m p ''_MP_'' \<and> sum_bytes m p 16 = 0 then p else mpsearch_loop m (p + 16) n)"

definition mpsearch1 :: "memory \<Rightarrow> addr \<Rightarrow> nat \<Rightarrow> addr" where
  "mpsearch1 m a len = mpsearch_loop m (p2v a) ((len + 15) div 16)"

definition mpsearch :: "memory \<Rightarrow> addr" where
  "mpsearch m =
     (let bda = p2v 0x400;
          p = push_bit 4 (push_bit 8 (ucast (m (bda + 0x0F))) OR ucast (m (bda + 0x0E)))
      in let mp = (if p \<noteq> 0 then mpsearch1 m p 1024
                   else mpsearch1 m ((push_bit 8 (ucast (m (bda + 0x14))) OR ucast (m (bda + 0x13))) * 1024 - 1024) 1024)
         in if mp \<noteq> 0 then mp else mpsearch1 m 0xF0000 0x10000)"

text \<open>The table and the floating pointer, or \<open>None\<close>.\<close>

definition mpconfig :: "memory \<Rightarrow> (addr \<times> addr) option" where
  "mpconfig m =
     (let mp = mpsearch m in
      if mp = 0 \<or> load32 m (mp + 4) = 0 then None
      else let conf = p2v (load32 m (mp + 4)) in
        if \<not> has_sig m conf ''PCMP'' then None
        else if m (conf + 6) \<noteq> 1 \<and> m (conf + 6) \<noteq> 4 then None
        else if sum_bytes m conf (unat (load16 m (conf + 4))) \<noteq> 0 then None
        else Some (conf, mp))"

text \<open>
  The entries of the table.  An unknown entry is reported but not skipped: the loop meets it
  again and again, which uses up any fuel.
\<close>

fun mp_entries :: "nat \<Rightarrow> addr \<Rightarrow> addr \<Rightarrow> 'a hstate_scheme \<Rightarrow> (unit, 'a hstate_scheme) outcome" where
  "mp_entries 0 p e s = Fault ''mpinit: out of fuel''"
| "mp_entries (Suc n) p e s =
     (if \<not> p < e then Ret () s
      else if mem s p = 0 then
        if ncpu s \<ge> 8 then Fault ''mpinit: cpus overrun'' else
        let apicid = mem s (p + 1); flags = mem s (p + 3) in
        bnd (if of_nat (ncpu s) \<noteq> (ucast apicid :: u32)
             then bnd (cprintf (''mpinit: ncpu=%d apicid=%d'' @ LF) [A_int (of_nat (ncpu s)), A_int (ucast apicid)] s)
                    (\<lambda>_ s. Ret () (s\<lparr>ismp := False\<rparr>))
             else Ret () s) (\<lambda>_ s.
        let s = (if flags AND 2 \<noteq> 0 then s\<lparr>bcpu := ncpu s\<rparr> else s);
            s = s\<lparr>cpus := (cpus s)(ncpu s := (cpus s (ncpu s))\<lparr>cpu_id := ncpu s\<rparr>)\<rparr>;
            s = s\<lparr>ncpu := Suc (ncpu s)\<rparr>
        in mp_entries n (p + 20) e s)
      else if mem s p = 2 then mp_entries n (p + 8) e (s\<lparr>ioapicid := mem s (p + 1)\<rparr>)
      else if mem s p = 1 \<or> mem s p = 3 \<or> mem s p = 4 then mp_entries n (p + 8) e s
      else bnd (cprintf (''mpinit: unknown config type %x'' @ LF) [A_int (ucast (mem s p))] s) (\<lambda>_ s.
             mp_entries n p e (s\<lparr>ismp := False\<rparr>)))"

definition mpinit :: "'a hstate_scheme \<Rightarrow> (unit, 'a hstate_scheme) outcome" where
  "mpinit s =
     (let s = s\<lparr>bcpu := 0\<rparr> in
      case mpconfig (mem s) of None \<Rightarrow> Ret () s
      | Some (conf, mp) \<Rightarrow>
          let s = s\<lparr>ismp := True\<rparr>;
              s = s\<lparr>lapic := load32 (mem s) (conf + 36)\<rparr>;
              len = load16 (mem s) (conf + 4)
          in bnd (mp_entries (Suc (unat len)) (conf + 44) (conf + ucast len) s) (\<lambda>_ s.
             if \<not> ismp s then Ret () (s\<lparr>ncpu := 1, lapic := 0, ioapicid := 0\<rparr>)
             else if mem s (mp + 12) \<noteq> 0
             then Ret () (outb 0x23 (imcr s OR 1) (outb 0x22 0x70 s))
             else Ret () s))"

definition mpbcpu :: "'a hstate_scheme \<Rightarrow> nat" where
  "mpbcpu s = bcpu s"

end
