(* ===== verification/Bio.thy ===== *)
theory Bio
  imports Hw
begin

text \<open>
  The disk driver \<open>ide.c\<close> and the buffer cache \<open>bio.c\<close>.

  A buffer is an index into the array \<open>bcache.buf\<close>; index \<open>NBUF\<close> is the list head
  \<open>bcache.head\<close>.  The list of buffers in order of use is kept as in the source, through
  \<open>prev\<close> and \<open>next\<close> pointers, and so is the queue of disk requests, through
  \<open>qnext\<close>.  The disk itself is a device with task registers: what the driver writes to
  them selects drive and sector, and data goes to or comes from the selected sector.
\<close>

section \<open>State\<close>

record buf =
  b_busy :: bool
  b_valid :: bool
  b_dirty :: bool
  b_dev :: u32
  b_blockno :: u32
  b_prev :: nat
  b_next :: nat
  b_qnext :: "nat option"
  b_data :: "byte list"

text \<open>
  The disk controller: status byte, task registers, the sectors of the two drives, and the
  history of the sectors written, oldest first.
\<close>

record idedev =
  ide_status :: byte
  r_lba0 :: byte
  r_lba1 :: byte
  r_lba2 :: byte
  r_drive :: byte
  r_cmd :: byte
  disk :: "nat \<Rightarrow> nat \<Rightarrow> byte list"
  ide_hist :: "(nat \<times> nat \<times> byte list) list"

record dstate = hstate +
  bufs :: "buf list"
  idequeue :: "nat option"
  havedisk1 :: bool
  ide :: idedev

definition NBUF :: nat where "NBUF = 30"
definition BSIZE :: nat where "BSIZE = 512"
definition FSSIZE :: u32 where "FSSIZE = 1000"

definition upd_buf :: "nat \<Rightarrow> (buf \<Rightarrow> buf) \<Rightarrow> 'a dstate_scheme \<Rightarrow> 'a dstate_scheme" where
  "upd_buf i f s = s\<lparr>bufs := (bufs s)[i := f (bufs s ! i)]\<rparr>"

section \<open>The disk controller\<close>

definition ide_reg :: "u16 \<Rightarrow> byte \<Rightarrow> idedev \<Rightarrow> idedev" where
  "ide_reg port v d =
     (if port = 0x1f3 then d\<lparr>r_lba0 := v\<rparr>
      else if port = 0x1f4 then d\<lparr>r_lba1 := v\<rparr>
      else if port = 0x1f5 then d\<lparr>r_lba2 := v\<rparr>
      else if port = 0x1f6 then d\<lparr>r_drive := v\<rparr>
      else if port = 0x1f7 then d\<lparr>r_cmd := v\<rparr>
      else d)"

definition ide_outb :: "u16 \<Rightarrow> byte \<Rightarrow> 'a dstate_scheme \<Rightarrow> 'a dstate_scheme" where
  "ide_outb port v s = (let s = outb port v s in s\<lparr>ide := ide_reg port v (ide s)\<rparr>)"

definition ide_drive :: "idedev \<Rightarrow> nat" where
  "ide_drive d = (if bit (r_drive d) 4 then 1 else 0)"

definition ide_lba :: "idedev \<Rightarrow> nat" where
  "ide_lba d = unat (r_lba0 d) + 256 * unat (r_lba1 d) + 65536 * unat (r_lba2 d)
     + 16777216 * unat (r_drive d AND 0x0f)"

text \<open>\<open>outsl\<close> of one block after a write command, \<open>insl\<close> of one block after a read command.\<close>

definition ide_store :: "byte list \<Rightarrow> idedev \<Rightarrow> idedev" where
  "ide_store bs d = d\<lparr>disk := (disk d)(ide_drive d := (disk d (ide_drive d))(ide_lba d := bs)),
     ide_hist := ide_hist d @ [(ide_drive d, ide_lba d, bs)]\<rparr>"

definition ide_fetch :: "idedev \<Rightarrow> byte list" where
  "ide_fetch d = disk d (ide_drive d) (ide_lba d)"

section \<open>The driver\<close>

text \<open>The polling loop ends when the controller is ready and not busy; otherwise it never does.\<close>

definition idewait :: "bool \<Rightarrow> 'a dstate_scheme \<Rightarrow> (int, 'a dstate_scheme) outcome" where
  "idewait checkerr s =
     (let r = ide_status (ide s) in
      if r AND (0x80 OR 0x40) \<noteq> 0x40 then Fault ''idewait: never ready''
      else if checkerr \<and> r AND (0x20 OR 0x01) \<noteq> 0 then Ret (- 1) s
      else Ret 0 s)"

definition ideinit :: "'a dstate_scheme \<Rightarrow> (unit, 'a dstate_scheme) outcome" where
  "ideinit s =
     (let s = initlock L_ide ''ide'' s;
          s = picenable IRQ_IDE s;
          s = ioapicenable IRQ_IDE (ncpu s - 1) s
      in bnd (idewait False s) (\<lambda>_ s.
         let s = ide_outb 0x1f6 (0xe0 OR 0x10) s;
             s = (if ide_status (ide s) \<noteq> 0 then s\<lparr>havedisk1 := True\<rparr> else s)
         in Ret () (ide_outb 0x1f6 0xe0 s)))"

definition idestart :: "nat option \<Rightarrow> 'a dstate_scheme \<Rightarrow> (unit, 'a dstate_scheme) outcome" where
  "idestart bo s =
     (case bo of None \<Rightarrow> Panic ''idestart''
      | Some b \<Rightarrow>
          if b_blockno (bufs s ! b) \<ge> FSSIZE then Panic ''incorrect blockno''
          else let sector = b_blockno (bufs s ! b) * 1 in
            bnd (idewait False s) (\<lambda>_ s.
            let s = ide_outb 0x3f6 0 s;
                s = ide_outb 0x1f2 1 s;
                s = ide_outb 0x1f3 (ucast (sector AND 0xff)) s;
                s = ide_outb 0x1f4 (ucast (drop_bit 8 sector AND 0xff)) s;
                s = ide_outb 0x1f5 (ucast (drop_bit 16 sector AND 0xff)) s;
                s = ide_outb 0x1f6 (ucast (0xe0 OR push_bit 4 (b_dev (bufs s ! b) AND 1)
                      OR (drop_bit 24 sector AND 0x0f))) s
            in if b_dirty (bufs s ! b)
               then let s = ide_outb 0x1f7 0x30 s
                    in Ret () (s\<lparr>ide := ide_store (b_data (bufs s ! b)) (ide s)\<rparr>)
               else Ret () (ide_outb 0x1f7 0x20 s)))"

definition ideintr :: "'a dstate_scheme \<Rightarrow> (unit, 'a dstate_scheme) outcome" where
  "ideintr s = bnd (acquire L_ide s) (\<lambda>_ s.
     case idequeue s of None \<Rightarrow> release L_ide s
     | Some b \<Rightarrow>
         let s = s\<lparr>idequeue := b_qnext (bufs s ! b)\<rparr> in
         bnd (if \<not> b_dirty (bufs s ! b)
              then bnd (idewait True s) (\<lambda>r s.
                     Ret () (if r \<ge> 0 then upd_buf b (\<lambda>k. k\<lparr>b_data := ide_fetch (ide s)\<rparr>) s else s))
              else Ret () s) (\<lambda>_ s.
         let s = upd_buf b (\<lambda>k. k\<lparr>b_valid := True, b_dirty := False\<rparr>) s in
         bnd (wakeup (Ch_buf b) s) (\<lambda>_ s.
         bnd (if idequeue s \<noteq> None then idestart (idequeue s) s else Ret () s) (\<lambda>_ s.
         release L_ide s))))"

text \<open>The loop that finds the end of the request queue: the last buffer of the chain from \<open>i\<close>.\<close>

fun queue_last :: "nat \<Rightarrow> buf list \<Rightarrow> nat \<Rightarrow> nat option" where
  "queue_last 0 bs i = None"
| "queue_last (Suc n) bs i = (case b_qnext (bs ! i) of None \<Rightarrow> Some i | Some j \<Rightarrow> queue_last n bs j)"

definition enqueue :: "nat \<Rightarrow> 'a dstate_scheme \<Rightarrow> (unit, 'a dstate_scheme) outcome" where
  "enqueue b s =
     (let s = upd_buf b (\<lambda>k. k\<lparr>b_qnext := None\<rparr>) s in
      case idequeue s of None \<Rightarrow> Ret () (s\<lparr>idequeue := Some b\<rparr>)
      | Some h \<Rightarrow>
          (case queue_last (Suc NBUF) (bufs s) h of None \<Rightarrow> Fault ''iderw: cyclic queue''
           | Some l \<Rightarrow> Ret () (upd_buf l (\<lambda>k. k\<lparr>b_qnext := Some b\<rparr>) s)))"

definition io_done :: "buf \<Rightarrow> bool" where
  "io_done k \<longleftrightarrow> b_valid k \<and> \<not> b_dirty k"

text \<open>
  The waiting loop of \<open>iderw\<close>.  While the process sleeps on its buffer the disk lock is
  free and the disk interrupt comes in; when the process runs again it has the lock back.
  The loop body is this exchange, and the fuel the largest number of queued requests.
\<close>

fun iderw_wait :: "nat \<Rightarrow> nat \<Rightarrow> 'a dstate_scheme \<Rightarrow> (unit, 'a dstate_scheme) outcome" where
  "iderw_wait 0 b s = Fault ''iderw: request never served''"
| "iderw_wait (Suc n) b s =
     (if io_done (bufs s ! b) then release L_ide s
      else bnd (release L_ide s) (\<lambda>_ s. bnd (ideintr s) (\<lambda>_ s. bnd (acquire L_ide s) (\<lambda>_ s.
             iderw_wait n b s))))"

definition iderw :: "nat \<Rightarrow> 'a dstate_scheme \<Rightarrow> (unit, 'a dstate_scheme) outcome" where
  "iderw b s =
     (let k = bufs s ! b in
      if \<not> b_busy k then Panic ''iderw: buf not busy''
      else if io_done k then Panic ''iderw: nothing to do''
      else if b_dev k \<noteq> 0 \<and> \<not> havedisk1 s then Panic ''iderw: ide disk 1 not present''
      else bnd (acquire L_ide s) (\<lambda>_ s.
        bnd (enqueue b s) (\<lambda>_ s.
        bnd (if idequeue s = Some b then idestart (Some b) s else Ret () s) (\<lambda>_ s.
        iderw_wait (Suc (Suc NBUF)) b s))))"

section \<open>The buffer cache\<close>

text \<open>The initial list: every buffer in turn is put at the front.\<close>

definition link_front :: "nat \<Rightarrow> 'a dstate_scheme \<Rightarrow> 'a dstate_scheme" where
  "link_front b s =
     (let s = upd_buf b (\<lambda>k. k\<lparr>b_next := b_next (bufs s ! NBUF)\<rparr>) s;
          s = upd_buf b (\<lambda>k. k\<lparr>b_prev := NBUF\<rparr>) s;
          s = upd_buf (b_next (bufs s ! NBUF)) (\<lambda>k. k\<lparr>b_prev := b\<rparr>) s
      in upd_buf NBUF (\<lambda>k. k\<lparr>b_next := b\<rparr>) s)"

fun binit_loop :: "nat \<Rightarrow> nat \<Rightarrow> 'a dstate_scheme \<Rightarrow> 'a dstate_scheme" where
  "binit_loop 0 b s = s"
| "binit_loop (Suc n) b s =
     binit_loop n (Suc b) (link_front b (upd_buf b (\<lambda>k. k\<lparr>b_dev := - 1\<rparr>) s))"

definition binit :: "'a dstate_scheme \<Rightarrow> 'a dstate_scheme" where
  "binit s =
     (let s = initlock L_bcache ''bcache'' s;
          s = upd_buf NBUF (\<lambda>k. k\<lparr>b_prev := NBUF, b_next := NBUF\<rparr>) s
      in binit_loop NBUF 0 s)"

text \<open>
  The buffers that a loop visits following \<open>f\<close> from \<open>i\<close> up to the head; \<open>None\<close> if it does
  not come back to the head.
\<close>

fun walk :: "nat \<Rightarrow> (nat \<Rightarrow> nat) \<Rightarrow> nat \<Rightarrow> nat \<Rightarrow> nat list option" where
  "walk 0 f h i = None"
| "walk (Suc n) f h i = (if i = h then Some [] else map_option ((#) i) (walk n f h (f i)))"

definition walk_mru :: "buf list \<Rightarrow> nat list option" where
  "walk_mru bs = walk (Suc NBUF) (\<lambda>i. b_next (bs ! i)) NBUF (b_next (bs ! NBUF))"

definition walk_lru :: "buf list \<Rightarrow> nat list option" where
  "walk_lru bs = walk (Suc NBUF) (\<lambda>i. b_prev (bs ! i)) NBUF (b_prev (bs ! NBUF))"

definition holds_block :: "u32 \<Rightarrow> u32 \<Rightarrow> buf \<Rightarrow> bool" where
  "holds_block dev blockno k \<longleftrightarrow> b_dev k = dev \<and> b_blockno k = blockno"

definition recyclable :: "buf \<Rightarrow> bool" where
  "recyclable k \<longleftrightarrow> \<not> b_busy k \<and> \<not> b_dirty k"

text \<open>The body of \<open>bget\<close> from its label \<open>loop\<close>, where it also goes on after the sleep.\<close>

definition bget_loop :: "u32 \<Rightarrow> u32 \<Rightarrow> 'a dstate_scheme \<Rightarrow> (nat, 'a dstate_scheme) outcome" where
  "bget_loop dev blockno s =
     (case walk_mru (bufs s) of None \<Rightarrow> Fault ''bget: list broken''
      | Some mru \<Rightarrow>
        (case find (\<lambda>i. holds_block dev blockno (bufs s ! i)) mru of
           Some i \<Rightarrow>
             if \<not> b_busy (bufs s ! i)
             then bnd (release L_bcache (upd_buf i (\<lambda>k. k\<lparr>b_busy := True\<rparr>) s)) (\<lambda>_ s. Ret i s)
             else sleep (Ch_buf i) L_bcache s
         | None \<Rightarrow>
             (case walk_lru (bufs s) of None \<Rightarrow> Fault ''bget: list broken''
              | Some lru \<Rightarrow>
                (case find (\<lambda>i. recyclable (bufs s ! i)) lru of
                   Some i \<Rightarrow>
                     bnd (release L_bcache (upd_buf i (\<lambda>k. k\<lparr>b_dev := dev, b_blockno := blockno,
                            b_busy := True, b_valid := False, b_dirty := False\<rparr>) s)) (\<lambda>_ s. Ret i s)
                 | None \<Rightarrow> Panic ''bget: no buffers''))))"

definition bget :: "u32 \<Rightarrow> u32 \<Rightarrow> 'a dstate_scheme \<Rightarrow> (nat, 'a dstate_scheme) outcome" where
  "bget dev blockno s = bnd (acquire L_bcache s) (\<lambda>_ s. bget_loop dev blockno s)"

definition bread :: "u32 \<Rightarrow> u32 \<Rightarrow> 'a dstate_scheme \<Rightarrow> (nat, 'a dstate_scheme) outcome" where
  "bread dev blockno s = bnd (bget dev blockno s) (\<lambda>b s.
     if \<not> b_valid (bufs s ! b) then bnd (iderw b s) (\<lambda>_ s. Ret b s) else Ret b s)"

definition bwrite :: "nat \<Rightarrow> 'a dstate_scheme \<Rightarrow> (unit, 'a dstate_scheme) outcome" where
  "bwrite b s =
     (if \<not> b_busy (bufs s ! b) then Panic ''bwrite''
      else iderw b (upd_buf b (\<lambda>k. k\<lparr>b_dirty := True\<rparr>) s))"

definition unlink_buf :: "nat \<Rightarrow> 'a dstate_scheme \<Rightarrow> 'a dstate_scheme" where
  "unlink_buf b s =
     (let s = upd_buf (b_next (bufs s ! b)) (\<lambda>k. k\<lparr>b_prev := b_prev (bufs s ! b)\<rparr>) s
      in upd_buf (b_prev (bufs s ! b)) (\<lambda>k. k\<lparr>b_next := b_next (bufs s ! b)\<rparr>) s)"

definition brelse :: "nat \<Rightarrow> 'a dstate_scheme \<Rightarrow> (unit, 'a dstate_scheme) outcome" where
  "brelse b s =
     (if \<not> b_busy (bufs s ! b) then Panic ''brelse''
      else bnd (acquire L_bcache s) (\<lambda>_ s.
        let s = link_front b (unlink_buf b s);
            s = upd_buf b (\<lambda>k. k\<lparr>b_busy := False\<rparr>) s
        in bnd (wakeup (Ch_buf b) s) (\<lambda>_ s. release L_bcache s)))"

section \<open>Doubly linked lists\<close>

text \<open>
  \<open>npath f a xs z\<close>: following \<open>f\<close> from \<open>a\<close> leads through \<open>xs\<close> to \<open>z\<close>.  A list
  \<open>xs\<close> hangs off the head \<open>h\<close> when the forward pointers lead through it and the
  backward pointers through its reverse.
\<close>

fun npath :: "(nat \<Rightarrow> nat) \<Rightarrow> nat \<Rightarrow> nat list \<Rightarrow> nat \<Rightarrow> bool" where
  "npath f a [] z \<longleftrightarrow> f a = z"
| "npath f a (x # xs) z \<longleftrightarrow> f a = x \<and> npath f x xs z"

definition dll :: "(nat \<Rightarrow> nat) \<Rightarrow> (nat \<Rightarrow> nat) \<Rightarrow> nat \<Rightarrow> nat list \<Rightarrow> bool" where
  "dll nx pv h xs \<longleftrightarrow> distinct (h # xs) \<and> npath nx h xs h \<and> npath pv h (rev xs) h"

lemma npath_append: "npath f a (xs @ y # ys) z \<longleftrightarrow> npath f a xs y \<and> npath f y ys z"
  by (induction xs arbitrary: a) auto

lemma npath_upd_out: "i \<notin> set (a # xs) \<Longrightarrow> npath (f(i := v)) a xs z \<longleftrightarrow> npath f a xs z"
  by (induction xs arbitrary: a) auto

lemma npath_upd_last:
  "distinct (a # xs) \<Longrightarrow> npath f a xs z \<Longrightarrow> npath (f(last (a # xs) := w)) a xs w"
  by (induction xs arbitrary: a) (auto split: if_splits)

lemma npath_first: "npath f a xs z \<Longrightarrow> f a = hd (xs @ [z])"
  by (cases xs) auto

lemma npath_reroute:
  assumes "npath f a xs i" and "npath f i ys z" and "distinct (a # xs)" and "set (a # xs) \<inter> set ys = {}"
  shows "npath (f(last (a # xs) := f i)) a (xs @ ys) z"
proof (cases ys)
  case Nil
  then show ?thesis using npath_upd_last[OF assms(3,1), of "f i"] assms(2) by simp
next
  case (Cons y ys')
  then have y: "f i = y" "npath f y ys' z" using assms(2) by auto
  have "last (a # xs) \<in> set (a # xs)" by (rule last_in_set) simp
  then have "last (a # xs) \<notin> set (y # ys')" using assms(4) Cons by blast
  then have "npath (f(last (a # xs) := f i)) y ys' z"
    using y(2) npath_upd_out[of "last (a # xs)" y ys' f "f i" z] by blast
  then show ?thesis using npath_upd_last[OF assms(3,1), of y] y(1) Cons by (simp add: npath_append)
qed

lemma walk_npath:
  "npath f a xs h \<Longrightarrow> h \<notin> set xs \<Longrightarrow> length xs < n \<Longrightarrow> walk n f h (f a) = Some xs"
proof (induction xs arbitrary: a n)
  case Nil
  then show ?case by (cases n) auto
next
  case (Cons x xs)
  then obtain k where "n = Suc k" by (cases n) auto
  with Cons show ?case by auto
qed

lemma dll_neighbours:
  assumes "dll nx pv h (ys @ i # zs)"
  shows "nx i = hd (zs @ [h])" and "pv i = last (h # ys)"
proof -
  have "npath nx i zs h" and "npath pv i (rev ys) h"
    using assms by (auto simp: dll_def npath_append)
  then show "nx i = hd (zs @ [h])" and "pv i = last (h # ys)"
    by (auto dest!: npath_first simp: last_ConsR hd_append hd_rev split: if_splits)
qed

lemma dll_unlink:
  assumes d: "dll nx pv h (ys @ i # zs)"
  shows "dll (nx(pv i := nx i)) (pv(nx i := pv i)) h (ys @ zs)"
proof -
  note nb = dll_neighbours[OF d]
  have dist: "distinct (h # ys @ i # zs)" using d by (simp add: dll_def)
  have n: "npath nx h ys i" "npath nx i zs h" and p: "npath pv h (rev zs) i" "npath pv i (rev ys) h"
    using d by (auto simp: dll_def npath_append)
  have "npath (nx(last (h # ys) := nx i)) h (ys @ zs) h"
    by (rule npath_reroute[OF n]) (use dist in auto)
  moreover have "npath (pv(last (h # rev zs) := pv i)) h (rev zs @ rev ys) h"
    by (rule npath_reroute[OF p]) (use dist in auto)
  moreover have "last (h # rev zs) = nx i" using nb(1) by (cases zs) auto
  ultimately show ?thesis using nb(2) dist by (simp add: dll_def)
qed

lemma dll_push:
  assumes d: "dll nx pv h xs" and i: "i \<notin> set (h # xs)"
  shows "dll (nx(i := nx h, h := i)) (pv(i := h, nx h := i)) h (i # xs)"
proof -
  have dist: "distinct (h # xs)" and n: "npath nx h xs h" and p: "npath pv h (rev xs) h"
    using d by (auto simp: dll_def)
  have first: "nx h = last (h # rev xs)" using npath_first[OF n] by (cases xs) auto
  then have ne: "nx h \<noteq> i" using i by (cases xs) auto
  have "npath (nx(i := nx h, h := i)) i xs h"
  proof (cases xs)
    case (Cons x ys)
    have "npath (nx(i := nx h, h := i)) x ys h = npath nx x ys h"
      using dist i Cons by (simp add: npath_upd_out)
    then show ?thesis using n i Cons by simp
  qed (use i n in auto)
  moreover have "npath (pv(i := h, nx h := i)) h (rev xs) i"
  proof -
    have "npath (pv(nx h := i)) h (rev xs) i"
      unfolding first by (rule npath_upd_last[OF _ p]) (use dist in simp)
    then have "npath ((pv(nx h := i))(i := h)) h (rev xs) i"
      using npath_upd_out[of i h "rev xs" "pv(nx h := i)"] i by simp
    then show ?thesis using ne by (simp add: fun_upd_twist)
  qed
  ultimately show ?thesis using dist i ne by (auto simp: dll_def npath_append)
qed

text \<open>The buffers of the cache, most recently used first.\<close>

definition nx_of :: "buf list \<Rightarrow> nat \<Rightarrow> nat" where "nx_of bs i = b_next (bs ! i)"
definition pv_of :: "buf list \<Rightarrow> nat \<Rightarrow> nat" where "pv_of bs i = b_prev (bs ! i)"

definition mru_order :: "buf list \<Rightarrow> nat list \<Rightarrow> bool" where
  "mru_order bs xs \<longleftrightarrow> length bs = Suc NBUF \<and> set xs \<subseteq> {..<NBUF} \<and> dll (nx_of bs) (pv_of bs) NBUF xs"

lemma nx_of_upd: "j < length bs \<Longrightarrow> nx_of (bs[j := k]) = (nx_of bs)(j := b_next k)"
  and pv_of_upd: "j < length bs \<Longrightarrow> pv_of (bs[j := k]) = (pv_of bs)(j := b_prev k)"
  by (auto simp: nx_of_def pv_of_def fun_eq_iff nth_list_update)

lemma nx_of_keep: "b_next k = b_next (bs ! j) \<Longrightarrow> nx_of (bs[j := k]) = nx_of bs"
  and pv_of_keep: "b_prev k = b_prev (bs ! j) \<Longrightarrow> pv_of (bs[j := k]) = pv_of bs"
  by (auto simp: nx_of_def pv_of_def fun_eq_iff nth_list_update)
     (metis list_update_beyond not_le nth_list_update)+

lemma length_mru_order: "mru_order bs xs \<Longrightarrow> length xs \<le> NBUF"
  using card_mono[of "{..<NBUF}" "set xs"] by (auto simp: mru_order_def dll_def distinct_card)

lemma mru_order_walks:
  assumes "mru_order bs xs"
  shows "walk_mru bs = Some xs" and "walk_lru bs = Some (rev xs)"
proof -
  have len: "length xs < Suc NBUF" using length_mru_order[OF assms] by simp
  have d: "npath (nx_of bs) NBUF xs NBUF" "npath (pv_of bs) NBUF (rev xs) NBUF" "NBUF \<notin> set xs"
    using assms by (auto simp: mru_order_def dll_def)
  show "walk_mru bs = Some xs"
    using walk_npath[OF d(1,3) len] unfolding walk_mru_def nx_of_def .
  show "walk_lru bs = Some (rev xs)"
    using walk_npath[OF d(2), of "Suc NBUF"] d(3) len unfolding walk_lru_def pv_of_def by simp
qed

lemma mru_order_keep:
  assumes "mru_order bs xs" and "b_next k = b_next (bs ! j)" and "b_prev k = b_prev (bs ! j)"
  shows "mru_order (bs[j := k]) xs"
  using assms by (simp add: mru_order_def nx_of_keep pv_of_keep)

lemma upd_buf_fields [simp]:
  "bufs (upd_buf i f s) = (bufs s)[i := f (bufs s ! i)]"
  "mem (upd_buf i f s) = mem s" "ebp (upd_buf i f s) = ebp s" "mycpu (upd_buf i f s) = mycpu s"
  "cpus (upd_buf i f s) = cpus s" "locks (upd_buf i f s) = locks s" "ptable (upd_buf i f s) = ptable s"
  "idequeue (upd_buf i f s) = idequeue s" "havedisk1 (upd_buf i f s) = havedisk1 s"
  "ide (upd_buf i f s) = ide s" "dstate.more (upd_buf i f s) = dstate.more s"
  by (simp_all add: upd_buf_def)

lemma nx_of_upd_buf:
  "i < length (bufs s) \<Longrightarrow> nx_of (bufs (upd_buf i f s)) = (nx_of (bufs s))(i := b_next (f (bufs s ! i)))"
  and pv_of_upd_buf:
  "i < length (bufs s) \<Longrightarrow> pv_of (bufs (upd_buf i f s)) = (pv_of (bufs s))(i := b_prev (f (bufs s ! i)))"
  by (simp_all add: nx_of_upd pv_of_upd)

lemma link_front_pointers:
  assumes "length (bufs s) = Suc NBUF" and "i < NBUF" and "nx_of (bufs s) NBUF \<le> NBUF"
  shows "nx_of (bufs (link_front i s)) = (nx_of (bufs s))(i := nx_of (bufs s) NBUF, NBUF := i)"
    and "pv_of (bufs (link_front i s)) = (pv_of (bufs s))(i := NBUF, nx_of (bufs s) NBUF := i)"
    and "length (bufs (link_front i s)) = Suc NBUF"
proof -
  let ?n = "b_next (bufs s ! NBUF)"
  let ?s1 = "upd_buf i (\<lambda>k. k\<lparr>b_next := ?n\<rparr>) s"
  let ?s2 = "upd_buf i (\<lambda>k. k\<lparr>b_prev := NBUF\<rparr>) ?s1"
  let ?s3 = "upd_buf ?n (\<lambda>k. k\<lparr>b_prev := i\<rparr>) ?s2"
  have lf: "link_front i s = upd_buf NBUF (\<lambda>k. k\<lparr>b_next := i\<rparr>) ?s3"
    using assms(2) by (simp add: link_front_def Let_def)
  have l: "i < length (bufs s)" "NBUF < length (bufs s)" "?n < length (bufs s)"
    using assms by (auto simp: nx_of_def)
  have 1: "nx_of (bufs ?s1) = (nx_of (bufs s))(i := ?n)" "pv_of (bufs ?s1) = pv_of (bufs s)"
    using l by (simp_all add: nx_of_upd pv_of_keep)
  have 2: "nx_of (bufs ?s2) = nx_of (bufs ?s1)" "pv_of (bufs ?s2) = (pv_of (bufs s))(i := NBUF)"
  proof -
    show "nx_of (bufs ?s2) = nx_of (bufs ?s1)"
      unfolding upd_buf_fields(1)[of i _ ?s1] by (rule nx_of_keep) simp
    have "pv_of (bufs ?s2) = (pv_of (bufs ?s1))(i := NBUF)"
      unfolding upd_buf_fields(1)[of i _ ?s1] by (subst pv_of_upd) (use l in simp_all)
    then show "pv_of (bufs ?s2) = (pv_of (bufs s))(i := NBUF)" by (simp only: 1(2))
  qed
  have 3: "nx_of (bufs ?s3) = nx_of (bufs ?s1)" "pv_of (bufs ?s3) = (pv_of (bufs s))(i := NBUF, ?n := i)"
  proof -
    have "nx_of (bufs ?s3) = nx_of (bufs ?s2)" unfolding upd_buf_fields(1)[of ?n] by (rule nx_of_keep) simp
    then show "nx_of (bufs ?s3) = nx_of (bufs ?s1)" using 2(1) by (rule trans)
    have "pv_of (bufs ?s3) = (pv_of (bufs ?s2))(?n := i)"
      unfolding upd_buf_fields(1)[of ?n] by (subst pv_of_upd) (use l in simp_all)
    then show "pv_of (bufs ?s3) = (pv_of (bufs s))(i := NBUF, ?n := i)" by (simp only: 2(2))
  qed
  have "nx_of (bufs (link_front i s)) = (nx_of (bufs ?s3))(NBUF := i)"
    unfolding lf upd_buf_fields(1)[of NBUF] by (subst nx_of_upd) (use l in simp_all)
  then show "nx_of (bufs (link_front i s)) = (nx_of (bufs s))(i := nx_of (bufs s) NBUF, NBUF := i)"
    by (simp only: 3(1) 1(1) nx_of_def[of "bufs s" NBUF])
  have "pv_of (bufs (link_front i s)) = pv_of (bufs ?s3)"
    unfolding lf upd_buf_fields(1)[of NBUF] by (rule pv_of_keep) simp
  then show "pv_of (bufs (link_front i s)) = (pv_of (bufs s))(i := NBUF, nx_of (bufs s) NBUF := i)"
    by (simp only: 3(2) nx_of_def[of "bufs s" NBUF])
  show "length (bufs (link_front i s)) = Suc NBUF" using assms(1) by (simp add: lf)
qed

lemma mru_order_first: "mru_order bs xs \<Longrightarrow> nx_of bs NBUF \<le> NBUF"
  using npath_first[of "nx_of bs" NBUF xs NBUF]
  by (cases xs) (auto simp: mru_order_def dll_def)

lemma mru_order_link_front:
  assumes "mru_order (bufs s) xs" and "i < NBUF" and "i \<notin> set xs"
  shows "mru_order (bufs (link_front i s)) (i # xs)"
proof -
  have len: "length (bufs s) = Suc NBUF" using assms(1) by (simp add: mru_order_def)
  note lf = link_front_pointers[OF len assms(2) mru_order_first[OF assms(1)]]
  have "dll (nx_of (bufs (link_front i s))) (pv_of (bufs (link_front i s))) NBUF (i # xs)"
    unfolding lf by (rule dll_push) (use assms in \<open>auto simp: mru_order_def\<close>)
  then show ?thesis using assms lf(3) by (simp add: mru_order_def)
qed

lemma mru_order_unlink:
  assumes m: "mru_order (bufs s) (ys @ i # zs)"
  shows "mru_order (bufs (unlink_buf i s)) (ys @ zs)"
proof -
  have len: "length (bufs s) = Suc NBUF" and d: "dll (nx_of (bufs s)) (pv_of (bufs s)) NBUF (ys @ i # zs)"
    using m by (simp_all add: mru_order_def)
  let ?n = "b_next (bufs s ! i)" and ?p = "b_prev (bufs s ! i)"
  note nb = dll_neighbours[OF d, unfolded nx_of_def pv_of_def]
  have sub: "set (ys @ i # zs) \<subseteq> {..<NBUF}" using m by (simp add: mru_order_def)
  have nin: "?n \<in> set (zs @ [NBUF])" unfolding nb(1) by (rule hd_in_set) simp
  have pin: "?p \<in> set (NBUF # ys)" unfolding nb(2) by (rule last_in_set) simp
  have np: "?n < length (bufs s)" "?p < length (bufs s)" using nin pin sub len by auto
  have "i \<notin> set (NBUF # ys)" "i \<notin> set (zs @ [NBUF])" using d by (auto simp: dll_def)
  then have ni: "?n \<noteq> i" "?p \<noteq> i" using nin pin by auto
  let ?s1 = "upd_buf ?n (\<lambda>k. k\<lparr>b_prev := ?p\<rparr>) s"
  have i1: "bufs ?s1 ! i = bufs s ! i" using ni by simp
  have u: "unlink_buf i s = upd_buf ?p (\<lambda>k. k\<lparr>b_next := ?n\<rparr>) ?s1"
    unfolding unlink_buf_def Let_def i1 by simp
  have "nx_of (bufs (unlink_buf i s)) = (nx_of (bufs ?s1))(?p := ?n)"
    unfolding u upd_buf_fields(1)[of ?p] by (subst nx_of_upd) (use np in simp_all)
  moreover have "nx_of (bufs ?s1) = nx_of (bufs s)"
    unfolding upd_buf_fields(1) by (rule nx_of_keep) simp
  moreover have "pv_of (bufs (unlink_buf i s)) = pv_of (bufs ?s1)"
    unfolding u upd_buf_fields(1)[of ?p] by (rule pv_of_keep) simp
  moreover have "pv_of (bufs ?s1) = (pv_of (bufs s))(?n := ?p)"
    unfolding upd_buf_fields(1) by (subst pv_of_upd) (use np in simp_all)
  ultimately have "dll (nx_of (bufs (unlink_buf i s))) (pv_of (bufs (unlink_buf i s))) NBUF (ys @ zs)"
    using dll_unlink[OF d] by (simp only: nx_of_def[of "bufs s" i] pv_of_def[of "bufs s" i])
  moreover have "length (bufs (unlink_buf i s)) = Suc NBUF" by (simp add: u len)
  ultimately show ?thesis using sub by (auto simp: mru_order_def)
qed

lemma binit_loop_order:
  assumes "mru_order (bufs s) xs" and "set xs = {..<b}" and "n + b = NBUF"
  shows "mru_order (bufs (binit_loop n b s)) (rev [b..<NBUF] @ xs)"
  using assms
proof (induction n arbitrary: b s xs)
  case (Suc n)
  let ?s = "upd_buf b (\<lambda>k. k\<lparr>b_dev := - 1\<rparr>) s"
  have "mru_order (bufs ?s) xs"
    unfolding upd_buf_fields(1) by (rule mru_order_keep[OF Suc.prems(1)]) simp_all
  then have "mru_order (bufs (link_front b ?s)) (b # xs)"
    by (rule mru_order_link_front) (use Suc.prems(2,3) in simp_all)
  then have "mru_order (bufs (binit_loop n (Suc b) (link_front b ?s))) (rev [Suc b..<NBUF] @ (b # xs))"
    by (rule Suc.IH) (use Suc.prems(2,3) in \<open>simp_all add: lessThan_Suc\<close>)
  moreover have "[b..<NBUF] = b # [Suc b..<NBUF]" using Suc.prems(3) by (intro upt_conv_Cons) simp
  ultimately show ?case by simp
qed simp

lemma binit_order:
  assumes "length (bufs s) = Suc NBUF"
  shows "mru_order (bufs (binit s)) (rev [0..<NBUF])"
proof -
  let ?s = "upd_buf NBUF (\<lambda>k. k\<lparr>b_prev := NBUF, b_next := NBUF\<rparr>) (initlock L_bcache ''bcache'' s)"
  have "mru_order (bufs ?s) []"
    using assms by (simp add: mru_order_def dll_def nx_of_def pv_of_def initlock_def upd_lock_def)
  then have "mru_order (bufs (binit_loop NBUF 0 ?s)) (rev [0..<NBUF] @ [])"
    by (rule binit_loop_order) simp_all
  then show ?thesis by (simp add: binit_def)
qed

section \<open>Frame lemmas\<close>

lemma dstate_lock_fields [simp]:
  "bufs (lock_taken l s) = bufs s" "idequeue (lock_taken l s) = idequeue s"
  "havedisk1 (lock_taken l s) = havedisk1 s" "ide (lock_taken l s) = ide s"
  "dstate.more (lock_taken l s) = dstate.more s"
  "bufs (lock_dropped l s) = bufs s" "idequeue (lock_dropped l s) = idequeue s"
  "havedisk1 (lock_dropped l s) = havedisk1 s" "ide (lock_dropped l s) = ide s"
  "dstate.more (lock_dropped l s) = dstate.more s"
  for s :: "'a dstate_scheme"
  by (simp_all add: lock_unfolds)

lemma dstate_woken_fields [simp]:
  "bufs (woken ch s) = bufs s" "idequeue (woken ch s) = idequeue s"
  "havedisk1 (woken ch s) = havedisk1 s" "ide (woken ch s) = ide s"
  "dstate.more (woken ch s) = dstate.more s"
  for s :: "'a dstate_scheme"
  by (simp_all add: woken_def wakeup1_def)

lemma balanced_dstate [simp]:
  "balanced s (upd_buf i f t) = balanced s t" "balanced s (t\<lparr>idequeue := q\<rparr>) = balanced s t"
  "balanced s (t\<lparr>portlog := pl, ide := d\<rparr>) = balanced s t" for t :: "'a dstate_scheme"
  by (simp_all add: balanced_def lock_free_def upd_buf_def)

lemma within_dstate [simp]:
  "within l s (upd_buf i f t) = within l s t" "within l s (t\<lparr>idequeue := q\<rparr>) = within l s t"
  "within l s (t\<lparr>portlog := pl, ide := d\<rparr>) = within l s t" for t :: "'a dstate_scheme"
  by (simp_all add: within_def)

section \<open>Disk requests\<close>

definition ide_ready :: "'a dstate_scheme \<Rightarrow> bool" where
  "ide_ready s \<longleftrightarrow> ide_status (ide s) AND 0xC0 = 0x40 \<and> ide_status (ide s) AND 0x21 = 0"

lemma idewait_ready: "ide_ready s \<Longrightarrow> idewait chk s = Ret 0 s"
  by (simp add: idewait_def ide_ready_def)

text \<open>The task registers select the drive and the sector.\<close>

lemma low_byte: "unat (ucast (w AND 0xff) :: byte) = unat w mod 256" for w :: u32
proof -
  have "w AND 0xff = take_bit 8 w" using take_bit_eq_mask[of 8 w] by (simp add: mask_eq_exp_minus_1)
  then have "(ucast (w AND 0xff) :: byte) = ucast w" by (simp add: bit_eq_iff bit_simps)
  then show ?thesis by (simp add: unsigned_ucast_eq take_bit_eq_mod)
qed

lemma unat_drop_bit: "unat (drop_bit n w) = unat w div 2 ^ n" for w :: u32
  unfolding unat_drop_bit_eq by (rule drop_bit_eq_div)

definition drive_byte :: "u32 \<Rightarrow> u32 \<Rightarrow> byte" where
  "drive_byte dev w = ucast (0xe0 OR push_bit 4 (dev AND 1) OR (drop_bit 24 w AND 0x0f))"

lemma drive_byte_small:
  assumes "w < 1000"
  shows "drive_byte dev w = (if bit dev 0 then 0xf0 else 0xe0)"
proof -
  have "unat (drop_bit 24 w) = 0" using assms by (simp add: unat_drop_bit word_less_nat_alt)
  then have "drop_bit 24 w = 0" by (simp add: unat_eq_0)
  moreover have "dev AND 1 = (if bit dev 0 then 1 else 0)" by (simp add: and_one_eq mod2_eq_if bit_0)
  ultimately show ?thesis by (simp add: drive_byte_def)
qed

text \<open>The effect of a request on the device: registers, and the sector for a write.\<close>

definition disk_no :: "u32 \<Rightarrow> nat" where
  "disk_no dev = (if bit dev 0 then 1 else 0)"

definition ide_selected :: "u32 \<Rightarrow> u32 \<Rightarrow> byte \<Rightarrow> idedev \<Rightarrow> idedev" where
  "ide_selected dev w cmd d = d\<lparr>r_lba0 := ucast (w AND 0xff), r_lba1 := ucast (drop_bit 8 w AND 0xff),
     r_lba2 := ucast (drop_bit 16 w AND 0xff), r_drive := drive_byte dev w, r_cmd := cmd\<rparr>"

lemma ide_selected_addr:
  assumes "w < 1000"
  shows "ide_drive (ide_selected dev w cmd d) = disk_no dev"
    and "ide_lba (ide_selected dev w cmd d) = unat w"
proof -
  have w: "unat w < 1000" using assms by (simp add: word_less_nat_alt)
  show "ide_drive (ide_selected dev w cmd d) = disk_no dev"
    by (simp add: ide_drive_def ide_selected_def drive_byte_small[OF assms] disk_no_def bit_numeral_rec)
  have "unat w mod 256 + 256 * (unat w div 256 mod 256) = unat w"
  proof -
    have "unat w div 256 mod 256 = unat w div 256" using w by simp
    then show ?thesis by simp
  qed
  then show "ide_lba (ide_selected dev w cmd d) = unat w"
    using w by (simp add: ide_lba_def ide_selected_def drive_byte_small[OF assms] low_byte unat_drop_bit)
qed

lemma ide_selected_keeps [simp]:
  "disk (ide_selected dev w cmd d) = disk d" "ide_hist (ide_selected dev w cmd d) = ide_hist d"
  "ide_status (ide_selected dev w cmd d) = ide_status d"
  by (simp_all add: ide_selected_def)

definition ide_after_start :: "buf \<Rightarrow> idedev \<Rightarrow> idedev" where
  "ide_after_start k d =
     (if b_dirty k then ide_store (b_data k) (ide_selected (b_dev k) (b_blockno k) 0x30 d)
      else ide_selected (b_dev k) (b_blockno k) 0x20 d)"

lemma idestart_run:
  assumes "ide_ready s" and "b_blockno (bufs s ! b) < 1000"
  shows "\<exists>pl. idestart (Some b) s = Ret () (s\<lparr>portlog := pl, ide := ide_after_start (bufs s ! b) (ide s)\<rparr>)"
  using assms idewait_ready[OF assms(1), of False]
  by (auto simp: idestart_def FSSIZE_def not_le ide_outb_def outb_def ide_reg_def Let_def ide_after_start_def
      ide_selected_def drive_byte_def)

text \<open>The buffer after its request has been served.\<close>

definition served :: "buf \<Rightarrow> byte list \<Rightarrow> buf" where
  "served k bs = k\<lparr>b_data := (if b_dirty k then b_data k else bs), b_valid := True, b_dirty := False\<rparr>"

lemma served_fields [simp]:
  "b_busy (served k bs) = b_busy k" "b_valid (served k bs)" "\<not> b_dirty (served k bs)"
  "b_dev (served k bs) = b_dev k" "b_blockno (served k bs) = b_blockno k" "b_next (served k bs) = b_next k"
  "b_prev (served k bs) = b_prev k" "b_qnext (served k bs) = b_qnext k" "io_done (served k bs)"
  "b_data (served k bs) = (if b_dirty k then b_data k else bs)"
  by (simp_all add: served_def io_done_def)

lemma ideintr_run:
  fixes s :: "'a dstate_scheme" and b :: nat
  assumes free: "lock_free L_ide s" "lock_free L_ptable s" and wf: "cpu_wf s" and rdy: "ide_ready s"
    and q: "idequeue s = Some b" "b_qnext (bufs s ! b) = None"
    and b: "b < length (bufs s)"
  shows "\<exists>t. ideintr s = Ret () t \<and> balanced s t \<and> idequeue t = None \<and> ide t = ide s \<and>
     bufs t = (bufs s)[b := served (bufs s ! b) (ide_fetch (ide s))] \<and> havedisk1 t = havedisk1 s \<and>
     mem t = mem s \<and> dstate.more t = dstate.more s"
proof -
  let ?a = "(lock_taken L_ide s)\<lparr>idequeue := None\<rparr>"
  let ?b = "if b_dirty (bufs s ! b) then ?a else upd_buf b (\<lambda>k. k\<lparr>b_data := ide_fetch (ide s)\<rparr>) ?a"
  let ?c = "upd_buf b (\<lambda>k. k\<lparr>b_valid := True, b_dirty := False\<rparr>) ?b"
  have wc: "within L_ide s ?c" by simp
  have rdy': "ide_ready ?a" using rdy by (simp add: ide_ready_def)
  have "lock_free L_ptable ?c" using within_lock_free[OF wc] free by simp
  then have wake: "wakeup (Ch_buf b) ?c = Ret () (woken (Ch_buf b) ?c)" "balanced ?c (woken (Ch_buf b) ?c)"
    using within_cpu(1)[OF wc wf] by (simp_all add: wakeup_woken)
  have wd: "within L_ide s (woken (Ch_buf b) ?c)" using wc wake(2) by (rule within_trans)
  let ?t = "lock_dropped L_ide (woken (Ch_buf b) ?c)"
  have bufs: "bufs ?c = (bufs s)[b := served (bufs s ! b) (ide_fetch (ide s))]"
    using b by (auto simp: served_def)
  have q': "idequeue (woken (Ch_buf b) ?c) = None" by simp
  have "ideintr s = bnd (if \<not> b_dirty (bufs s ! b)
              then bnd (idewait True ?a) (\<lambda>r s.
                     Ret () (if r \<ge> 0 then upd_buf b (\<lambda>k. k\<lparr>b_data := ide_fetch (ide s)\<rparr>) s else s))
              else Ret () ?a) (\<lambda>_ s.
         let s = upd_buf b (\<lambda>k. k\<lparr>b_valid := True, b_dirty := False\<rparr>) s in
         bnd (wakeup (Ch_buf b) s) (\<lambda>_ s.
         bnd (if idequeue s \<noteq> None then idestart (idequeue s) s else Ret () s) (\<lambda>_ s.
         release L_ide s)))"
    using q free(1) by (simp add: ideintr_def acquire_free)
  also have "\<dots> = bnd (wakeup (Ch_buf b) ?c) (\<lambda>_ s.
         bnd (if idequeue s \<noteq> None then idestart (idequeue s) s else Ret () s) (\<lambda>_ s. release L_ide s))"
    by (simp add: idewait_ready[OF rdy'])
  also have "\<dots> = Ret () ?t"
    unfolding wake(1) bnd.simps using q' within_release[OF wd wf] by simp
  finally have run: "ideintr s = Ret () ?t" .
  have "balanced s ?t" using wd wf free(1) by (rule within_balanced)
  then show ?thesis using run bufs by simp
qed

definition disk_block :: "idedev \<Rightarrow> u32 \<Rightarrow> u32 \<Rightarrow> byte list" where
  "disk_block d dev w = disk d (disk_no dev) (unat w)"

lemma ide_after_start_disk:
  assumes "b_blockno k < 1000"
  shows "ide_fetch (ide_after_start k d) = (if b_dirty k then b_data k else disk_block d (b_dev k) (b_blockno k))"
    and "disk (ide_after_start k d) = (if b_dirty k
      then (disk d)(disk_no (b_dev k) := (disk d (disk_no (b_dev k)))(unat (b_blockno k) := b_data k)) else disk d)"
    and "ide_hist (ide_after_start k d) = ide_hist d @
      (if b_dirty k then [(disk_no (b_dev k), unat (b_blockno k), b_data k)] else [])"
    and "ide_status (ide_after_start k d) = ide_status d"
proof -
  have same: "ide_drive (ide_store bs e) = ide_drive e" "ide_lba (ide_store bs e) = ide_lba e" for bs e
    by (simp_all add: ide_store_def ide_drive_def ide_lba_def)
  note addr = ide_selected_addr[OF assms]
  show "ide_fetch (ide_after_start k d) = (if b_dirty k then b_data k else disk_block d (b_dev k) (b_blockno k))"
    by (simp add: ide_after_start_def ide_fetch_def same addr disk_block_def) (simp add: ide_store_def addr)
  show "disk (ide_after_start k d) = (if b_dirty k
      then (disk d)(disk_no (b_dev k) := (disk d (disk_no (b_dev k)))(unat (b_blockno k) := b_data k)) else disk d)"
    "ide_hist (ide_after_start k d) = ide_hist d @
      (if b_dirty k then [(disk_no (b_dev k), unat (b_blockno k), b_data k)] else [])"
    "ide_status (ide_after_start k d) = ide_status d"
    by (simp_all add: ide_after_start_def ide_store_def addr)
qed

text \<open>A synchronous request: what \<open>iderw\<close> does when no other request is queued.\<close>

lemma iderw_run:
  fixes s :: "'a dstate_scheme" and b :: nat
  defines "k \<equiv> bufs s ! b"
  assumes free: "lock_free L_ide s" "lock_free L_ptable s" and wf: "cpu_wf s" and rdy: "ide_ready s"
    and q: "idequeue s = None" and b: "b < length (bufs s)" and busy: "b_busy k" and todo: "\<not> io_done k"
    and dev: "b_dev k = 0 \<or> havedisk1 s" and bn: "b_blockno k < 1000"
  shows "\<exists>t. iderw b s = Ret () t \<and> balanced s t \<and> idequeue t = None \<and>
     disk (ide t) = disk (ide_after_start k (ide s)) \<and> ide_hist (ide t) = ide_hist (ide_after_start k (ide s)) \<and>
     ide_status (ide t) = ide_status (ide s) \<and> havedisk1 t = havedisk1 s \<and>
     bufs t = (bufs s)[b := served (k\<lparr>b_qnext := None\<rparr>) (disk_block (ide s) (b_dev k) (b_blockno k))] \<and>
     mem t = mem s \<and> dstate.more t = dstate.more s"
proof -
  let ?k = "k\<lparr>b_qnext := None\<rparr>"
  let ?a = "(upd_buf b (\<lambda>k. k\<lparr>b_qnext := None\<rparr>) (lock_taken L_ide s))\<lparr>idequeue := Some b\<rparr>"
  have ka: "bufs ?a ! b = ?k" using b by (simp add: k_def)
  have "ide_ready ?a" using rdy by (simp add: ide_ready_def)
  then obtain pl where start: "idestart (Some b) ?a = Ret () (?a\<lparr>portlog := pl, ide := ide_after_start ?k (ide s)\<rparr>)"
    using idestart_run[of ?a b] bn ka by auto
  let ?b = "?a\<lparr>portlog := pl, ide := ide_after_start ?k (ide s)\<rparr>"
  let ?c = "lock_dropped L_ide ?b"
  have wb: "within L_ide s ?b" by simp
  have rel: "release L_ide ?b = Ret () ?c" using wb wf by (rule within_release)
  have bal: "balanced s ?c" using wb wf free(1) by (rule within_balanced)
  have bn': "b_blockno ?k < 1000" using bn by simp
  have "lock_free L_ide ?c" "lock_free L_ptable ?c" "cpu_wf ?c" "ide_ready ?c" "idequeue ?c = Some b"
    "b_qnext (bufs ?c ! b) = None" "b < length (bufs ?c)"
    using free wf bal rdy b ide_after_start_disk(4)[OF bn', of "ide s"]
    by (simp_all add: balanced_lock_free[OF bal] balanced_cpu_wf[OF bal] ide_ready_def)
  then obtain d where d: "ideintr ?c = Ret () d" "balanced ?c d" "idequeue d = None" "ide d = ide ?c"
    "bufs d = (bufs ?c)[b := served (bufs ?c ! b) (ide_fetch (ide ?c))]" "havedisk1 d = havedisk1 ?c"
    "mem d = mem ?c" "dstate.more d = dstate.more ?c"
    using ideintr_run[of ?c b] by blast
  have bald: "balanced s d" using bal d(2) by (rule balanced_trans)
  then have fd: "lock_free L_ide d" "cpu_wf d"
    using free wf by (simp_all add: balanced_lock_free[OF bald] balanced_cpu_wf[OF bald])
  let ?e = "lock_taken L_ide d"
  have bufd: "bufs d = (bufs s)[b := served ?k (disk_block (ide s) (b_dev k) (b_blockno k))]"
    using d(5) b ide_after_start_disk(1)[OF bn', of "ide s"] by (simp add: k_def served_def)
  have done_e: "io_done (bufs ?e ! b)" and not_b: "\<not> io_done (bufs ?b ! b)"
    using bufd b todo by (simp_all add: k_def io_done_def)
  have rel_e: "release L_ide ?e = Ret () (lock_dropped L_ide ?e)" "balanced d (lock_dropped L_ide ?e)"
    using within_release[of L_ide d ?e] within_balanced[of L_ide d ?e] fd by simp_all
  have "iderw_wait (Suc (Suc NBUF)) b ?b = Ret () (lock_dropped L_ide ?e)"
    using not_b rel d(1) acquire_free[OF fd(1)] done_e rel_e(1) by simp
  then have "iderw b s = Ret () (lock_dropped L_ide ?e)"
    using busy todo dev free(1) q start b
    by (simp add: iderw_def k_def[symmetric] acquire_free enqueue_def Let_def)
  moreover have "balanced s (lock_dropped L_ide ?e)" using bald rel_e(2) by (rule balanced_trans)
  ultimately show ?thesis
    using d bufd ide_after_start_disk[OF bn', of "ide s"] ide_after_start_disk[OF bn, of "ide s"]
    by simp
qed

end
