(* ===== verification/Layout.thy ===== *)
theory Layout
  imports Prelude
begin

text \<open>
  The on-disk format of \<open>fs.h\<close>: the superblock, inodes, directory entries and the log
  header as records, with the little-endian byte layout the C structures have, and the
  round trips between the two.  Blocks are lists of bytes.
\<close>

section \<open>Constants\<close>

definition ROOTINO :: u32 where "ROOTINO = 1"
definition ROOTDEV :: u32 where "ROOTDEV = 1"
definition NDIRECT :: nat where "NDIRECT = 12"
definition NINDIRECT :: nat where "NINDIRECT = 128"
definition MAXFILE :: nat where "MAXFILE = NDIRECT + NINDIRECT"
definition IPB :: nat where "IPB = 8"
definition BPB :: nat where "BPB = 4096"
definition DIRSIZ :: nat where "DIRSIZ = 14"
definition LOGSIZE :: nat where "LOGSIZE = 30"
definition MAXOPBLOCKS :: nat where "MAXOPBLOCKS = 10"
definition T_DIR :: u16 where "T_DIR = 1"
definition T_FILE :: u16 where "T_FILE = 2"
definition T_DEV :: u16 where "T_DEV = 3"

definition IBLOCK :: "u32 \<Rightarrow> u32" where
  "IBLOCK i = i div of_nat IPB + 2"

definition BBLOCK :: "u32 \<Rightarrow> u32 \<Rightarrow> u32" where
  "BBLOCK b ninodes = b div of_nat BPB + ninodes div of_nat IPB + 3"

section \<open>Fields of byte lists\<close>

text \<open>A copy of \<open>src\<close> into \<open>bs\<close> at offset \<open>i\<close>, as \<open>memmove\<close> does it.\<close>

definition blit :: "byte list \<Rightarrow> nat \<Rightarrow> byte list \<Rightarrow> byte list" where
  "blit bs i src = take i bs @ src @ drop (i + length src) bs"

definition bytes16 :: "u16 \<Rightarrow> byte list" where
  "bytes16 v = [ucast v, ucast (drop_bit 8 v)]"

definition bytes32 :: "u32 \<Rightarrow> byte list" where
  "bytes32 v = [ucast v, ucast (drop_bit 8 v), ucast (drop_bit 16 v), ucast (drop_bit 24 v)]"

definition get16 :: "byte list \<Rightarrow> nat \<Rightarrow> u16" where
  "get16 bs i = ucast (bs ! i) OR push_bit 8 (ucast (bs ! (i + 1)))"

definition get32 :: "byte list \<Rightarrow> nat \<Rightarrow> u32" where
  "get32 bs i = ucast (bs ! i) OR push_bit 8 (ucast (bs ! (i + 1))) OR
     push_bit 16 (ucast (bs ! (i + 2))) OR push_bit 24 (ucast (bs ! (i + 3)))"

section \<open>The structures\<close>

record superblock =
  sb_size :: u32
  sb_nblocks :: u32
  sb_ninodes :: u32
  sb_nlog :: u32

definition superblock_of :: "byte list \<Rightarrow> superblock" where
  "superblock_of bs = \<lparr>sb_size = get32 bs 0, sb_nblocks = get32 bs 4, sb_ninodes = get32 bs 8,
     sb_nlog = get32 bs 12\<rparr>"

record dinode =
  di_type :: u16
  di_major :: u16
  di_minor :: u16
  di_nlink :: u16
  di_size :: u32
  di_addrs :: "u32 list"

text \<open>The size of a \<open>struct dinode\<close>: eight bytes of shorts, the size, thirteen addresses.\<close>

definition DINODE :: nat where "DINODE = 64"

definition dinode_at :: "byte list \<Rightarrow> nat \<Rightarrow> dinode" where
  "dinode_at bs p = \<lparr>di_type = get16 bs p, di_major = get16 bs (p + 2), di_minor = get16 bs (p + 4),
     di_nlink = get16 bs (p + 6), di_size = get32 bs (p + 8),
     di_addrs = map (\<lambda>i. get32 bs (p + 12 + 4 * i)) [0..<NDIRECT + 1]\<rparr>"

definition dinode_bytes :: "dinode \<Rightarrow> byte list" where
  "dinode_bytes d = bytes16 (di_type d) @ bytes16 (di_major d) @ bytes16 (di_minor d) @
     bytes16 (di_nlink d) @ bytes32 (di_size d) @ concat (map bytes32 (di_addrs d))"

record dirent =
  de_inum :: u16
  de_name :: "byte list"

definition dirent_of :: "byte list \<Rightarrow> dirent" where
  "dirent_of bs = \<lparr>de_inum = get16 bs 0, de_name = take DIRSIZ (drop 2 bs)\<rparr>"

definition dirent_bytes :: "dirent \<Rightarrow> byte list" where
  "dirent_bytes d = bytes16 (de_inum d) @ de_name d"

section \<open>Round trips\<close>

lemma length_bytes [simp]: "length (bytes16 v) = 2" "length (bytes32 w) = 4"
  by (simp_all add: bytes16_def bytes32_def)

lemma length_blit [simp]: "i + length src \<le> length bs \<Longrightarrow> length (blit bs i src) = length bs"
  by (simp add: blit_def)

lemma get16_append:
  "i + 1 < length xs \<Longrightarrow> get16 (xs @ ys) i = get16 xs i"
  "get16 (xs @ ys) (length xs + i) = get16 ys i"
  by (simp_all add: get16_def nth_append)

lemma get32_append:
  "i + 3 < length xs \<Longrightarrow> get32 (xs @ ys) i = get32 xs i"
  "get32 (xs @ ys) (length xs + i) = get32 ys i"
  by (simp_all add: get32_def nth_append)

lemma get16_bytes16 [simp]: "get16 (bytes16 v) 0 = v"
proof (rule bit_word_eqI)
  fix n assume "n < LENGTH(16)"
  then consider "n < 8" | "8 \<le> n" "n < 16" by force
  then show "bit (get16 (bytes16 v) 0) n \<longleftrightarrow> bit v n"
    by cases (auto simp: get16_def bytes16_def bit_simps)
qed

lemma get32_bytes32 [simp]: "get32 (bytes32 v) 0 = v"
proof (rule bit_word_eqI)
  fix n assume "n < LENGTH(32)"
  then consider "n < 8" | "8 \<le> n" "n < 16" | "16 \<le> n" "n < 24" | "24 \<le> n" "n < 32"
    by force
  then show "bit (get32 (bytes32 v) 0) n \<longleftrightarrow> bit v n"
    by cases (auto simp: get32_def bytes32_def numeral_2_eq_2 numeral_3_eq_3 bit_simps)
qed

text \<open>A field inside a longer list: what stands before it has the length of the offset.\<close>

lemma get16_at: "length xs = i \<Longrightarrow> get16 (xs @ bytes16 v @ ys) i = v"
  using get16_append(2)[of xs "bytes16 v @ ys" 0] get16_append(1)[of 0 "bytes16 v" ys] by simp

lemma get32_at: "length xs = i \<Longrightarrow> get32 (xs @ bytes32 v @ ys) i = v"
  using get32_append(2)[of xs "bytes32 v @ ys" 0] get32_append(1)[of 0 "bytes32 v" ys] by simp

lemma get32_concat:
  "i < length ws \<Longrightarrow> length xs = p \<Longrightarrow>
   get32 (xs @ concat (map bytes32 ws) @ ys) (p + 4 * i) = ws ! i"
proof (induction ws arbitrary: i xs p)
  case (Cons w ws)
  show ?case
  proof (cases i)
    case 0
    then show ?thesis using get32_at[OF Cons.prems(2), of w] by simp
  next
    case (Suc k)
    then have "get32 ((xs @ bytes32 w) @ concat (map bytes32 ws) @ ys) (p + 4 + 4 * k) = ws ! k"
      using Cons.prems by (intro Cons.IH) auto
    then show ?thesis using Suc by (simp add: add.assoc)
  qed
qed simp

lemma length_concat_bytes32 [simp]: "length (concat (map bytes32 ws)) = 4 * length ws"
  by (induction ws) auto

lemma length_dinode_bytes [simp]:
  "length (di_addrs d) = NDIRECT + 1 \<Longrightarrow> length (dinode_bytes d) = DINODE"
  by (simp add: dinode_bytes_def DINODE_def NDIRECT_def)

text \<open>An inode is read from the 64 bytes at its offset and from no others.\<close>

lemma dinode_at_cong:
  assumes "\<And>k. k < DINODE \<Longrightarrow> a ! (p + k) = b ! (q + k)"
  shows "dinode_at a p = dinode_at b q"
proof -
  have g16: "get16 a (p + k) = get16 b (q + k)" if "k + 1 < DINODE" for k
    using assms[of k] assms[of "k + 1"] that by (simp add: get16_def)
  have g32: "get32 a (p + k) = get32 b (q + k)" if "k + 3 < DINODE" for k
    using assms[of k] assms[of "k + 1"] assms[of "k + 2"] assms[of "k + 3"] that
    by (simp add: get32_def add.assoc)
  have "get32 a (p + 12 + 4 * i) = get32 b (q + 12 + 4 * i)" if "i < NDIRECT + 1" for i
    using g32[of "12 + 4 * i"] that by (simp add: DINODE_def NDIRECT_def add.assoc)
  moreover have "get16 a p = get16 b q" "get16 a (p + 2) = get16 b (q + 2)"
    "get16 a (p + 4) = get16 b (q + 4)" "get16 a (p + 6) = get16 b (q + 6)"
    "get32 a (p + 8) = get32 b (q + 8)"
    using g16[of 0] g16[of 2] g16[of 4] g16[of 6] g32[of 8] by (simp_all add: DINODE_def)
  ultimately show ?thesis by (auto simp: dinode_at_def)
qed

lemma dinode_at_shift: "length xs = p \<Longrightarrow> dinode_at (xs @ ys) p = dinode_at ys 0"
  by (rule dinode_at_cong) (simp add: nth_append)

lemma dinode_at_bytes:
  assumes "length (di_addrs d) = NDIRECT + 1"
  shows "dinode_at (dinode_bytes d @ ys) 0 = d"
proof -
  let ?h = "bytes16 (di_type d) @ bytes16 (di_major d) @ bytes16 (di_minor d) @ bytes16 (di_nlink d) @
    bytes32 (di_size d)"
  have fields: "get16 (dinode_bytes d @ ys) 0 = di_type d" "get16 (dinode_bytes d @ ys) 2 = di_major d"
    "get16 (dinode_bytes d @ ys) 4 = di_minor d" "get16 (dinode_bytes d @ ys) 6 = di_nlink d"
    "get32 (dinode_bytes d @ ys) 8 = di_size d"
    using get16_at[of "[]" 0 "di_type d"] get16_at[of "bytes16 (di_type d)" 2 "di_major d"]
      get16_at[of "bytes16 (di_type d) @ bytes16 (di_major d)" 4 "di_minor d"]
      get16_at[of "bytes16 (di_type d) @ bytes16 (di_major d) @ bytes16 (di_minor d)" 6 "di_nlink d"]
      get32_at[of "bytes16 (di_type d) @ bytes16 (di_major d) @ bytes16 (di_minor d) @ bytes16 (di_nlink d)"
        8 "di_size d"]
    by (simp_all add: dinode_bytes_def)
  have "get32 (dinode_bytes d @ ys) (12 + 4 * i) = di_addrs d ! i" if "i < NDIRECT + 1" for i
    using get32_concat[of i "di_addrs d" ?h 12 ys] that assms by (simp add: dinode_bytes_def)
  then have "map (\<lambda>i. get32 (dinode_bytes d @ ys) (12 + 4 * i)) [0..<NDIRECT + 1] = di_addrs d"
    using assms by (intro nth_equalityI) (auto simp del: upt_Suc)
  then show ?thesis using fields by (simp add: dinode_at_def flip: numeral_2_eq_2)
qed

lemma dinode_at_blit:
  assumes "length (di_addrs d) = NDIRECT + 1" and "p + DINODE \<le> length bs"
  shows "dinode_at (blit bs p (dinode_bytes d)) p = d"
proof -
  have "length (take p bs) = p" using assms(2) by (simp add: DINODE_def)
  then show ?thesis
    using dinode_at_shift[of "take p bs"] dinode_at_bytes[OF assms(1)] by (simp add: blit_def)
qed

lemma nth_blit_other:
  "j < i \<or> i + length src \<le> j \<Longrightarrow> i + length src \<le> length bs \<Longrightarrow> blit bs i src ! j = bs ! j"
  by (cases src) (auto simp: blit_def nth_append min_def)

lemma dinode_at_blit_other:
  assumes "p + DINODE \<le> p' \<or> p' + DINODE \<le> p" and "length (di_addrs d) = NDIRECT + 1"
    and "p + DINODE \<le> length bs"
  shows "dinode_at (blit bs p (dinode_bytes d)) p' = dinode_at bs p'"
  using assms by (intro dinode_at_cong nth_blit_other) (auto simp: DINODE_def)

lemma dirent_round_trip: "length (de_name d) = DIRSIZ \<Longrightarrow> dirent_of (dirent_bytes d) = d"
  using get16_at[of "[]" 0 "de_inum d" "de_name d"] by (simp add: dirent_of_def dirent_bytes_def)



end
