(* ===== verification/Bcache.thy ===== *)
theory Bcache
  imports Bio Layout
begin

text \<open>
  What the buffer cache promises.  The cache is seen through four functions of the buffers
  and the disk: what a block holds for its users (\<open>seen\<close>), which buffers are locked and
  for which block (\<open>held\<close>), which blocks must not be recycled (\<open>pinned\<close>), and what the
  disk has (the device's own \<open>disk\<close>).  The invariant \<open>bc_inv\<close> ties them together, and
  \<open>bread\<close>, \<open>bwrite\<close> and \<open>brelse\<close> are shown to act on them in the obvious way.  The
  locale \<open>block_cache\<close> is this contract; it is interpreted by the routines of \<open>bio.c\<close>.
\<close>

section \<open>The view of the cache\<close>

type_synonym key = "nat \<times> nat"

definition bkey :: "buf \<Rightarrow> key" where
  "bkey k = (disk_no (b_dev k), unat (b_blockno k))"

definition live :: "buf list \<Rightarrow> nat \<Rightarrow> bool" where
  "live bs i \<longleftrightarrow> i < NBUF \<and> b_dev (bs ! i) \<noteq> - 1"

definition slot :: "buf list \<Rightarrow> key \<Rightarrow> nat option" where
  "slot bs q = find (\<lambda>i. live bs i \<and> bkey (bs ! i) = q) [0..<NBUF]"

definition on_disk :: "idedev \<Rightarrow> key \<Rightarrow> byte list" where
  "on_disk d q = disk d (fst q) (snd q)"

definition seen :: "buf list \<Rightarrow> idedev \<Rightarrow> key \<Rightarrow> byte list" where
  "seen bs d q = (case slot bs q of None \<Rightarrow> on_disk d q | Some i \<Rightarrow> b_data (bs ! i))"

definition held :: "buf list \<Rightarrow> nat \<Rightarrow> key option" where
  "held bs i = (if i < NBUF \<and> b_busy (bs ! i) then Some (bkey (bs ! i)) else None)"

definition pinned :: "buf list \<Rightarrow> key set" where
  "pinned bs = (\<lambda>i. bkey (bs ! i)) ` {i. i < NBUF \<and> b_dirty (bs ! i)}"

section \<open>The invariant\<close>

text \<open>A buffer that has a block: it is valid, and what it holds is on the disk unless it is in use.\<close>

definition buf_ok :: "idedev \<Rightarrow> buf \<Rightarrow> bool" where
  "buf_ok d k \<longleftrightarrow>
     (if b_dev k = - 1 then \<not> b_busy k \<and> \<not> b_dirty k
      else b_dev k < 2 \<and> b_blockno k < 1000 \<and> b_valid k \<and> length (b_data k) = BSIZE \<and>
        (\<not> b_busy k \<and> \<not> b_dirty k \<longrightarrow> b_data k = on_disk d (bkey k)))"

definition bc_data :: "buf list \<Rightarrow> idedev \<Rightarrow> bool" where
  "bc_data bs d \<longleftrightarrow> length bs = Suc NBUF \<and> (\<forall>i < NBUF. buf_ok d (bs ! i)) \<and>
     inj_on (\<lambda>i. bkey (bs ! i)) {i. live bs i} \<and>
     (\<forall>q. fst q < 2 \<and> snd q < 1000 \<longrightarrow> length (on_disk d q) = BSIZE)"

definition bc_ready :: "'a dstate_scheme \<Rightarrow> bool" where
  "bc_ready s \<longleftrightarrow> lock_free L_bcache s \<and> lock_free L_ide s \<and> lock_free L_ptable s \<and> cpu_wf s \<and>
     ide_ready s \<and> idequeue s = None \<and> havedisk1 s"

definition bc_inv :: "'a dstate_scheme \<Rightarrow> bool" where
  "bc_inv s \<longleftrightarrow> bc_data (bufs s) (ide s) \<and> bc_ready s \<and>
     (\<exists>xs. mru_order (bufs s) xs \<and> set xs = {..<NBUF})"

text \<open>There is a buffer for one more block.\<close>

definition room :: "buf list \<Rightarrow> bool" where
  "room bs \<longleftrightarrow> card (ran (held bs) \<union> pinned bs) < NBUF"

section \<open>Looking up blocks\<close>

lemma disk_no_small:
  assumes "dev < 2"
  shows "disk_no dev = unat dev"
proof -
  have "unat dev = 0 \<or> unat dev = 1" using assms by (simp add: word_less_nat_alt) arith
  then have "dev = 0 \<or> dev = 1" by (auto simp: word_unat_eq_iff)
  then show ?thesis by (auto simp: disk_no_def)
qed

lemma bkey_eq_iff:
  assumes "b_dev k < 2" and "dev < 2"
  shows "bkey k = (unat dev, unat bn) \<longleftrightarrow> b_dev k = dev \<and> b_blockno k = bn"
  using assms by (simp add: bkey_def disk_no_small word_unat_eq_iff)

lemma slot_Some: "slot bs q = Some i \<Longrightarrow> live bs i \<and> bkey (bs ! i) = q"
  by (auto simp: slot_def find_Some_iff)

lemma slot_None: "slot bs q = None \<longleftrightarrow> (\<forall>i. live bs i \<longrightarrow> bkey (bs ! i) \<noteq> q)"
  by (auto simp: slot_def find_None_iff live_def)

lemma slot_live:
  assumes "bc_data bs d" and "live bs i"
  shows "slot bs (bkey (bs ! i)) = Some i"
proof -
  have "slot bs (bkey (bs ! i)) \<noteq> None" using assms(2) by (auto simp: slot_None)
  then obtain j where j: "slot bs (bkey (bs ! i)) = Some j" by auto
  then have "live bs j \<and> bkey (bs ! j) = bkey (bs ! i)" by (rule slot_Some)
  then have "j = i" using assms by (auto simp: bc_data_def dest: inj_onD)
  then show ?thesis using j by simp
qed

lemma seen_live: "bc_data bs d \<Longrightarrow> live bs i \<Longrightarrow> seen bs d (bkey (bs ! i)) = b_data (bs ! i)"
  by (simp add: seen_def slot_live)

lemma bc_data_live:
  assumes "bc_data bs d" and "live bs i"
  shows "b_dev (bs ! i) < 2" "b_blockno (bs ! i) < 1000" "b_valid (bs ! i)" "length (b_data (bs ! i)) = BSIZE"
    and "\<not> b_busy (bs ! i) \<Longrightarrow> \<not> b_dirty (bs ! i) \<Longrightarrow> b_data (bs ! i) = on_disk d (bkey (bs ! i))"
  using assms by (auto simp: bc_data_def buf_ok_def live_def)

lemma busy_live: "bc_data bs d \<Longrightarrow> i < NBUF \<Longrightarrow> b_busy (bs ! i) \<or> b_dirty (bs ! i) \<Longrightarrow> live bs i"
  by (auto simp: bc_data_def buf_ok_def live_def)

lemma seen_idle:
  assumes "bc_data bs d" and "q \<notin> ran (held bs)" and "q \<notin> pinned bs"
  shows "seen bs d q = on_disk d q"
proof (cases "slot bs q")
  case (Some i)
  then have i: "live bs i" "bkey (bs ! i) = q" by (auto dest: slot_Some)
  then have "held bs i = None" using assms(2) by (auto simp: held_def ran_def live_def split: if_splits)
  then have "\<not> b_busy (bs ! i)" using i by (auto simp: held_def live_def split: if_splits)
  moreover have "\<not> b_dirty (bs ! i)" using assms(3) i by (auto simp: pinned_def live_def)
  ultimately show ?thesis using bc_data_live(5)[OF assms(1) i(1)] Some i by (simp add: seen_def)
qed (simp add: seen_def)

lemma length_seen:
  assumes "bc_data bs d" and "fst q < 2" and "snd q < 1000"
  shows "length (seen bs d q) = BSIZE"
proof (cases "slot bs q")
  case None
  then show ?thesis using assms by (cases q) (simp add: seen_def bc_data_def)
next
  case (Some i)
  then show ?thesis using bc_data_live(4)[OF assms(1), of i] slot_Some[OF Some] by (simp add: seen_def)
qed

text \<open>A buffer to recycle: there is one as long as not every buffer is locked or pinned.\<close>

lemma recyclable_exists:
  assumes "bc_data bs d" and "room bs"
  shows "\<exists>i < NBUF. recyclable (bs ! i)"
proof (rule ccontr)
  assume none: "\<not> (\<exists>i < NBUF. recyclable (bs ! i))"
  let ?key = "\<lambda>i. bkey (bs ! i)"
  have all: "live bs i" if "i < NBUF" for i
    using busy_live[OF assms(1) that] none that by (auto simp: recyclable_def)
  have "?key i \<in> ran (held bs) \<union> pinned bs" if "i < NBUF" for i
    using none that by (auto simp: recyclable_def held_def ran_def pinned_def)
  then have sub: "?key ` {..<NBUF} \<subseteq> ran (held bs) \<union> pinned bs" by blast
  have "q \<in> ?key ` {..<NBUF}" if "q \<in> ran (held bs) \<union> pinned bs" for q
    using that by (auto simp: held_def ran_def pinned_def split: if_splits)
  then have "ran (held bs) \<union> pinned bs \<subseteq> ?key ` {..<NBUF}" by blast
  then have "finite (ran (held bs) \<union> pinned bs)" by (rule finite_subset) simp
  moreover have "inj_on ?key {..<NBUF}"
    using assms(1) all by (auto simp: bc_data_def intro: inj_on_subset)
  ultimately have "NBUF \<le> card (ran (held bs) \<union> pinned bs)"
    using card_mono[OF _ sub] by (simp add: card_image)
  then show False using assms(2) by (simp add: room_def)
qed

section \<open>Changing one buffer\<close>

text \<open>
  A buffer takes over a block: it already has it, or no buffer has it and the buffer is idle
  and clean.  Nothing that users see changes.
\<close>

lemma take_over:
  assumes inv: "bc_data bs d" and i: "i < NBUF" and k: "b_dev k < 2" "b_blockno k < 1000" "b_valid k" "b_busy k"
    and data: "b_data k = seen bs d (bkey k)"
    and old: "live bs i \<and> bkey (bs ! i) = bkey k \<and> b_dirty k = b_dirty (bs ! i) \<or>
              slot bs (bkey k) = None \<and> recyclable (bs ! i) \<and> \<not> b_dirty k"
    and idle: "\<not> b_busy (bs ! i)"
  shows "bc_data (bs[i := k]) d" and "seen (bs[i := k]) d = seen bs d"
    and "held (bs[i := k]) = (held bs)(i \<mapsto> bkey k)" and "pinned (bs[i := k]) = pinned bs"
proof -
  let ?bs = "bs[i := k]"
  have len: "length bs = Suc NBUF" using inv by (simp add: bc_data_def)
  have il: "i < length bs" using i len by simp
  have kd: "b_dev k \<noteq> - 1" using k(1) by auto
  have nth: "?bs ! j = (if j = i then k else bs ! j)" for j using il by (simp add: nth_list_update)
  have uniq: "j = i" if "live bs j" "bkey (bs ! j) = bkey k" for j
  proof -
    have "slot bs (bkey k) = Some j" using slot_live[OF inv that(1)] that(2) by simp
    moreover have "slot bs (bkey k) = Some i \<or> slot bs (bkey k) = None"
      using old slot_live[OF inv, of i] by (elim disjE conjE) simp_all
    ultimately show ?thesis by simp
  qed
  have lv: "live ?bs j \<longleftrightarrow> live bs j \<or> j = i" for j using i kd by (auto simp: live_def nth)
  have ks: "fst (bkey k) < 2" "snd (bkey k) < 1000"
    using k by (simp_all add: bkey_def disk_no_def word_less_nat_alt)
  have "length (b_data k) = BSIZE" unfolding data using length_seen[OF inv ks] .
  then have "buf_ok d k" using k kd by (simp add: buf_ok_def)
  then have "\<forall>j < NBUF. buf_ok d (?bs ! j)" using inv by (simp add: bc_data_def nth)
  moreover have "inj_on (\<lambda>j. bkey (?bs ! j)) {j. live ?bs j}"
  proof (rule inj_onI)
    fix a b
    assume ab: "a \<in> {j. live ?bs j}" "b \<in> {j. live ?bs j}" "bkey (?bs ! a) = bkey (?bs ! b)"
    have inj: "inj_on (\<lambda>j. bkey (bs ! j)) {j. live bs j}" using inv by (simp add: bc_data_def)
    show "a = b"
    proof (cases "a = i \<or> b = i")
      case True
      then show ?thesis using ab uniq[of a] uniq[of b] by (auto simp: lv nth split: if_splits)
    next
      case False
      then show ?thesis using ab inj_onD[OF inj, of a b] by (simp add: lv nth)
    qed
  qed
  ultimately show inv': "bc_data ?bs d" using inv by (simp add: bc_data_def)
  show "seen ?bs d = seen bs d"
  proof
    fix q
    show "seen ?bs d q = seen bs d q"
    proof (cases "q = bkey k")
      case True
      have "slot ?bs (bkey k) = Some i" using slot_live[OF inv', of i] lv[of i] nth by simp
      then show ?thesis using data True nth by (simp add: seen_def)
    next
      case False
      have *: "live ?bs j \<and> bkey (?bs ! j) = q \<longleftrightarrow> (live bs j \<and> bkey (bs ! j) = q) \<and> j \<noteq> i" for j
        using False by (auto simp: lv nth)
      show ?thesis
      proof (cases "slot ?bs q")
        case (Some j)
        then have j: "live bs j" "bkey (bs ! j) = q" "j \<noteq> i" using slot_Some[OF Some] * by auto
        then show ?thesis using Some slot_live[OF inv j(1)] by (simp add: seen_def nth)
      next
        case None
        show ?thesis
        proof (cases "slot bs q")
          case None
          then show ?thesis using \<open>slot ?bs q = None\<close> by (simp add: seen_def)
        next
          case (Some j)
          then have j: "live bs j" "bkey (bs ! j) = q" using slot_Some by auto
          then have "j = i" using \<open>slot ?bs q = None\<close> * by (auto simp: slot_None)
          then have "recyclable (bs ! i)" using old j False by auto
          then have "b_data (bs ! i) = on_disk d q"
            using bc_data_live(5)[OF inv j(1)] j \<open>j = i\<close> by (auto simp: recyclable_def)
          then show ?thesis using \<open>slot ?bs q = None\<close> Some \<open>j = i\<close> by (simp add: seen_def)
        qed
      qed
    qed
  qed
  show "held ?bs = (held bs)(i \<mapsto> bkey k)" using i k(4) by (auto simp: held_def fun_eq_iff nth)
  have "b_dirty (?bs ! j) = b_dirty (bs ! j)" "b_dirty (?bs ! j) \<Longrightarrow> bkey (?bs ! j) = bkey (bs ! j)" for j
    using old by (cases "j = i"; force simp: nth recyclable_def)+
  then show "pinned ?bs = pinned bs" unfolding pinned_def by (intro image_cong) auto
qed

section \<open>Reading a block\<close>

lemma disk_cong:
  assumes "disk d' = disk d"
  shows "bc_data bs d' = bc_data bs d" "seen bs d' = seen bs d" "on_disk d' = on_disk d"
proof -
  show od: "on_disk d' = on_disk d" using assms by (simp add: on_disk_def fun_eq_iff)
  have "buf_ok d' = buf_ok d" unfolding buf_ok_def od ..
  then show "bc_data bs d' = bc_data bs d" "seen bs d' = seen bs d"
    unfolding bc_data_def seen_def od by simp_all
qed

lemma bc_ready_balanced:
  assumes "bc_ready s" and "balanced s t" and "idequeue t = None" and "ide_status (ide t) = ide_status (ide s)"
    and "havedisk1 t = havedisk1 s"
  shows "bc_ready t"
  using assms by (simp add: bc_ready_def balanced_lock_free balanced_cpu_wf ide_ready_def)

lemma find_holds:
  assumes "bc_data bs d" and "set xs = {..<NBUF}" and "dev < 2"
  shows "find (\<lambda>i. holds_block dev bn (bs ! i)) xs = slot bs (unat dev, unat bn)"
proof -
  let ?q = "(unat dev, unat bn)"
  have iff: "holds_block dev bn (bs ! i) \<longleftrightarrow> live bs i \<and> bkey (bs ! i) = ?q" if "i < NBUF" for i
  proof (cases "b_dev (bs ! i) = - 1")
    case True
    have "dev \<noteq> - 1" using assms(3) by auto
    then show ?thesis using True by (auto simp: holds_block_def live_def)
  next
    case False
    then have lv: "live bs i" using that by (simp add: live_def)
    then show ?thesis
      using bkey_eq_iff[OF bc_data_live(1)[OF assms(1) lv] assms(3)] by (simp add: holds_block_def)
  qed
  show ?thesis
  proof (cases "slot bs ?q")
    case None
    then have "find (\<lambda>i. holds_block dev bn (bs ! i)) xs = None"
      using iff assms(2) by (auto simp: find_None_iff slot_None)
    then show ?thesis using None by simp
  next
    case (Some i)
    then have i: "live bs i" "bkey (bs ! i) = ?q" by (auto dest: slot_Some)
    then have "i \<in> set xs" "holds_block dev bn (bs ! i)" using iff assms(2) by (auto simp: live_def)
    then obtain j where j: "find (\<lambda>i. holds_block dev bn (bs ! i)) xs = Some j"
      by (cases "find (\<lambda>i. holds_block dev bn (bs ! i)) xs") (auto simp: find_None_iff)
    then have "j \<in> set xs" "holds_block dev bn (bs ! j)" by (auto simp: find_Some_iff)
    then have "live bs j" "bkey (bs ! j) = ?q" using iff assms(2) by auto
    then have "j = i" using slot_live[OF assms(1), of j] Some by simp
    then show ?thesis using j Some by simp
  qed
qed

text \<open>\<open>bget\<close> locks the buffer of the block, or recycles one.\<close>

definition got :: "nat \<Rightarrow> buf \<Rightarrow> 'a dstate_scheme \<Rightarrow> 'a dstate_scheme" where
  "got i k s = lock_dropped L_bcache (upd_buf i (\<lambda>_. k) (lock_taken L_bcache s))"

lemma got_fields [simp]:
  "bufs (got i k s) = (bufs s)[i := k]" "idequeue (got i k s) = idequeue s" "ide (got i k s) = ide s"
  "havedisk1 (got i k s) = havedisk1 s" "mem (got i k s) = mem s" "dstate.more (got i k s) = dstate.more s"
  by (simp_all add: got_def)

lemma got_run:
  assumes "lock_free L_bcache s" and "cpu_wf s"
  shows "release L_bcache (upd_buf i (\<lambda>_. k) (lock_taken L_bcache s)) = Ret () (got i k s)"
    and "balanced s (got i k s)"
proof -
  have w: "within L_bcache s (upd_buf i (\<lambda>_. k) (lock_taken L_bcache s))" by simp
  show "release L_bcache (upd_buf i (\<lambda>_. k) (lock_taken L_bcache s)) = Ret () (got i k s)"
    using within_release[OF w assms(2)] by (simp add: got_def)
  show "balanced s (got i k s)" using within_balanced[OF w assms(2,1)] by (simp add: got_def)
qed

lemma slot_pinned:
  assumes "bc_data bs d" and "q \<in> pinned bs"
  shows "slot bs q \<noteq> None"
proof -
  obtain i where "i < NBUF" "b_dirty (bs ! i)" "bkey (bs ! i) = q" using assms(2) by (auto simp: pinned_def)
  then show ?thesis using busy_live[OF assms(1), of i] by (auto simp: slot_None)
qed

lemma bget_run:
  fixes s :: "'a dstate_scheme" and dev bn :: u32
  defines "q \<equiv> (unat dev, unat bn)"
  assumes inv: "bc_inv s" and dev: "dev < 2" and idle: "q \<notin> ran (held (bufs s))"
    and room: "q \<in> pinned (bufs s) \<or> room (bufs s)"
  shows "\<exists>i k. bget dev bn s = Ret i (got i k s) \<and> i < NBUF \<and> balanced s (got i k s) \<and>
     \<not> b_busy (bufs s ! i) \<and>
     (slot (bufs s) q = Some i \<and> k = (bufs s ! i)\<lparr>b_busy := True\<rparr> \<or>
      slot (bufs s) q = None \<and> recyclable (bufs s ! i) \<and>
      k = (bufs s ! i)\<lparr>b_dev := dev, b_blockno := bn, b_busy := True, b_valid := False, b_dirty := False\<rparr>)"
proof -
  from inv obtain xs where xs: "mru_order (bufs s) xs" "set xs = {..<NBUF}" and data: "bc_data (bufs s) (ide s)"
    and rdy: "bc_ready s" by (auto simp: bc_inv_def)
  have free: "lock_free L_bcache s" "cpu_wf s" using rdy by (simp_all add: bc_ready_def)
  note walks = mru_order_walks[OF xs(1)]
  have fnd: "find (\<lambda>i. holds_block dev bn (bufs s ! i)) xs = slot (bufs s) q"
    using find_holds[OF data xs(2) dev] by (simp add: q_def)
  note run = got_run[OF free]
  show ?thesis
  proof (cases "slot (bufs s) q")
    case (Some i)
    then have i: "live (bufs s) i" "bkey (bufs s ! i) = q" by (auto dest: slot_Some)
    then have nb: "\<not> b_busy (bufs s ! i)" "i < NBUF"
      using idle by (auto simp: ran_def held_def live_def split: if_splits)
    let ?k = "(bufs s ! i)\<lparr>b_busy := True\<rparr>"
    have "upd_buf i (\<lambda>k. k\<lparr>b_busy := True\<rparr>) (lock_taken L_bcache s) = upd_buf i (\<lambda>_. ?k) (lock_taken L_bcache s)"
      by (simp add: upd_buf_def)
    then have "bget dev bn s = Ret i (got i ?k s)"
      using fnd Some nb walks free run(1)[of i ?k] by (simp add: bget_def acquire_free bget_loop_def)
    then show ?thesis using Some nb run(2) by blast
  next
    case None
    then have "q \<notin> pinned (bufs s)" using slot_pinned[OF data] by blast
    then obtain j where j: "j < NBUF" "recyclable (bufs s ! j)" using recyclable_exists[OF data] room by blast
    then obtain i where i: "find (\<lambda>i. recyclable (bufs s ! i)) (rev xs) = Some i"
      using xs(2) by (cases "find (\<lambda>i. recyclable (bufs s ! i)) (rev xs)") (auto simp: find_None_iff)
    then have "i \<in> set (rev xs)" and rec: "recyclable (bufs s ! i)"
      by (auto simp: find_Some_iff simp del: set_rev intro!: nth_mem)
    then have il: "i < NBUF" using xs(2) by simp
    let ?k = "(bufs s ! i)\<lparr>b_dev := dev, b_blockno := bn, b_busy := True, b_valid := False, b_dirty := False\<rparr>"
    have "upd_buf i (\<lambda>k. k\<lparr>b_dev := dev, b_blockno := bn, b_busy := True, b_valid := False, b_dirty := False\<rparr>)
        (lock_taken L_bcache s) = upd_buf i (\<lambda>_. ?k) (lock_taken L_bcache s)" by (simp add: upd_buf_def)
    then have "bget dev bn s = Ret i (got i ?k s)"
      using fnd None i walks free run(1)[of i ?k] by (simp add: bget_def acquire_free bget_loop_def)
    moreover have "\<not> b_busy (bufs s ! i)" using rec by (simp add: recyclable_def)
    ultimately show ?thesis using None il rec run(2) by blast
  qed
qed

lemma bread_run:
  fixes s :: "'a dstate_scheme" and dev bn :: u32
  defines "q \<equiv> (unat dev, unat bn)"
  assumes inv: "bc_inv s" and dev: "dev < 2" and bn: "bn < 1000" and idle: "q \<notin> ran (held (bufs s))"
    and room: "q \<in> pinned (bufs s) \<or> room (bufs s)"
  shows "\<exists>i t. bread dev bn s = Ret i t \<and> bc_inv t \<and> held (bufs s) i = None \<and>
     held (bufs t) = (held (bufs s))(i \<mapsto> q) \<and> seen (bufs t) (ide t) = seen (bufs s) (ide s) \<and>
     disk (ide t) = disk (ide s) \<and> ide_hist (ide t) = ide_hist (ide s) \<and> pinned (bufs t) = pinned (bufs s) \<and>
     balanced s t \<and> mem t = mem s \<and> dstate.more t = dstate.more s"
proof -
  from bget_run[OF inv dev, of bn] idle room obtain i k where
    get: "bget dev bn s = Ret i (got i k s)" and i: "i < NBUF" and bal: "balanced s (got i k s)"
    and nb: "\<not> b_busy (bufs s ! i)"
    and k: "slot (bufs s) q = Some i \<and> k = (bufs s ! i)\<lparr>b_busy := True\<rparr> \<or>
      slot (bufs s) q = None \<and> recyclable (bufs s ! i) \<and>
      k = (bufs s ! i)\<lparr>b_dev := dev, b_blockno := bn, b_busy := True, b_valid := False, b_dirty := False\<rparr>"
    unfolding q_def by auto
  from inv obtain xs where xs: "mru_order (bufs s) xs" "set xs = {..<NBUF}" and data: "bc_data (bufs s) (ide s)"
    and rdy: "bc_ready s" by (auto simp: bc_inv_def)
  have len: "length (bufs s) = Suc NBUF" using data by (simp add: bc_data_def)
  have keep: "mru_order ((bufs s)[i := k']) xs" if "b_next k' = b_next k" "b_prev k' = b_prev k" for k'
    by (rule mru_order_keep[OF xs(1)]) (use k that in auto)
  have none: "held (bufs s) i = None" using nb by (simp add: held_def)
  show ?thesis
    using k
  proof (elim disjE conjE)
    assume sl: "slot (bufs s) q = Some i" and k: "k = (bufs s ! i)\<lparr>b_busy := True\<rparr>"
    then have lv: "live (bufs s) i" "bkey (bufs s ! i) = q" by (auto dest: slot_Some)
    note ok = bc_data_live[OF data lv(1)]
    have kk: "bkey k = q" using lv k by (simp add: bkey_def)
    have "b_data k = seen (bufs s) (ide s) (bkey k)" using sl kk k by (simp add: seen_def)
    then have tk: "bc_data ((bufs s)[i := k]) (ide s)" "seen ((bufs s)[i := k]) (ide s) = seen (bufs s) (ide s)"
      "held ((bufs s)[i := k]) = (held (bufs s))(i \<mapsto> bkey k)" "pinned ((bufs s)[i := k]) = pinned (bufs s)"
      using take_over[OF data i, of k] ok kk lv nb k by auto
    have "bread dev bn s = Ret i (got i k s)" using get ok(3) k i len by (simp add: bread_def)
    moreover have "bc_ready (got i k s)" using bc_ready_balanced[OF rdy bal] rdy by (simp add: bc_ready_def)
    then have "bc_inv (got i k s)" using tk(1) keep[of k] xs(2) by (auto simp: bc_inv_def)
    ultimately show ?thesis using tk kk bal none by fastforce
  next
    assume sl: "slot (bufs s) q = None" and rec: "recyclable (bufs s ! i)"
      and k: "k = (bufs s ! i)\<lparr>b_dev := dev, b_blockno := bn, b_busy := True, b_valid := False, b_dirty := False\<rparr>"
    let ?s = "got i k s" and ?bs = "on_disk (ide s) q"
    have ki: "bufs ?s ! i = k" using i len by simp
    have kk: "bkey k = q" using k disk_no_small[OF dev] by (simp add: bkey_def q_def)
    have db: "disk_block (ide s) (b_dev k) (b_blockno k) = ?bs"
      using kk by (auto simp: disk_block_def on_disk_def bkey_def)
    have rdy': "bc_ready ?s" using bc_ready_balanced[OF rdy bal] rdy by (simp add: bc_ready_def)
    have "b_blockno k < 1000" using bn k by simp
    then have dk: "disk (ide_after_start k (ide s)) = disk (ide s)"
      "ide_hist (ide_after_start k (ide s)) = ide_hist (ide s)"
      using ide_after_start_disk[of k "ide s"] k by simp_all
    obtain t where t: "iderw i ?s = Ret () t" "balanced ?s t" "idequeue t = None" "disk (ide t) = disk (ide s)"
      "ide_hist (ide t) = ide_hist (ide s)" "ide_status (ide t) = ide_status (ide s)" "havedisk1 t = havedisk1 s"
      "bufs t = (bufs s)[i := served (k\<lparr>b_qnext := None\<rparr>) ?bs]" "mem t = mem s" "dstate.more t = dstate.more s"
      using iderw_run[of ?s i] rdy' ki i len k bn dk db by (auto simp: bc_ready_def io_done_def)
    let ?k = "served (k\<lparr>b_qnext := None\<rparr>) ?bs"
    have kk': "bkey ?k = q" using kk by (simp add: bkey_def)
    have "b_data ?k = seen (bufs s) (ide s) (bkey ?k)" using sl kk' k by (simp add: seen_def)
    then have tk: "bc_data ((bufs s)[i := ?k]) (ide s)" "seen ((bufs s)[i := ?k]) (ide s) = seen (bufs s) (ide s)"
      "held ((bufs s)[i := ?k]) = (held (bufs s))(i \<mapsto> bkey ?k)" "pinned ((bufs s)[i := ?k]) = pinned (bufs s)"
      using take_over[OF data i, of ?k] kk' sl rec k dev bn nb by auto
    have "bread dev bn s = Ret i t" using get k ki t(1) by (simp add: bread_def)
    moreover have "balanced s t" using bal t(2) by (rule balanced_trans)
    moreover have "bc_ready t" using bc_ready_balanced[OF rdy \<open>balanced s t\<close>] t by simp
    moreover note disk_cong[OF t(4)]
    ultimately show ?thesis
      using tk kk' t keep[of ?k] xs(2) none by (auto simp: bc_inv_def)
  qed
qed

section \<open>Changing a locked buffer\<close>

text \<open>A locked buffer gets new contents or flags, and the disk may change at its block.\<close>

lemma change_held:
  assumes inv: "bc_data bs d" and h: "held bs i = Some q"
    and k: "b_dev k = b_dev (bs ! i)" "b_blockno k = b_blockno (bs ! i)" "b_busy k" "b_valid k"
    and len: "length (b_data k) = BSIZE" "length (on_disk d' q) = BSIZE"
    and off: "\<And>p. p \<noteq> q \<Longrightarrow> on_disk d' p = on_disk d p"
  shows "bc_data (bs[i := k]) d'" and "seen (bs[i := k]) d' = (seen bs d)(q := b_data k)"
    and "held (bs[i := k]) = held bs"
    and "pinned (bs[i := k]) = (if b_dirty k then insert q (pinned bs) else pinned bs - {q})"
proof -
  let ?bs = "bs[i := k]"
  have i: "i < NBUF" "b_busy (bs ! i)" "bkey (bs ! i) = q" using h by (auto simp: held_def split: if_splits)
  have il: "i < length bs" using i(1) inv by (simp add: bc_data_def)
  have nth: "?bs ! j = (if j = i then k else bs ! j)" for j using il by (simp add: nth_list_update)
  have lvi: "live bs i" using busy_live[OF inv i(1)] i(2) by simp
  have kk: "bkey k = q" using k i(3) by (simp add: bkey_def)
  have key: "bkey (?bs ! j) = bkey (bs ! j)" for j using kk i(3) by (simp add: nth)
  have lv: "live ?bs j = live bs j" for j using k(1) by (simp add: live_def nth)
  have other: "bkey (bs ! j) \<noteq> q" if "live bs j" "j \<noteq> i" for j
    using slot_live[OF inv that(1)] slot_live[OF inv lvi] i(3) that(2) by auto
  have "buf_ok d' (?bs ! j)" if "j < NBUF" for j
  proof (cases "j = i")
    case True
    then show ?thesis using bc_data_live[OF inv lvi] lvi k len by (simp add: buf_ok_def nth live_def)
  next
    case False
    have "buf_ok d (bs ! j)" using inv that by (simp add: bc_data_def)
    then show ?thesis using other[OF _ False] off[of "bkey (bs ! j)"] that False
      by (auto simp: buf_ok_def nth live_def)
  qed
  moreover have "inj_on (\<lambda>j. bkey (?bs ! j)) {j. live ?bs j}" using inv unfolding key lv by (simp add: bc_data_def)
  moreover have "length (on_disk d' p) = BSIZE" if "fst p < 2 \<and> snd p < 1000" for p
    using inv len(2) off[of p] that by (cases p; cases "p = q") (auto simp: bc_data_def)
  ultimately show inv': "bc_data ?bs d'" using inv by (simp add: bc_data_def)
  have sl: "slot ?bs p = slot bs p" for p unfolding slot_def by (simp only: key lv)
  show "seen ?bs d' = (seen bs d)(q := b_data k)"
  proof
    fix p
    show "seen ?bs d' p = ((seen bs d)(q := b_data k)) p"
    proof (cases "slot bs p")
      case None
      then have "p \<noteq> q" using slot_live[OF inv lvi] i(3) by auto
      then show ?thesis using None off by (simp add: seen_def sl)
    next
      case (Some j)
      then have "live bs j" "bkey (bs ! j) = p" by (auto dest: slot_Some)
      then have "j = i \<longleftrightarrow> p = q" using other i(3) by auto
      then show ?thesis using Some by (auto simp: seen_def sl nth)
    qed
  qed
  show "held ?bs = held bs" using i(2) k(3) key by (auto simp: held_def fun_eq_iff nth)
  have drt: "p \<in> pinned bs \<longleftrightarrow> (\<exists>j < NBUF. b_dirty (bs ! j) \<and> bkey (bs ! j) = p)"
    "p \<in> pinned ?bs \<longleftrightarrow> (\<exists>j < NBUF. b_dirty (?bs ! j) \<and> bkey (bs ! j) = p)" for p
    by (auto simp: pinned_def key)
  have uq: "j = i" if "j < NBUF" "b_dirty (bs ! j)" "bkey (bs ! j) = q" for j
    using other[of j] busy_live[OF inv that(1)] that by auto
  show "pinned ?bs = (if b_dirty k then insert q (pinned bs) else pinned bs - {q})"
  proof (rule set_eqI)
    fix p
    have "p \<in> pinned ?bs \<longleftrightarrow> (if p = q then b_dirty k else p \<in> pinned bs)"
    proof (cases "p = q")
      case True
      then show ?thesis using i(1,3) other busy_live[OF inv] unfolding drt by (auto simp: nth)
    next
      case False
      then show ?thesis using i(3) unfolding drt by (auto simp: nth)
    qed
    then show "p \<in> pinned ?bs \<longleftrightarrow> p \<in> (if b_dirty k then insert q (pinned bs) else pinned bs - {q})"
      by auto
  qed
qed

lemma bc_inv_data:
  assumes "bc_inv s"
  shows "bc_data (bufs s) (ide s)" "bc_ready s" "length (bufs s) = Suc NBUF"
  using assms by (auto simp: bc_inv_def bc_data_def)

lemma held_key:
  assumes "bc_data bs d" and "held bs i = Some q"
  shows "fst q < 2" "snd q < 1000" "i < NBUF" "b_busy (bs ! i)" "live bs i" "bkey (bs ! i) = q"
    "seen bs d q = b_data (bs ! i)"
proof -
  show i: "i < NBUF" "b_busy (bs ! i)" "bkey (bs ! i) = q"
    using assms(2) by (auto simp: held_def split: if_splits)
  show lv: "live bs i" using busy_live[OF assms(1) i(1)] i(2) by simp
  show "fst q < 2" "snd q < 1000"
    using bc_data_live(1,2)[OF assms(1) lv] i(3) by (auto simp: bkey_def disk_no_def word_less_nat_alt)
  show "seen bs d q = b_data (bs ! i)" using seen_live[OF assms(1) lv] i(3) by simp
qed

lemma bc_inv_upd_held:
  assumes inv: "bc_inv s" and h: "held (bufs s) i = Some q"
    and k: "\<And>k. b_dev (f k) = b_dev k" "\<And>k. b_blockno (f k) = b_blockno k" "\<And>k. b_busy (f k) = b_busy k"
      "\<And>k. b_valid (f k) = b_valid k" "\<And>k. b_next (f k) = b_next k" "\<And>k. b_prev (f k) = b_prev k"
    and len: "length (b_data (f (bufs s ! i))) = BSIZE"
  shows "bc_inv (upd_buf i f s)"
    and "seen (bufs (upd_buf i f s)) (ide s) = (seen (bufs s) (ide s))(q := b_data (f (bufs s ! i)))"
    and "held (bufs (upd_buf i f s)) = held (bufs s)"
    and "pinned (bufs (upd_buf i f s)) =
      (if b_dirty (f (bufs s ! i)) then insert q (pinned (bufs s)) else pinned (bufs s) - {q})"
proof -
  note data = bc_inv_data[OF inv]
  note hk = held_key[OF data(1) h]
  have v: "b_valid (f (bufs s ! i))" using bc_data_live(3)[OF data(1) hk(5)] k by simp
  have "length (on_disk (ide s) q) = BSIZE" using data(1) hk(1,2) by (cases q) (simp add: bc_data_def)
  note ch = change_held[OF data(1) h, of "f (bufs s ! i)" "ide s", OF _ _ _ v len this]
  show "seen (bufs (upd_buf i f s)) (ide s) = (seen (bufs s) (ide s))(q := b_data (f (bufs s ! i)))"
    "held (bufs (upd_buf i f s)) = held (bufs s)"
    "pinned (bufs (upd_buf i f s)) =
      (if b_dirty (f (bufs s ! i)) then insert q (pinned (bufs s)) else pinned (bufs s) - {q})"
    using ch(2-4) k hk(4) by simp_all
  have "bc_ready (upd_buf i f s)" using data(2) bc_ready_balanced[of s "upd_buf i f s"] by (simp add: bc_ready_def)
  moreover have "mru_order ((bufs s)[i := f (bufs s ! i)]) xs" if "mru_order (bufs s) xs" for xs
    using mru_order_keep[OF that] k by simp
  ultimately show "bc_inv (upd_buf i f s)"
    using inv ch(1) k hk(4) by (auto simp: bc_inv_def)
qed

text \<open>New contents for a locked buffer, and the mark that keeps it in the cache.\<close>

lemma set_data_run:
  assumes inv: "bc_inv s" and h: "held (bufs s) i = Some q" and len: "length bs = BSIZE"
  shows "bc_inv (upd_buf i (\<lambda>k. k\<lparr>b_data := bs\<rparr>) s)"
    and "seen (bufs (upd_buf i (\<lambda>k. k\<lparr>b_data := bs\<rparr>) s)) (ide s) = (seen (bufs s) (ide s))(q := bs)"
    and "held (bufs (upd_buf i (\<lambda>k. k\<lparr>b_data := bs\<rparr>) s)) = held (bufs s)"
    and "pinned (bufs (upd_buf i (\<lambda>k. k\<lparr>b_data := bs\<rparr>) s)) = pinned (bufs s)"
proof -
  note r = bc_inv_upd_held[OF inv h, of "\<lambda>k. k\<lparr>b_data := bs\<rparr>"]
  show "bc_inv (upd_buf i (\<lambda>k. k\<lparr>b_data := bs\<rparr>) s)"
    "seen (bufs (upd_buf i (\<lambda>k. k\<lparr>b_data := bs\<rparr>) s)) (ide s) = (seen (bufs s) (ide s))(q := bs)"
    "held (bufs (upd_buf i (\<lambda>k. k\<lparr>b_data := bs\<rparr>) s)) = held (bufs s)"
    using r(1-3) len by simp_all
  note hk = held_key[OF bc_inv_data(1)[OF inv] h]
  have "b_dirty (bufs s ! i) \<longleftrightarrow> q \<in> pinned (bufs s)"
  proof
    assume "b_dirty (bufs s ! i)" then show "q \<in> pinned (bufs s)" using hk(3,6) by (auto simp: pinned_def)
  next
    assume "q \<in> pinned (bufs s)"
    then obtain j where j: "j < NBUF" "b_dirty (bufs s ! j)" "bkey (bufs s ! j) = q" by (auto simp: pinned_def)
    then have "live (bufs s) j" using busy_live[OF bc_inv_data(1)[OF inv]] by simp
    then have "j = i"
      using slot_live[OF bc_inv_data(1)[OF inv], of j] slot_live[OF bc_inv_data(1)[OF inv] hk(5)] j(3) hk(6) by simp
    then show "b_dirty (bufs s ! i)" using j by simp
  qed
  then show "pinned (bufs (upd_buf i (\<lambda>k. k\<lparr>b_data := bs\<rparr>) s)) = pinned (bufs s)"
    using r(4) len by auto
qed

lemma pin_run:
  assumes inv: "bc_inv s" and h: "held (bufs s) i = Some q"
  shows "bc_inv (upd_buf i (\<lambda>k. k\<lparr>b_dirty := True\<rparr>) s)"
    and "seen (bufs (upd_buf i (\<lambda>k. k\<lparr>b_dirty := True\<rparr>) s)) (ide s) = seen (bufs s) (ide s)"
    and "held (bufs (upd_buf i (\<lambda>k. k\<lparr>b_dirty := True\<rparr>) s)) = held (bufs s)"
    and "pinned (bufs (upd_buf i (\<lambda>k. k\<lparr>b_dirty := True\<rparr>) s)) = insert q (pinned (bufs s))"
proof -
  note hk = held_key[OF bc_inv_data(1)[OF inv] h]
  have "length (b_data (bufs s ! i)) = BSIZE" using bc_data_live(4)[OF bc_inv_data(1)[OF inv] hk(5)] .
  note r = bc_inv_upd_held[OF inv h, of "\<lambda>k. k\<lparr>b_dirty := True\<rparr>", simplified, OF this]
  show "bc_inv (upd_buf i (\<lambda>k. k\<lparr>b_dirty := True\<rparr>) s)"
    "seen (bufs (upd_buf i (\<lambda>k. k\<lparr>b_dirty := True\<rparr>) s)) (ide s) = seen (bufs s) (ide s)"
    "held (bufs (upd_buf i (\<lambda>k. k\<lparr>b_dirty := True\<rparr>) s)) = held (bufs s)"
    "pinned (bufs (upd_buf i (\<lambda>k. k\<lparr>b_dirty := True\<rparr>) s)) = insert q (pinned (bufs s))"
    using r hk(7) by (auto simp: fun_upd_idem)
qed

section \<open>Writing and releasing\<close>

lemma bwrite_run:
  fixes s :: "'a dstate_scheme" and i :: nat and q :: key
  assumes inv: "bc_inv s" and h: "held (bufs s) i = Some q"
  shows "\<exists>t. bwrite i s = Ret () t \<and> bc_inv t \<and> held (bufs t) = held (bufs s) \<and>
     seen (bufs t) (ide t) = seen (bufs s) (ide s) \<and>
     on_disk (ide t) = (on_disk (ide s))(q := seen (bufs s) (ide s) q) \<and>
     ide_hist (ide t) = ide_hist (ide s) @ [(fst q, snd q, seen (bufs s) (ide s) q)] \<and>
     pinned (bufs t) = pinned (bufs s) - {q} \<and> balanced s t \<and> mem t = mem s \<and> dstate.more t = dstate.more s"
proof -
  note data = bc_inv_data[OF inv]
  note hk = held_key[OF data(1) h]
  note ok = bc_data_live[OF data(1) hk(5)]
  let ?s = "upd_buf i (\<lambda>k. k\<lparr>b_dirty := True\<rparr>) s" and ?k = "(bufs s ! i)\<lparr>b_dirty := True\<rparr>"
  have il: "i < length (bufs s)" using hk(3) data(3) by simp
  have ki: "bufs ?s ! i = ?k" using il by simp
  have rdy: "bc_ready ?s" using data(2) bc_ready_balanced[of s ?s] by (simp add: bc_ready_def)
  have dn: "disk_no (b_dev (bufs s ! i)) = fst q" "unat (b_blockno (bufs s ! i)) = snd q"
    using hk(6) by (auto simp: bkey_def)
  have bd: "b_data (bufs s ! i) = seen (bufs s) (ide s) q" using hk(7) by simp
  have st: "disk (ide_after_start ?k (ide s)) =
      (disk (ide s))(fst q := (disk (ide s) (fst q))(snd q := seen (bufs s) (ide s) q))"
    "ide_hist (ide_after_start ?k (ide s)) = ide_hist (ide s) @ [(fst q, snd q, seen (bufs s) (ide s) q)]"
    using ide_after_start_disk[of ?k "ide s"] ok(2) dn bd by simp_all
  let ?k' = "(bufs s ! i)\<lparr>b_qnext := None, b_valid := True, b_dirty := False\<rparr>"
  have srv: "served (?k\<lparr>b_qnext := None\<rparr>) bs = ?k'" for bs by (simp add: served_def)
  obtain t where t: "iderw i ?s = Ret () t" "balanced ?s t" "idequeue t = None"
    "disk (ide t) = (disk (ide s))(fst q := (disk (ide s) (fst q))(snd q := seen (bufs s) (ide s) q))"
    "ide_hist (ide t) = ide_hist (ide s) @ [(fst q, snd q, seen (bufs s) (ide s) q)]"
    "ide_status (ide t) = ide_status (ide s)" "havedisk1 t = havedisk1 s"
    "bufs t = (bufs s)[i := ?k']" "mem t = mem s" "dstate.more t = dstate.more s"
    using iderw_run[of ?s i] rdy ki il hk(4) ok(2) st srv by (auto simp: bc_ready_def io_done_def)
  have od: "on_disk (ide t) = (on_disk (ide s))(q := seen (bufs s) (ide s) q)"
    using t(4) by (cases q) (auto simp: on_disk_def fun_eq_iff)
  have len: "length (seen (bufs s) (ide s) q) = BSIZE" using length_seen[OF data(1) hk(1,2)] .
  note ch = change_held[OF data(1) h, of ?k' "ide t"]
  have ch': "bc_data (bufs t) (ide t)" "seen (bufs t) (ide t) = seen (bufs s) (ide s)"
    "held (bufs t) = held (bufs s)" "pinned (bufs t) = pinned (bufs s) - {q}"
    using ch hk(4) ok(4) od len bd unfolding t(8) by (auto simp: fun_upd_idem)
  have bal: "balanced s t" using t(2) by (simp add: balanced_def lock_free_def upd_buf_def)
  have "mru_order (bufs t) xs" if "mru_order (bufs s) xs" for xs
    unfolding t(8) by (rule mru_order_keep[OF that]) simp_all
  moreover have "bc_ready t" using bc_ready_balanced[OF data(2) bal] t by simp
  ultimately have "bc_inv t" using inv ch'(1) by (auto simp: bc_inv_def)
  moreover have "bwrite i s = Ret () t" using hk(4) t(1) by (simp add: bwrite_def)
  ultimately show ?thesis using ch' od t bal by blast
qed

text \<open>Only the list pointers of buffers other than the released one change.\<close>

definition same_entry :: "buf \<Rightarrow> buf \<Rightarrow> bool" where
  "same_entry k l \<longleftrightarrow> b_busy k = b_busy l \<and> b_valid k = b_valid l \<and> b_dirty k = b_dirty l \<and> b_dev k = b_dev l \<and>
     b_blockno k = b_blockno l \<and> b_data k = b_data l"

lemma same_entry_trans: "same_entry k l \<Longrightarrow> same_entry l m \<Longrightarrow> same_entry k m"
  by (simp add: same_entry_def)

lemma same_entry_upd:
  assumes "\<And>k. same_entry (f k) k"
  shows "same_entry (bufs (upd_buf i f s) ! j) (bufs s ! j)"
proof (cases "j = i \<and> i < length (bufs s)")
  case True
  then show ?thesis using assms by simp
next
  case False
  then have "bufs (upd_buf i f s) ! j = bufs s ! j" by (cases "j = i") (simp_all add: not_less list_update_beyond)
  then show ?thesis by (simp add: same_entry_def)
qed

lemma same_entry_links:
  "same_entry (bufs (link_front b (unlink_buf b s)) ! j) (bufs s ! j)"
proof -
  have u: "same_entry (bufs (upd_buf i f u) ! j) (bufs s ! j)"
    if "same_entry (bufs u ! j) (bufs s ! j)" "\<And>k. same_entry (f k) k" for i f u
    using same_entry_trans[OF same_entry_upd[of f i u j] that(1)] that(2) by blast
  have "same_entry (bufs s ! j) (bufs s ! j)" by (simp add: same_entry_def)
  then show ?thesis
    unfolding link_front_def unlink_buf_def Let_def by (intro u) (simp_all add: same_entry_def)
qed

text \<open>\<open>binit\<close> gives a cache without blocks.\<close>

lemma link_front_entries:
  "same_entry (bufs (link_front b s) ! j) (bufs s ! j)" "length (bufs (link_front b s)) = length (bufs s)"
  "ide (link_front b s) = ide s" "idequeue (link_front b s) = idequeue s" "havedisk1 (link_front b s) = havedisk1 s"
  "locks (link_front b s) = locks s" "cpus (link_front b s) = cpus s" "mycpu (link_front b s) = mycpu s"
  "dstate.more (link_front b s) = dstate.more s"
proof -
  have u: "same_entry (bufs (upd_buf i f u) ! j) (bufs s ! j)"
    if "same_entry (bufs u ! j) (bufs s ! j)" "\<And>k. same_entry (f k) k" for i f u
    using same_entry_trans[OF same_entry_upd[of f i u j] that(1)] that(2) by blast
  have "same_entry (bufs s ! j) (bufs s ! j)" by (simp add: same_entry_def)
  then show "same_entry (bufs (link_front b s) ! j) (bufs s ! j)"
    unfolding link_front_def Let_def by (intro u) (simp_all add: same_entry_def)
qed (simp_all add: link_front_def Let_def)

lemma binit_loop_entries:
  fixes s :: "'a dstate_scheme"
  assumes "b + n \<le> length (bufs s)"
  shows "(b \<le> j \<and> j < b + n \<longrightarrow> b_dev (bufs (binit_loop n b s) ! j) = - 1) \<and>
     (j < b \<longrightarrow> b_dev (bufs (binit_loop n b s) ! j) = b_dev (bufs s ! j)) \<and>
     b_busy (bufs (binit_loop n b s) ! j) = b_busy (bufs s ! j) \<and>
     b_dirty (bufs (binit_loop n b s) ! j) = b_dirty (bufs s ! j)"
    and "ide (binit_loop n b s) = ide s \<and> idequeue (binit_loop n b s) = idequeue s \<and> havedisk1 (binit_loop n b s) = havedisk1 s \<and>
      locks (binit_loop n b s) = locks s \<and> cpus (binit_loop n b s) = cpus s \<and> mycpu (binit_loop n b s) = mycpu s \<and>
      dstate.more (binit_loop n b s) = dstate.more s"
proof -
  show "ide (binit_loop n b s) = ide s \<and> idequeue (binit_loop n b s) = idequeue s \<and> havedisk1 (binit_loop n b s) = havedisk1 s \<and>
      locks (binit_loop n b s) = locks s \<and> cpus (binit_loop n b s) = cpus s \<and> mycpu (binit_loop n b s) = mycpu s \<and>
      dstate.more (binit_loop n b s) = dstate.more s"
    by (induction n arbitrary: b s) (simp_all add: link_front_entries)
  show "(b \<le> j \<and> j < b + n \<longrightarrow> b_dev (bufs (binit_loop n b s) ! j) = - 1) \<and>
     (j < b \<longrightarrow> b_dev (bufs (binit_loop n b s) ! j) = b_dev (bufs s ! j)) \<and>
     b_busy (bufs (binit_loop n b s) ! j) = b_busy (bufs s ! j) \<and>
     b_dirty (bufs (binit_loop n b s) ! j) = b_dirty (bufs s ! j)"
    using assms
  proof (induction n arbitrary: b s)
    case (Suc n)
    let ?u = "upd_buf b (\<lambda>k. k\<lparr>b_dev := - 1\<rparr>) s"
    let ?v = "link_front b ?u"
    have l: "Suc b + n \<le> length (bufs ?v)" using Suc.prems by (simp add: link_front_entries)
    have e: "same_entry (bufs ?v ! j) (bufs ?u ! j)" by (rule link_front_entries)
    show ?case using Suc.IH[OF l] e Suc.prems by (cases "j = b") (auto simp: same_entry_def)
  qed auto
qed

lemma binit_inv:
  fixes s :: "'a dstate_scheme"
  assumes len: "length (bufs s) = Suc NBUF" and clean: "\<And>i. i < NBUF \<Longrightarrow> \<not> b_busy (bufs s ! i) \<and> \<not> b_dirty (bufs s ! i)"
    and dk: "\<And>q. fst q < 2 \<Longrightarrow> snd q < 1000 \<Longrightarrow> length (on_disk (ide s) q) = BSIZE"
    and rdy: "lock_free L_ide s" "lock_free L_ptable s" "cpu_wf s" "ide_ready s" "idequeue s = None" "havedisk1 s"
  shows "bc_inv (binit s)" "held (bufs (binit s)) = Map.empty" "pinned (bufs (binit s)) = {}" "ide (binit s) = ide s"
    "dstate.more (binit s) = dstate.more s"
    "\<And>l. l \<noteq> L_bcache \<Longrightarrow> lock_free l (binit s) = lock_free l s"
proof -
  let ?s = "upd_buf NBUF (\<lambda>k. k\<lparr>b_prev := NBUF, b_next := NBUF\<rparr>) (initlock L_bcache ''bcache'' s)"
  let ?t = "binit_loop NBUF 0 ?s"
  have b: "binit s = ?t" by (simp add: binit_def)
  have i: "bufs (initlock L_bcache ''bcache'' s) = bufs s" by (simp add: initlock_def upd_lock_def)
  have l: "0 + NBUF \<le> length (bufs ?s)" using len by (simp add: i)
  have dev: "b_dev (bufs ?t ! j) = - 1" "\<not> b_busy (bufs ?t ! j)" "\<not> b_dirty (bufs ?t ! j)" if "j < NBUF" for j
    using binit_loop_entries(1)[OF l, of j] clean[OF that] that by (simp_all add: i)
  have f: "ide ?t = ide s" "idequeue ?t = idequeue s" "havedisk1 ?t = havedisk1 s" "dstate.more ?t = dstate.more s"
    "cpus ?t = cpus s" "mycpu ?t = mycpu s" "locks ?t = locks (initlock L_bcache ''bcache'' s)"
    using binit_loop_entries(2)[OF l] by (simp_all add: initlock_def upd_lock_def)
  show "ide (binit s) = ide s" "dstate.more (binit s) = dstate.more s" by (simp_all add: b f)
  have lf: "lock_free l (binit s) = lock_free l (initlock L_bcache ''bcache'' s)" for l by (simp add: b f lock_free_def)
  show lk: "lock_free l (binit s) = lock_free l s" if "l \<noteq> L_bcache" for l
    using that by (simp add: lf) (simp add: lock_free_def initlock_def upd_lock_def)
  have "lock_free L_bcache (binit s)" by (simp add: lf) (simp add: lock_free_def initlock_def upd_lock_def)
  then have "bc_ready (binit s)"
    using rdy lk[of L_ide] lk[of L_ptable] by (simp add: bc_ready_def b f cpu_wf_def ide_ready_def)
  moreover have "mru_order (bufs (binit s)) (rev [0..<NBUF])" by (rule binit_order[OF len])
  moreover have "bc_data (bufs (binit s)) (ide (binit s))"
    using \<open>mru_order _ _\<close> dev dk by (auto simp: bc_data_def buf_ok_def live_def mru_order_def b f inj_on_def)
  ultimately show "bc_inv (binit s)" unfolding bc_inv_def by (auto simp: atLeast0LessThan)
  show "held (bufs (binit s)) = Map.empty" "pinned (bufs (binit s)) = {}"
    using dev by (auto simp: held_def pinned_def b)
qed

lemma view_cong:
  assumes "\<And>j. j < NBUF \<Longrightarrow> same_entry (bs' ! j) (bs ! j)" and "length bs' = length bs"
  shows "bc_data bs' d = bc_data bs d" "seen bs' d = seen bs d" "held bs' = held bs" "pinned bs' = pinned bs"
proof -
  have key: "bkey (bs' ! j) = bkey (bs ! j)" and ok: "buf_ok d (bs' ! j) = buf_ok d (bs ! j)"
    and dt: "b_data (bs' ! j) = b_data (bs ! j)" if "j < NBUF" for j
    using assms(1)[OF that] by (simp_all add: same_entry_def bkey_def buf_ok_def)
  have lv: "live bs' j = live bs j" for j
    using assms(1)[of j] by (auto simp: live_def same_entry_def)
  have "inj_on (\<lambda>j. bkey (bs' ! j)) {j. live bs j} = inj_on (\<lambda>j. bkey (bs ! j)) {j. live bs j}"
    by (rule inj_on_cong) (simp add: key live_def)
  then show "bc_data bs' d = bc_data bs d" using ok assms(2) by (simp add: bc_data_def lv)
  have sl: "slot bs' q = slot bs q" for q
    unfolding slot_def by (rule find_cong) (simp_all add: lv key)
  have "i < NBUF" if "slot bs q = Some i" for i q using slot_Some[OF that] by (simp add: live_def)
  then show "seen bs' d = seen bs d" by (auto simp: seen_def sl dt fun_eq_iff split: option.splits)
  show "held bs' = held bs" using assms(1) by (auto simp: held_def key same_entry_def fun_eq_iff)
  have "{i. i < NBUF \<and> b_dirty (bs' ! i)} = {i. i < NBUF \<and> b_dirty (bs ! i)}"
    using assms(1) by (auto simp: same_entry_def)
  then show "pinned bs' = pinned bs" unfolding pinned_def by (intro image_cong) (auto simp: key)
qed

lemma release_held_buf:
  assumes inv: "bc_data bs d" and h: "held bs i = Some q"
    and safe: "q \<in> pinned bs \<or> seen bs d q = on_disk d q"
  shows "bc_data (bs[i := (bs ! i)\<lparr>b_busy := False\<rparr>]) d"
    and "seen (bs[i := (bs ! i)\<lparr>b_busy := False\<rparr>]) d = seen bs d"
    and "held (bs[i := (bs ! i)\<lparr>b_busy := False\<rparr>]) = (held bs)(i := None)"
    and "pinned (bs[i := (bs ! i)\<lparr>b_busy := False\<rparr>]) = pinned bs"
proof -
  let ?k = "(bs ! i)\<lparr>b_busy := False\<rparr>"
  let ?bs = "bs[i := ?k]"
  note hk = held_key[OF inv h]
  have il: "i < length bs" using hk(3) inv by (simp add: bc_data_def)
  have nth: "?bs ! j = (if j = i then ?k else bs ! j)" for j using il by (simp add: nth_list_update)
  have key: "bkey (?bs ! j) = bkey (bs ! j)" for j by (simp add: nth bkey_def)
  have lv: "live ?bs j = live bs j" for j by (simp add: live_def nth)
  have drt: "b_dirty (?bs ! j) = b_dirty (bs ! j)" for j by (simp add: nth)
  have "b_dirty (bs ! i)" if "q \<in> pinned bs"
  proof -
    from that obtain j where j: "j < NBUF" "b_dirty (bs ! j)" "bkey (bs ! j) = q" by (auto simp: pinned_def)
    then have "j = i" using busy_live[OF inv j(1)] slot_live[OF inv, of j] slot_live[OF inv hk(5)] hk(6) by simp
    then show ?thesis using j by simp
  qed
  then have "b_dirty (bs ! i) \<or> b_data (bs ! i) = on_disk d q" using safe hk(7) by auto
  then have "buf_ok d (?bs ! j)" if "j < NBUF" for j
    using inv that hk(6) hk(5) bc_data_live[OF inv hk(5)]
    by (cases "j = i") (auto simp: nth buf_ok_def bkey_def live_def bc_data_def)
  then show "bc_data ?bs d" using inv by (simp add: bc_data_def key lv)
  have "slot ?bs p = slot bs p" for p unfolding slot_def by (simp only: key lv)
  then show "seen ?bs d = seen bs d" by (auto simp: seen_def nth fun_eq_iff split: option.splits)
  show "held ?bs = (held bs)(i := None)" by (auto simp: held_def nth fun_eq_iff)
  show "pinned ?bs = pinned bs" by (simp add: pinned_def key drt)
qed

lemma brelse_run:
  fixes s :: "'a dstate_scheme" and i :: nat and q :: key
  assumes inv: "bc_inv s" and h: "held (bufs s) i = Some q"
    and safe: "q \<in> pinned (bufs s) \<or> seen (bufs s) (ide s) q = on_disk (ide s) q"
  shows "\<exists>t. brelse i s = Ret () t \<and> bc_inv t \<and> held (bufs t) = (held (bufs s))(i := None) \<and>
     seen (bufs t) (ide t) = seen (bufs s) (ide s) \<and> ide t = ide s \<and> pinned (bufs t) = pinned (bufs s) \<and>
     balanced s t \<and> mem t = mem s \<and> dstate.more t = dstate.more s \<and>
     (\<forall>xs. mru_order (bufs s) xs \<and> set xs = {..<NBUF} \<longrightarrow> mru_order (bufs t) (i # remove1 i xs))"
proof -
  note data = bc_inv_data[OF inv]
  note hk = held_key[OF data(1) h]
  have free: "lock_free L_bcache s" "lock_free L_ptable s" "cpu_wf s" using data(2) by (simp_all add: bc_ready_def)
  let ?a = "lock_taken L_bcache s"
  let ?b = "link_front i (unlink_buf i ?a)"
  let ?c = "upd_buf i (\<lambda>k. k\<lparr>b_busy := False\<rparr>) ?b"
  let ?d = "woken (Ch_buf i) ?c"
  let ?t = "lock_dropped L_bcache ?d"
  have lens: "length (bufs ?b) = length (bufs s)" by (simp add: link_front_def unlink_buf_def Let_def)
  have wb: "within L_bcache s ?b" by (simp add: link_front_def unlink_buf_def Let_def)
  then have wc: "within L_bcache s ?c" by simp
  have pt: "lock_free L_ptable ?c" "cpu_wf ?c"
    using within_lock_free[OF wc] within_cpu(1)[OF wc free(3)] free(2) by simp_all
  note wk = wakeup_woken[OF pt, of "Ch_buf i"]
  have wd: "within L_bcache s ?d" using within_trans[OF wc wk(2)] .
  have run: "brelse i s = Ret () ?t"
    using hk(4) free wk(1) within_release[OF wd free(3)] by (simp add: brelse_def acquire_free Let_def)
  have bal: "balanced s ?t" using within_balanced[OF wd free(3,1)] .
  have ent: "same_entry (bufs ?b ! j) (bufs s ! j)" for j using same_entry_links[of i ?a j] by simp
  note vb = view_cong[OF ent lens]
  have rel: "bc_data ((bufs ?b)[i := (bufs ?b ! i)\<lparr>b_busy := False\<rparr>]) (ide s)"
    "seen ((bufs ?b)[i := (bufs ?b ! i)\<lparr>b_busy := False\<rparr>]) (ide s) = seen (bufs s) (ide s)"
    "held ((bufs ?b)[i := (bufs ?b ! i)\<lparr>b_busy := False\<rparr>]) = (held (bufs s))(i := None)"
    "pinned ((bufs ?b)[i := (bufs ?b ! i)\<lparr>b_busy := False\<rparr>]) = pinned (bufs s)"
    using release_held_buf[of "bufs ?b" "ide s" i q] data(1) h safe unfolding vb by simp_all
  have same: "ide ?b = ide s" "idequeue ?b = idequeue s" "havedisk1 ?b = havedisk1 s" "mem ?b = mem s"
    "dstate.more ?b = dstate.more s"
    by (simp_all add: link_front_def unlink_buf_def Let_def)
  have mru: "mru_order (bufs ?t) (i # remove1 i xs)" if m: "mru_order (bufs s) xs" and e: "set xs = {..<NBUF}" for xs
  proof -
    have dist: "distinct xs" using m by (simp add: mru_order_def dll_def)
    obtain ys zs where xs: "xs = ys @ i # zs" using hk(3) e split_list[of i xs] by auto
    then have r: "remove1 i xs = ys @ zs" using dist by (simp add: remove1_append)
    have "mru_order (bufs ?a) (ys @ i # zs)" using m xs by simp
    then have "mru_order (bufs (unlink_buf i ?a)) (ys @ zs)" by (rule mru_order_unlink)
    then have "mru_order (bufs ?b) (i # ys @ zs)"
      by (rule mru_order_link_front) (use hk(3) dist xs in auto)
    then have "mru_order (bufs ?c) (i # ys @ zs)"
      unfolding upd_buf_fields(1) by (rule mru_order_keep) simp_all
    then show ?thesis using r by simp
  qed
  have st: "set (i # remove1 i xs) = {..<NBUF}" if "mru_order (bufs s) xs" "set xs = {..<NBUF}" for xs
    using that hk(3) by (auto simp: mru_order_def dll_def)
  have "bc_ready ?t" using bc_ready_balanced[OF data(2) bal] same data(2) by (simp add: bc_ready_def)
  moreover have "bc_data (bufs ?t) (ide ?t)" using rel(1) same by simp
  moreover from inv obtain xs where "mru_order (bufs s) xs" "set xs = {..<NBUF}" by (auto simp: bc_inv_def)
  then have "\<exists>xs. mru_order (bufs ?t) xs \<and> set xs = {..<NBUF}" using mru st by blast
  ultimately have "bc_inv ?t" unfolding bc_inv_def by blast
  moreover have "held (bufs ?t) = (held (bufs s))(i := None)" "seen (bufs ?t) (ide ?t) = seen (bufs s) (ide s)"
    "ide ?t = ide s" "pinned (bufs ?t) = pinned (bufs s)" "mem ?t = mem s" "dstate.more ?t = dstate.more s"
    using rel same by simp_all
  ultimately show ?thesis using run bal mru by blast
qed

section \<open>The contract\<close>

text \<open>
  The users of the cache read a block into a locked buffer (\<open>rd\<close>), look at it (\<open>get\<close>),
  fill it (\<open>put\<close>), write it through to the disk (\<open>wr\<close>) and release it (\<open>rel\<close>).
  \<open>kept\<close> relates two states that agree outside the cache and the disk.
\<close>

locale block_cache =
  fixes rd :: "u32 \<Rightarrow> u32 \<Rightarrow> 's \<Rightarrow> (nat, 's) outcome"
    and get :: "'s \<Rightarrow> nat \<Rightarrow> byte list"
    and put :: "nat \<Rightarrow> byte list \<Rightarrow> 's \<Rightarrow> 's"
    and wr :: "nat \<Rightarrow> 's \<Rightarrow> (unit, 's) outcome"
    and rel :: "nat \<Rightarrow> 's \<Rightarrow> (unit, 's) outcome"
    and cache_inv :: "'s \<Rightarrow> bool"
    and sees :: "'s \<Rightarrow> key \<Rightarrow> byte list"
    and stored :: "'s \<Rightarrow> key \<Rightarrow> byte list"
    and holds :: "'s \<Rightarrow> nat \<Rightarrow> key option"
    and pins :: "'s \<Rightarrow> key set"
    and written :: "'s \<Rightarrow> (nat \<times> nat \<times> byte list) list"
    and kept :: "'s \<Rightarrow> 's \<Rightarrow> bool"
  assumes kept_refl: "kept s s"
    and kept_trans: "kept s t \<Longrightarrow> kept t u \<Longrightarrow> kept s u"
    and idle_clean: "cache_inv s \<Longrightarrow> q \<notin> ran (holds s) \<Longrightarrow> q \<notin> pins s \<Longrightarrow> sees s q = stored s q"
    and sees_length: "cache_inv s \<Longrightarrow> fst q < 2 \<Longrightarrow> snd q < 1000 \<Longrightarrow> length (sees s q) = BSIZE"
    and get_sees: "cache_inv s \<Longrightarrow> holds s b = Some q \<Longrightarrow> get s b = sees s q"
    and rd_law: "cache_inv s \<Longrightarrow> dev < 2 \<Longrightarrow> bn < 1000 \<Longrightarrow> (unat dev, unat bn) \<notin> ran (holds s) \<Longrightarrow>
      (unat dev, unat bn) \<in> pins s \<or> card (ran (holds s) \<union> pins s) < NBUF \<Longrightarrow>
      \<exists>b t. rd dev bn s = Ret b t \<and> cache_inv t \<and> holds s b = None \<and>
        holds t = (holds s)(b \<mapsto> (unat dev, unat bn)) \<and> sees t = sees s \<and> stored t = stored s \<and>
        pins t = pins s \<and> written t = written s \<and> kept s t"
    and put_law: "cache_inv s \<Longrightarrow> holds s b = Some q \<Longrightarrow> length bs = BSIZE \<Longrightarrow>
      cache_inv (put b bs s) \<and> holds (put b bs s) = holds s \<and> sees (put b bs s) = (sees s)(q := bs) \<and>
      stored (put b bs s) = stored s \<and> pins (put b bs s) = pins s \<and> written (put b bs s) = written s \<and>
      kept s (put b bs s)"
    and wr_law: "cache_inv s \<Longrightarrow> holds s b = Some q \<Longrightarrow>
      \<exists>t. wr b s = Ret () t \<and> cache_inv t \<and> holds t = holds s \<and> sees t = sees s \<and>
        stored t = (stored s)(q := sees s q) \<and> pins t = pins s - {q} \<and>
        written t = written s @ [(fst q, snd q, sees s q)] \<and> kept s t"
    and rel_law: "cache_inv s \<Longrightarrow> holds s b = Some q \<Longrightarrow> q \<in> pins s \<or> sees s q = stored s q \<Longrightarrow>
      \<exists>t. rel b s = Ret () t \<and> cache_inv t \<and> holds t = (holds s)(b := None) \<and> sees t = sees s \<and>
        stored t = stored s \<and> pins t = pins s \<and> written t = written s \<and> kept s t"
begin

text \<open>Nothing locked and a bound on the pinned blocks: there is room for two more blocks.\<close>

definition idle :: "'s \<Rightarrow> bool" where
  "idle s \<longleftrightarrow> cache_inv s \<and> holds s = Map.empty \<and> finite (pins s)"

lemma ran_two: "b \<noteq> c \<Longrightarrow> ran [b \<mapsto> p, c \<mapsto> q] = {p, q}"
  by (auto simp: ran_def)

text \<open>Reading a block and releasing it again.\<close>

lemma peek:
  assumes s: "idle s" and room: "card (pins s) < NBUF" and q: "dev < 2" "bn < 1000"
  obtains b s1 t where "rd dev bn s = Ret b s1" "get s1 b = sees s (unat dev, unat bn)" "kept s s1"
    and "rel b s1 = Ret () t" "idle t" "sees t = sees s" "stored t = stored s" "pins t = pins s"
      "written t = written s" "kept s t"
proof -
  let ?q = "(unat dev, unat bn)"
  have inv: "cache_inv s" and h: "holds s = Map.empty" using s by (simp_all add: idle_def)
  obtain b s1 where 1: "rd dev bn s = Ret b s1" "cache_inv s1" "holds s1 = [b \<mapsto> ?q]" "sees s1 = sees s"
    "stored s1 = stored s" "pins s1 = pins s" "written s1 = written s" "kept s s1"
    using rd_law[OF inv q] room h by auto
  have safe: "?q \<in> pins s1 \<or> sees s1 ?q = stored s1 ?q"
    using idle_clean[OF inv, of ?q] h 1 by auto
  obtain t where 2: "rel b s1 = Ret () t" "cache_inv t" "holds t = Map.empty" "sees t = sees s"
    "stored t = stored s" "pins t = pins s" "written t = written s" "kept s1 t"
    using rel_law[OF 1(2) _ safe, of b] 1 by auto
  show thesis
  proof (rule that[of b s1 t])
    show "get s1 b = sees s ?q" using get_sees[OF 1(2), of b ?q] 1 by simp
    show "idle t" using 2 s by (simp add: idle_def)
    show "kept s t" using kept_trans[OF 1(8) 2(8)] .
  qed (use 1 2 in simp_all)
qed

text \<open>Reading a block, replacing its contents by a function of them, writing it and releasing it.\<close>

lemma rewrite:
  assumes s: "idle s" and room: "card (pins s) < NBUF" and q: "dev < 2" "bn < 1000"
    and f: "\<And>bs. length bs = BSIZE \<Longrightarrow> length (f bs) = BSIZE"
  obtains b s1 s2 t where "rd dev bn s = Ret b s1" "kept s s1"
    and "wr b (put b (f (get s1 b)) s1) = Ret () s2" "kept s s2" "rel b s2 = Ret () t" "idle t"
      "sees t = (sees s)((unat dev, unat bn) := f (sees s (unat dev, unat bn)))"
      "stored t = (stored s)((unat dev, unat bn) := f (sees s (unat dev, unat bn)))"
      "pins t = pins s - {(unat dev, unat bn)}"
      "written t = written s @ [(unat dev, unat bn, f (sees s (unat dev, unat bn)))]" "kept s t"
proof -
  let ?q = "(unat dev, unat bn)"
  let ?new = "f (sees s ?q)"
  have inv: "cache_inv s" and h: "holds s = Map.empty" and fin: "finite (pins s)" using s by (simp_all add: idle_def)
  have len: "length ?new = BSIZE" using q by (intro f sees_length[OF inv]) (simp_all add: word_less_nat_alt)
  obtain b s1 where 1: "rd dev bn s = Ret b s1" "cache_inv s1" "holds s1 = [b \<mapsto> ?q]" "sees s1 = sees s"
    "stored s1 = stored s" "pins s1 = pins s" "written s1 = written s" "kept s s1"
    using rd_law[OF inv q] room h by auto
  have g: "get s1 b = sees s ?q" using get_sees[OF 1(2), of b ?q] 1 by simp
  let ?p = "put b ?new s1"
  have p: "cache_inv ?p" "holds ?p = [b \<mapsto> ?q]" "sees ?p = (sees s)(?q := ?new)" "stored ?p = stored s"
    "pins ?p = pins s" "written ?p = written s" "kept s1 ?p"
    using put_law[OF 1(2), of b ?q ?new] len 1 by simp_all
  obtain s2 where 2: "wr b ?p = Ret () s2" "cache_inv s2" "holds s2 = [b \<mapsto> ?q]" "sees s2 = (sees s)(?q := ?new)"
    "stored s2 = (stored s)(?q := ?new)" "pins s2 = pins s - {?q}"
    "written s2 = written s @ [(unat dev, unat bn, ?new)]" "kept ?p s2"
    using wr_law[OF p(1), of b ?q] p by auto
  obtain t where 3: "rel b s2 = Ret () t" "cache_inv t" "holds t = Map.empty" "sees t = sees s2"
    "stored t = stored s2" "pins t = pins s2" "written t = written s2" "kept s2 t"
    using rel_law[OF 2(2), of b ?q] 2 by auto
  have k2: "kept s s2" using 1(8) p(7) 2(8) by (blast intro: kept_trans)
  show thesis
  proof (rule that[of b s1 s2 t])
    show "idle t" using 3 2(6) fin by (simp add: idle_def)
    show "kept s t" using k2 3(8) by (rule kept_trans)
    show "wr b (put b (f (get s1 b)) s1) = Ret () s2" using 2(1) g by simp
  qed (use 1 2 3 k2 in simp_all)
qed

text \<open>
  Copying a block over another one, the destination read first or last; both buffers are
  released at the end.  The source is pinned, or as it is on the disk.
\<close>

lemma copy_tail:
  assumes inv: "cache_inv s" and h: "holds s = [d \<mapsto> A, e \<mapsto> C]" and ne: "d \<noteq> e" "A \<noteq> C" and fin: "finite (pins s)"
    and C: "fst C < 2" "snd C < 1000" "C \<in> pins s \<or> sees s C = stored s C"
  obtains s3 s4 t where "wr d (put d (get s e) s) = Ret () s3" "kept s s3" "rel e s3 = Ret () s4" "kept s s4"
      "rel d s4 = Ret () t" "idle t" "sees t = (sees s)(A := sees s C)" "stored t = (stored s)(A := sees s C)"
      "pins t = pins s - {A}" "written t = written s @ [(fst A, snd A, sees s C)]" "kept s t"
proof -
  have g: "get s e = sees s C" using get_sees[OF inv, of e C] h by simp
  have len: "length (sees s C) = BSIZE" using C by (intro sees_length[OF inv])
  let ?p = "put d (sees s C) s"
  have p: "cache_inv ?p" "holds ?p = [d \<mapsto> A, e \<mapsto> C]" "sees ?p = (sees s)(A := sees s C)"
    "stored ?p = stored s" "pins ?p = pins s" "written ?p = written s" "kept s ?p"
    using put_law[OF inv, of d A "sees s C"] len h ne by simp_all
  obtain s3 where 3: "wr d ?p = Ret () s3" "cache_inv s3" "holds s3 = [d \<mapsto> A, e \<mapsto> C]"
    "sees s3 = (sees s)(A := sees s C)" "stored s3 = (stored s)(A := sees s C)" "pins s3 = pins s - {A}"
    "written s3 = written s @ [(fst A, snd A, sees s C)]" "kept ?p s3"
    using wr_law[OF p(1), of d A] p ne by auto
  have safe: "C \<in> pins s3 \<or> sees s3 C = stored s3 C" using C(3) ne by (auto simp: 3)
  obtain s4 where 4: "rel e s3 = Ret () s4" "cache_inv s4" "holds s4 = [d \<mapsto> A]" "sees s4 = sees s3"
    "stored s4 = stored s3" "pins s4 = pins s3" "written s4 = written s3" "kept s3 s4"
    using rel_law[OF 3(2) _ safe, of e] 3(3) ne by (auto simp: fun_upd_twist)
  obtain t where 5: "rel d s4 = Ret () t" "cache_inv t" "holds t = Map.empty" "sees t = sees s3"
    "stored t = stored s3" "pins t = pins s3" "written t = written s3" "kept s4 t"
    using rel_law[OF 4(2), of d A] 4 3 by auto
  have k3: "kept s s3" using p(7) 3(8) by (rule kept_trans)
  have k4: "kept s s4" using k3 4(8) by (rule kept_trans)
  show thesis
  proof (rule that[of s3 s4 t])
    show "idle t" using 5 3(6) fin by (simp add: idle_def)
    show "kept s t" using k4 5(8) by (rule kept_trans)
    show "wr d (put d (get s e) s) = Ret () s3" using 3(1) g by simp
  qed (use 3 4 5 k3 k4 in simp_all)
qed

lemma read_two:
  assumes s: "idle s" and q: "dev < 2" "a < 1000" "c < 1000" "a \<noteq> c" and room: "card (pins s) < NBUF"
    "(unat dev, unat c) \<in> pins s \<or> card (pins s) < NBUF - 1"
  obtains d s1 e s2 where "rd dev a s = Ret d s1" "kept s s1" "rd dev c s1 = Ret e s2" "kept s s2" "cache_inv s2"
    "holds s2 = [d \<mapsto> (unat dev, unat a), e \<mapsto> (unat dev, unat c)]" "d \<noteq> e" "sees s2 = sees s"
    "stored s2 = stored s" "pins s2 = pins s" "written s2 = written s"
proof -
  let ?A = "(unat dev, unat a)" and ?C = "(unat dev, unat c)"
  have inv: "cache_inv s" and h: "holds s = Map.empty" and fin: "finite (pins s)" using s by (simp_all add: idle_def)
  obtain d s1 where 1: "rd dev a s = Ret d s1" "cache_inv s1" "holds s1 = [d \<mapsto> ?A]" "sees s1 = sees s"
    "stored s1 = stored s" "pins s1 = pins s" "written s1 = written s" "kept s s1"
    using rd_law[OF inv q(1,2)] room h by auto
  have room1: "?C \<in> pins s1 \<or> card (ran (holds s1) \<union> pins s1) < NBUF"
    using room fin by (auto simp: 1 card_insert_if)
  have "?A \<noteq> ?C" using q(4) by (simp add: word_unat_eq_iff)
  then obtain e s2 where 2: "rd dev c s1 = Ret e s2" "cache_inv s2" "holds s1 e = None"
    "holds s2 = [d \<mapsto> ?A, e \<mapsto> ?C]" "sees s2 = sees s" "stored s2 = stored s" "pins s2 = pins s"
    "written s2 = written s" "kept s1 s2"
    using rd_law[OF 1(2) q(1,3)] room1 1 by auto
  show thesis
  proof (rule that[of d s1 e s2])
    show "d \<noteq> e" using 2(3) 1(3) by auto
    show "kept s s2" using 1(8) 2(9) by (rule kept_trans)
  qed (use 1 2 in simp_all)
qed

lemma copy_block:
  assumes s: "idle s" and q: "dev < 2" "a < 1000" "c < 1000" "a \<noteq> c" and room: "card (pins s) < NBUF"
    "(unat dev, unat c) \<in> pins s \<or> card (pins s) < NBUF - 1"
  obtains d s1 e s2 s3 s4 t where "rd dev a s = Ret d s1" "kept s s1" "rd dev c s1 = Ret e s2" "kept s s2"
    and "wr d (put d (get s2 e) s2) = Ret () s3" "kept s s3" "rel e s3 = Ret () s4" "kept s s4"
      "rel d s4 = Ret () t" "idle t"
      "sees t = (sees s)((unat dev, unat a) := sees s (unat dev, unat c))"
      "stored t = (stored s)((unat dev, unat a) := sees s (unat dev, unat c))"
      "pins t = pins s - {(unat dev, unat a)}"
      "written t = written s @ [(unat dev, unat a, sees s (unat dev, unat c))]" "kept s t"
proof -
  obtain d s1 e s2 where 2: "rd dev a s = Ret d s1" "kept s s1" "rd dev c s1 = Ret e s2" "kept s s2" "cache_inv s2"
    "holds s2 = [d \<mapsto> (unat dev, unat a), e \<mapsto> (unat dev, unat c)]" "d \<noteq> e" "sees s2 = sees s"
    "stored s2 = stored s" "pins s2 = pins s" "written s2 = written s"
    using read_two[OF s q room] by metis
  have safe: "(unat dev, unat c) \<in> pins s \<or> sees s (unat dev, unat c) = stored s (unat dev, unat c)"
    using idle_clean[of s] s by (auto simp: idle_def)
  obtain s3 s4 t where 3: "wr d (put d (get s2 e) s2) = Ret () s3" "kept s2 s3" "rel e s3 = Ret () s4" "kept s2 s4"
      "rel d s4 = Ret () t" "idle t"
      "sees t = (sees s2)((unat dev, unat a) := sees s2 (unat dev, unat c))"
      "stored t = (stored s2)((unat dev, unat a) := sees s2 (unat dev, unat c))"
      "pins t = pins s2 - {(unat dev, unat a)}"
      "written t = written s2 @ [(unat dev, unat a, sees s2 (unat dev, unat c))]" "kept s2 t"
    using copy_tail[OF 2(5,6,7)] q safe s 2
    by (auto simp: word_unat_eq_iff idle_def word_less_nat_alt)
  show thesis
    by (rule that[of d s1 e s2 s3 s4 t]) (use 2 3 kept_trans[OF 2(4)] in simp_all)
qed

lemma copy_block_back:
  assumes s: "idle s" and q: "dev < 2" "c < 1000" "a < 1000" "c \<noteq> a" and room: "card (pins s) < NBUF"
    "(unat dev, unat a) \<in> pins s \<or> card (pins s) < NBUF - 1"
  obtains e s1 d s2 s3 s4 t where "rd dev c s = Ret e s1" "kept s s1" "rd dev a s1 = Ret d s2" "kept s s2"
    and "wr d (put d (get s2 e) s2) = Ret () s3" "kept s s3" "rel e s3 = Ret () s4" "kept s s4"
      "rel d s4 = Ret () t" "idle t"
      "sees t = (sees s)((unat dev, unat a) := sees s (unat dev, unat c))"
      "stored t = (stored s)((unat dev, unat a) := sees s (unat dev, unat c))"
      "pins t = pins s - {(unat dev, unat a)}"
      "written t = written s @ [(unat dev, unat a, sees s (unat dev, unat c))]" "kept s t"
proof -
  obtain e s1 d s2 where 2: "rd dev c s = Ret e s1" "kept s s1" "rd dev a s1 = Ret d s2" "kept s s2" "cache_inv s2"
    "holds s2 = [e \<mapsto> (unat dev, unat c), d \<mapsto> (unat dev, unat a)]" "e \<noteq> d" "sees s2 = sees s"
    "stored s2 = stored s" "pins s2 = pins s" "written s2 = written s"
    using read_two[OF s q room] by metis
  have h: "holds s2 = [d \<mapsto> (unat dev, unat a), e \<mapsto> (unat dev, unat c)]"
    using 2(6,7) by (simp add: fun_upd_twist)
  have safe: "(unat dev, unat c) \<in> pins s \<or> sees s (unat dev, unat c) = stored s (unat dev, unat c)"
    using idle_clean[of s] s by (auto simp: idle_def)
  obtain s3 s4 t where 3: "wr d (put d (get s2 e) s2) = Ret () s3" "kept s2 s3" "rel e s3 = Ret () s4" "kept s2 s4"
      "rel d s4 = Ret () t" "idle t"
      "sees t = (sees s2)((unat dev, unat a) := sees s2 (unat dev, unat c))"
      "stored t = (stored s2)((unat dev, unat a) := sees s2 (unat dev, unat c))"
      "pins t = pins s2 - {(unat dev, unat a)}"
      "written t = written s2 @ [(unat dev, unat a, sees s2 (unat dev, unat c))]" "kept s2 t"
    using copy_tail[OF 2(5) h] q safe s 2
    by (auto simp: word_unat_eq_iff idle_def word_less_nat_alt)
  show thesis
    by (rule that[of e s1 d s2 s3 s4 t]) (use 2 3 kept_trans[OF 2(4)] in simp_all)
qed

end

section \<open>The cache of bio.c meets the contract\<close>

definition disk_frame :: "'a dstate_scheme \<Rightarrow> 'a dstate_scheme \<Rightarrow> bool" where
  "disk_frame s t \<longleftrightarrow> balanced s t \<and> mem t = mem s \<and> dstate.more t = dstate.more s"

interpretation bc: block_cache bread "\<lambda>s b. b_data (bufs s ! b)"
  "\<lambda>b bs s. upd_buf b (\<lambda>k. k\<lparr>b_data := bs\<rparr>) s" bwrite brelse bc_inv "\<lambda>s. seen (bufs s) (ide s)"
  "\<lambda>s. on_disk (ide s)" "\<lambda>s. held (bufs s)" "\<lambda>s. pinned (bufs s)" "\<lambda>s. ide_hist (ide s)" disk_frame
proof
  fix s t u :: "'a dstate_scheme" and q :: key and b :: nat and bs :: "byte list" and dev bn :: u32
  show "disk_frame s s" by (simp add: disk_frame_def)
  show "disk_frame s t \<Longrightarrow> disk_frame t u \<Longrightarrow> disk_frame s u" by (auto simp: disk_frame_def intro: balanced_trans)
  show "bc_inv s \<Longrightarrow> q \<notin> ran (held (bufs s)) \<Longrightarrow> q \<notin> pinned (bufs s) \<Longrightarrow> seen (bufs s) (ide s) q = on_disk (ide s) q"
    using seen_idle bc_inv_data(1) by blast
  show "bc_inv s \<Longrightarrow> fst q < 2 \<Longrightarrow> snd q < 1000 \<Longrightarrow> length (seen (bufs s) (ide s) q) = BSIZE"
    using length_seen bc_inv_data(1) by blast
  show "bc_inv s \<Longrightarrow> held (bufs s) b = Some q \<Longrightarrow> b_data (bufs s ! b) = seen (bufs s) (ide s) q"
    using held_key(7)[of "bufs s" "ide s" b q] bc_inv_data(1)[of s] by simp
  show "bc_inv s \<Longrightarrow> dev < 2 \<Longrightarrow> bn < 1000 \<Longrightarrow> (unat dev, unat bn) \<notin> ran (held (bufs s)) \<Longrightarrow>
      (unat dev, unat bn) \<in> pinned (bufs s) \<or> card (ran (held (bufs s)) \<union> pinned (bufs s)) < NBUF \<Longrightarrow>
      \<exists>b t. bread dev bn s = Ret b t \<and> bc_inv t \<and> held (bufs s) b = None \<and>
        held (bufs t) = (held (bufs s))(b \<mapsto> (unat dev, unat bn)) \<and>
        seen (bufs t) (ide t) = seen (bufs s) (ide s) \<and> on_disk (ide t) = on_disk (ide s) \<and>
        pinned (bufs t) = pinned (bufs s) \<and> ide_hist (ide t) = ide_hist (ide s) \<and> disk_frame s t"
    using bread_run[of s dev bn] by (auto simp: room_def disk_frame_def intro!: disk_cong(3))
  show "bc_inv s \<Longrightarrow> held (bufs s) b = Some q \<Longrightarrow> length bs = BSIZE \<Longrightarrow>
      bc_inv (upd_buf b (\<lambda>k. k\<lparr>b_data := bs\<rparr>) s) \<and>
      held (bufs (upd_buf b (\<lambda>k. k\<lparr>b_data := bs\<rparr>) s)) = held (bufs s) \<and>
      seen (bufs (upd_buf b (\<lambda>k. k\<lparr>b_data := bs\<rparr>) s)) (ide (upd_buf b (\<lambda>k. k\<lparr>b_data := bs\<rparr>) s)) =
        (seen (bufs s) (ide s))(q := bs) \<and>
      on_disk (ide (upd_buf b (\<lambda>k. k\<lparr>b_data := bs\<rparr>) s)) = on_disk (ide s) \<and>
      pinned (bufs (upd_buf b (\<lambda>k. k\<lparr>b_data := bs\<rparr>) s)) = pinned (bufs s) \<and>
      ide_hist (ide (upd_buf b (\<lambda>k. k\<lparr>b_data := bs\<rparr>) s)) = ide_hist (ide s) \<and>
      disk_frame s (upd_buf b (\<lambda>k. k\<lparr>b_data := bs\<rparr>) s)"
    using set_data_run[of s b q bs] by (simp add: disk_frame_def)
  show "bc_inv s \<Longrightarrow> held (bufs s) b = Some q \<Longrightarrow>
      \<exists>t. bwrite b s = Ret () t \<and> bc_inv t \<and> held (bufs t) = held (bufs s) \<and>
        seen (bufs t) (ide t) = seen (bufs s) (ide s) \<and>
        on_disk (ide t) = (on_disk (ide s))(q := seen (bufs s) (ide s) q) \<and>
        pinned (bufs t) = pinned (bufs s) - {q} \<and>
        ide_hist (ide t) = ide_hist (ide s) @ [(fst q, snd q, seen (bufs s) (ide s) q)] \<and> disk_frame s t"
    using bwrite_run[of s b q] by (auto simp: disk_frame_def)
  show "bc_inv s \<Longrightarrow> held (bufs s) b = Some q \<Longrightarrow>
      q \<in> pinned (bufs s) \<or> seen (bufs s) (ide s) q = on_disk (ide s) q \<Longrightarrow>
      \<exists>t. brelse b s = Ret () t \<and> bc_inv t \<and> held (bufs t) = (held (bufs s))(b := None) \<and>
        seen (bufs t) (ide t) = seen (bufs s) (ide s) \<and> on_disk (ide t) = on_disk (ide s) \<and>
        pinned (bufs t) = pinned (bufs s) \<and> ide_hist (ide t) = ide_hist (ide s) \<and> disk_frame s t"
    using brelse_run[of s b q] by (auto simp: disk_frame_def)
qed

section \<open>A concrete state\<close>

text \<open>Two disks with the blocks \<open>D\<close>, the buffers before \<open>binit\<close>.\<close>

definition zero_buf :: buf where
  "zero_buf = \<lparr>b_busy = False, b_valid = False, b_dirty = False, b_dev = 0, b_blockno = 0, b_prev = 0, b_next = 0,
     b_qnext = None, b_data = replicate BSIZE 0\<rparr>"

definition demo_hw :: hstate where
  "demo_hw = pstate.extend demo_state (hstate.fields [] 0 False 1 0 0 (\<lambda>_. 0) 0 (\<lambda>_. 0) 0 (\<lambda>_. 0) 0)"

definition demo_bufs :: "(key \<Rightarrow> byte list) \<Rightarrow> dstate" where
  "demo_bufs D = hstate.extend demo_hw (dstate.fields (replicate (Suc NBUF) zero_buf) None True
     \<lparr>ide_status = 0x40, r_lba0 = 0, r_lba1 = 0, r_lba2 = 0, r_drive = 0, r_cmd = 0, disk = (\<lambda>d n. D (d, n)), ide_hist = []\<rparr>)"

lemma demo_bufs_fields:
  "bufs (demo_bufs D) = replicate (Suc NBUF) zero_buf" "on_disk (ide (demo_bufs D)) = D" "idequeue (demo_bufs D) = None"
  "havedisk1 (demo_bufs D)" "ide_status (ide (demo_bufs D)) = 0x40" "ide_hist (ide (demo_bufs D)) = []"
  "lock_free l (demo_bufs D)" "cpu_wf (demo_bufs D)" "mem (demo_bufs D) = mem demo_state" "cpus (demo_bufs D) = cpus demo_state"
  "mycpu (demo_bufs D) = 0" "locks (demo_bufs D) = locks demo_state" "ptable (demo_bufs D) = ptable demo_state"
  using demo_state_simps(1)[of l] demo_state_simps(2,4)
  by (simp_all add: demo_bufs_def demo_hw_def hstate.defs dstate.defs pstate.defs on_disk_def fun_eq_iff lock_free_def cpu_wf_def)

text \<open>\<open>binit\<close> on any state with these buffers and this disk.\<close>

lemma binit_demo:
  fixes s :: "'a dstate_scheme"
  assumes s: "bufs s = replicate (Suc NBUF) zero_buf" "idequeue s = None" "havedisk1 s" "ide_status (ide s) = 0x40"
      "\<And>l. lock_free l s" "cpu_wf s"
    and D: "\<And>q. fst q < 2 \<Longrightarrow> snd q < 1000 \<Longrightarrow> length (on_disk (ide s) q) = BSIZE"
  shows "bc_inv (binit s)" "held (bufs (binit s)) = Map.empty" "pinned (bufs (binit s)) = {}" "ide (binit s) = ide s"
    "dstate.more (binit s) = dstate.more s" "\<And>l. lock_free l (binit s)"
proof -
  have z: "\<not> b_busy zero_buf \<and> \<not> b_dirty zero_buf" by (simp add: zero_buf_def)
  have r: "ide_ready s" using s(4) by (simp add: ide_ready_def)
  note b = binit_inv[of s, OF _ _ _ s(5,5,6) r s(2,3)]
  show "bc_inv (binit s)" "held (bufs (binit s)) = Map.empty" "pinned (bufs (binit s)) = {}" "ide (binit s) = ide s"
    "dstate.more (binit s) = dstate.more s"
    using b s(1) z D by (simp_all del: replicate_Suc)
  then have "lock_free L_bcache (binit s)" using bc_inv_data(2) by (auto simp: bc_ready_def)
  then show "lock_free l (binit s)" for l using b(6)[of l] s(1,5) z D by (cases "l = L_bcache") (simp_all del: replicate_Suc)
qed

end
