(* ===== verification/Log.thy ===== *)
theory Log
  imports Bcache
begin

text \<open>
  \<open>log.c\<close>: the redo log of the file system, with \<open>readsb\<close> of \<open>fs.c\<close>, which it calls.

  A transaction collects the numbers of the blocks it changes; the changed blocks stay in
  the buffer cache, marked dirty.  \<open>commit\<close> copies them to the log area, writes the log
  header (the commit point), installs the blocks at their home locations and clears the
  header.  The in-memory header has room for \<open>LOGSIZE\<close> block numbers; the source has its
  bounds check commented out, so that an access beyond the array is a fault of the model.
\<close>

section \<open>State\<close>

record lstate = dstate +
  log_start :: u32
  log_size :: u32
  log_outstanding :: u32
  log_committing :: bool
  log_dev :: u32
  lh_n :: u32
  lh_block :: "u32 list"

text \<open>\<open>log.lh.n\<close> as the bound of a loop that counts up from 0.\<close>

definition lh_count :: "'a lstate_scheme \<Rightarrow> nat" where
  "lh_count s = nat (sint (lh_n s))"

section \<open>Operations\<close>

definition readsb :: "u32 \<Rightarrow> 'a dstate_scheme \<Rightarrow> (superblock, 'a dstate_scheme) outcome" where
  "readsb dev s = bnd (bread dev 1 s) (\<lambda>bp s.
     let sb = superblock_of (b_data (bufs s ! bp))
     in bnd (brelse bp s) (\<lambda>_ s. Ret sb s))"

text \<open>\<open>memmove(to->data, from->data, BSIZE)\<close> between two buffers.\<close>

definition copy_buf :: "nat \<Rightarrow> nat \<Rightarrow> 'a dstate_scheme \<Rightarrow> 'a dstate_scheme" where
  "copy_buf dst src s = upd_buf dst (\<lambda>k. k\<lparr>b_data := b_data (bufs s ! src)\<rparr>) s"

fun install_loop :: "nat \<Rightarrow> nat \<Rightarrow> 'a lstate_scheme \<Rightarrow> (unit, 'a lstate_scheme) outcome" where
  "install_loop 0 tail s = Ret () s"
| "install_loop (Suc n) tail s =
     bnd (bread (log_dev s) (log_start s + of_nat tail + 1) s) (\<lambda>lbuf s.
     if tail \<ge> LOGSIZE then Fault ''install_trans: log.lh.block''
     else bnd (bread (log_dev s) (lh_block s ! tail) s) (\<lambda>dbuf s.
       let s = copy_buf dbuf lbuf s in
       bnd (bwrite dbuf s) (\<lambda>_ s.
       bnd (brelse lbuf s) (\<lambda>_ s.
       bnd (brelse dbuf s) (\<lambda>_ s.
       install_loop n (Suc tail) s)))))"

definition install_trans :: "'a lstate_scheme \<Rightarrow> (unit, 'a lstate_scheme) outcome" where
  "install_trans s = install_loop (lh_count s) 0 s"

text \<open>The header block: the count, then the block numbers.\<close>

definition head_blocks :: "nat \<Rightarrow> byte list \<Rightarrow> u32 list" where
  "head_blocks n bs = map (\<lambda>i. get32 bs (4 + 4 * i)) [0..<n]"

definition read_head :: "'a lstate_scheme \<Rightarrow> (unit, 'a lstate_scheme) outcome" where
  "read_head s = bnd (bread (log_dev s) (log_start s) s) (\<lambda>b s.
     let bs = b_data (bufs s ! b);
         s = s\<lparr>lh_n := get32 bs 0\<rparr>
     in if lh_count s > LOGSIZE then Fault ''read_head: log.lh.block''
        else brelse b (s\<lparr>lh_block := head_blocks (lh_count s) bs @ drop (lh_count s) (lh_block s)\<rparr>))"

definition head_bytes :: "u32 \<Rightarrow> u32 list \<Rightarrow> byte list" where
  "head_bytes n blks = bytes32 n @ concat (map bytes32 blks)"

definition write_head :: "'a lstate_scheme \<Rightarrow> (unit, 'a lstate_scheme) outcome" where
  "write_head s = bnd (bread (log_dev s) (log_start s) s) (\<lambda>b s.
     if lh_count s > LOGSIZE then Fault ''write_head: log.lh.block''
     else let s = upd_buf b (\<lambda>k. k\<lparr>b_data :=
                    blit (b_data k) 0 (head_bytes (lh_n s) (take (lh_count s) (lh_block s)))\<rparr>) s
       in bnd (bwrite b s) (\<lambda>_ s. brelse b s))"

definition recover_from_log :: "'a lstate_scheme \<Rightarrow> (unit, 'a lstate_scheme) outcome" where
  "recover_from_log s = bnd (read_head s) (\<lambda>_ s. bnd (install_trans s) (\<lambda>_ s.
     write_head (s\<lparr>lh_n := 0\<rparr>)))"

definition initlog :: "'a lstate_scheme \<Rightarrow> (unit, 'a lstate_scheme) outcome" where
  "initlog s =
     (if 4 + 4 * LOGSIZE \<ge> BSIZE then Panic ''initlog: too big logheader''
      else let s = initlock L_log ''log'' s in
        bnd (readsb ROOTDEV s) (\<lambda>sb s.
        recover_from_log (s\<lparr>log_start := sb_size sb - sb_nlog sb, log_size := sb_nlog sb,
                            log_dev := ROOTDEV\<rparr>)))"

text \<open>Both waits of the loop go back to its first test; a waiting process has left the CPU.\<close>

definition begin_op :: "'a lstate_scheme \<Rightarrow> (unit, 'a lstate_scheme) outcome" where
  "begin_op s = bnd (acquire L_log s) (\<lambda>_ s.
     if log_committing s then sleep Ch_log L_log s
     else if slt (of_nat LOGSIZE) (lh_n s + (log_outstanding s + 1) * of_nat MAXOPBLOCKS)
     then sleep Ch_log L_log s
     else release L_log (s\<lparr>log_outstanding := log_outstanding s + 1\<rparr>))"

fun write_log_loop :: "nat \<Rightarrow> nat \<Rightarrow> 'a lstate_scheme \<Rightarrow> (unit, 'a lstate_scheme) outcome" where
  "write_log_loop 0 tail s = Ret () s"
| "write_log_loop (Suc n) tail s =
     bnd (bread (log_dev s) (log_start s + of_nat tail + 1) s) (\<lambda>to s.
     if tail \<ge> LOGSIZE then Fault ''write_log: log.lh.block''
     else bnd (bread (log_dev s) (lh_block s ! tail) s) (\<lambda>from s.
       let s = copy_buf to from s in
       bnd (bwrite to s) (\<lambda>_ s.
       bnd (brelse from s) (\<lambda>_ s.
       bnd (brelse to s) (\<lambda>_ s.
       write_log_loop n (Suc tail) s)))))"

definition write_log :: "'a lstate_scheme \<Rightarrow> (unit, 'a lstate_scheme) outcome" where
  "write_log s = write_log_loop (lh_count s) 0 s"

definition commit :: "'a lstate_scheme \<Rightarrow> (unit, 'a lstate_scheme) outcome" where
  "commit s =
     (if slt 0 (lh_n s) then
        bnd (write_log s) (\<lambda>_ s.
        bnd (write_head s) (\<lambda>_ s.
        bnd (install_trans s) (\<lambda>_ s.
        write_head (s\<lparr>lh_n := 0\<rparr>))))
      else Ret () s)"

definition end_op :: "'a lstate_scheme \<Rightarrow> (unit, 'a lstate_scheme) outcome" where
  "end_op s = bnd (acquire L_log s) (\<lambda>_ s.
     let s = s\<lparr>log_outstanding := log_outstanding s - 1\<rparr> in
     if log_committing s then Panic ''log.committing''
     else if log_outstanding s = 0 then
       bnd (release L_log (s\<lparr>log_committing := True\<rparr>)) (\<lambda>_ s.
       bnd (commit s) (\<lambda>_ s.
       bnd (acquire L_log s) (\<lambda>_ s.
       bnd (wakeup Ch_log (s\<lparr>log_committing := False\<rparr>)) (\<lambda>_ s.
       release L_log s))))
     else bnd (wakeup Ch_log s) (\<lambda>_ s. release L_log s))"

text \<open>The slot of the header that a block goes to: its own, or the next one.\<close>

fun log_slot :: "u32 list \<Rightarrow> u32 \<Rightarrow> nat \<Rightarrow> nat" where
  "log_slot [] b i = i"
| "log_slot (x # xs) b i = (if x = b then i else log_slot xs b (Suc i))"

definition log_write :: "nat \<Rightarrow> 'a lstate_scheme \<Rightarrow> (unit, 'a lstate_scheme) outcome" where
  "log_write b s = bnd (acquire L_log s) (\<lambda>_ s.
     let bn = b_blockno (bufs s ! b);
         i = log_slot (take (lh_count s) (lh_block s)) bn 0
     in if i \<ge> LOGSIZE then Fault ''log_write: log.lh.block''
        else let s = s\<lparr>lh_block := (lh_block s)[i := bn]\<rparr>;
                 s = (if of_nat i = lh_n s then s\<lparr>lh_n := lh_n s + 1\<rparr> else s);
                 s = upd_buf b (\<lambda>k. k\<lparr>b_dirty := True\<rparr>) s
             in release L_log s)"

section \<open>A concrete state\<close>

text \<open>The log has its area from block 900 of disk 1, and it is empty.\<close>

definition demo_lstate :: "(key \<Rightarrow> byte list) \<Rightarrow> lstate" where
  "demo_lstate D = dstate.extend (demo_bufs D) (lstate.fields 900 30 0 False 1 0 (replicate LOGSIZE 0))"

end
