(* ===== verification/Inode.thy ===== *)
theory Inode
  imports Log
begin

text \<open>
  The lower layers of \<open>fs.c\<close>: the block allocator, the inode cache and the map from a
  file's blocks to disk blocks.

  A pointer to a cached inode is an index into \<open>icache.inode\<close>, or \<open>None\<close> for the null
  pointer.  \<open>devsw\<close> is the device table of \<open>file.h\<close>; only \<open>consoleinit\<close> fills an
  entry, so that an entry is either empty or that of the console.
\<close>

section \<open>State\<close>

record inode =
  i_dev :: u32
  i_inum :: u32
  i_ref :: u32
  i_busy :: bool
  i_valid :: bool
  i_type :: u16
  i_major :: u16
  i_minor :: u16
  i_nlink :: u16
  i_size :: u32
  i_addrs :: "u32 list"

datatype devops = No_dev | Console_dev

record istate = lstate +
  inodes :: "inode list"
  devsw :: "devops list"

definition NINODE :: nat where "NINODE = 50"
definition NDEV :: nat where "NDEV = 10"

definition upd_inode :: "nat \<Rightarrow> (inode \<Rightarrow> inode) \<Rightarrow> 'a istate_scheme \<Rightarrow> 'a istate_scheme" where
  "upd_inode i f s = s\<lparr>inodes := (inodes s)[i := f (inodes s ! i)]\<rparr>"

definition upd_data :: "nat \<Rightarrow> (byte list \<Rightarrow> byte list) \<Rightarrow> 'a dstate_scheme \<Rightarrow> 'a dstate_scheme" where
  "upd_data b f s = upd_buf b (\<lambda>k. k\<lparr>b_data := f (b_data k)\<rparr>) s"

section \<open>Blocks\<close>

definition bzero :: "u32 \<Rightarrow> u32 \<Rightarrow> 'a lstate_scheme \<Rightarrow> (unit, 'a lstate_scheme) outcome" where
  "bzero dev bno s = bnd (bread dev bno s) (\<lambda>bp s.
     bnd (log_write bp (upd_data bp (\<lambda>_. replicate BSIZE 0) s)) (\<lambda>_ s. brelse bp s))"

text \<open>Bit \<open>bi\<close> of a bitmap block.\<close>

definition bit_used :: "byte list \<Rightarrow> nat \<Rightarrow> bool" where
  "bit_used bs bi \<longleftrightarrow> bs ! (bi div 8) AND push_bit (bi mod 8) 1 \<noteq> 0"

definition set_used :: "nat \<Rightarrow> byte list \<Rightarrow> byte list" where
  "set_used bi bs = bs[bi div 8 := bs ! (bi div 8) OR push_bit (bi mod 8) 1]"

definition set_unused :: "nat \<Rightarrow> byte list \<Rightarrow> byte list" where
  "set_unused bi bs = bs[bi div 8 := bs ! (bi div 8) AND NOT (push_bit (bi mod 8) 1)]"

text \<open>The inner loop of \<open>balloc\<close>: the first clear bit of a block of the bitmap.\<close>

fun bit_scan :: "nat \<Rightarrow> nat \<Rightarrow> u32 \<Rightarrow> u32 \<Rightarrow> byte list \<Rightarrow> nat option" where
  "bit_scan 0 bi b lim bs = None"
| "bit_scan (Suc n) bi b lim bs =
     (if \<not> b + of_nat bi < lim then None
      else if \<not> bit_used bs bi then Some bi
      else bit_scan n (Suc bi) b lim bs)"

text \<open>
  The outer loop runs once for every \<open>BPB\<close> blocks of the file system; the fuel that
  \<open>balloc\<close> gives is one more than that.
\<close>

fun balloc_loop :: "nat \<Rightarrow> u32 \<Rightarrow> u32 \<Rightarrow> superblock \<Rightarrow> 'a lstate_scheme \<Rightarrow> (u32, 'a lstate_scheme) outcome" where
  "balloc_loop 0 b dev sb s = Fault ''balloc: out of fuel''"
| "balloc_loop (Suc n) b dev sb s =
     (if \<not> b < sb_size sb then Panic ''balloc: out of blocks''
      else bnd (bread dev (BBLOCK b (sb_ninodes sb)) s) (\<lambda>bp s.
        case bit_scan BPB 0 b (sb_size sb) (b_data (bufs s ! bp)) of
          Some bi \<Rightarrow>
            bnd (log_write bp (upd_data bp (set_used bi) s)) (\<lambda>_ s.
            bnd (brelse bp s) (\<lambda>_ s.
            bnd (bzero dev (b + of_nat bi) s) (\<lambda>_ s. Ret (b + of_nat bi) s)))
        | None \<Rightarrow> bnd (brelse bp s) (\<lambda>_ s. balloc_loop n (b + of_nat BPB) dev sb s)))"

definition balloc :: "u32 \<Rightarrow> 'a lstate_scheme \<Rightarrow> (u32, 'a lstate_scheme) outcome" where
  "balloc dev s = bnd (readsb dev s) (\<lambda>sb s.
     balloc_loop (unat (sb_size sb) div BPB + 2) 0 dev sb s)"

definition bfree :: "u32 \<Rightarrow> u32 \<Rightarrow> 'a lstate_scheme \<Rightarrow> (unit, 'a lstate_scheme) outcome" where
  "bfree dev b s = bnd (readsb dev s) (\<lambda>sb s.
     bnd (bread dev (BBLOCK b (sb_ninodes sb)) s) (\<lambda>bp s.
     let bi = unat b mod BPB in
     if \<not> bit_used (b_data (bufs s ! bp)) bi then Panic ''freeing free block''
     else bnd (log_write bp (upd_data bp (set_unused bi) s)) (\<lambda>_ s. brelse bp s)))"

section \<open>Inodes\<close>

definition iinit :: "'a istate_scheme \<Rightarrow> 'a istate_scheme" where
  "iinit s = initlock L_icache ''icache'' s"

text \<open>
  The search of \<open>iget\<close>: the slot that caches the inode (\<open>Inl\<close>), or else the first
  slot that is free, if any (\<open>Inr\<close>).
\<close>

fun iget_scan :: "u32 \<Rightarrow> u32 \<Rightarrow> nat \<Rightarrow> nat option \<Rightarrow> inode list \<Rightarrow> nat + nat option" where
  "iget_scan dev inum i emp [] = Inr emp"
| "iget_scan dev inum i emp (ip # ips) =
     (if slt 0 (i_ref ip) \<and> i_dev ip = dev \<and> i_inum ip = inum then Inl i
      else iget_scan dev inum (Suc i)
             (if emp = None \<and> i_ref ip = 0 then Some i else emp) ips)"

definition iget :: "u32 \<Rightarrow> u32 \<Rightarrow> 'a istate_scheme \<Rightarrow> (nat, 'a istate_scheme) outcome" where
  "iget dev inum s = bnd (acquire L_icache s) (\<lambda>_ s.
     case iget_scan dev inum 0 None (inodes s) of
       Inl i \<Rightarrow>
         bnd (release L_icache (upd_inode i (\<lambda>ip. ip\<lparr>i_ref := i_ref ip + 1\<rparr>) s)) (\<lambda>_ s. Ret i s)
     | Inr None \<Rightarrow> Panic ''iget: no inodes''
     | Inr (Some i) \<Rightarrow>
         bnd (release L_icache (upd_inode i (\<lambda>ip. ip\<lparr>i_dev := dev, i_inum := inum, i_ref := 1,
                i_busy := False, i_valid := False\<rparr>) s)) (\<lambda>_ s. Ret i s))"

text \<open>The inode \<open>inum\<close> within its block, and the block with the inode replaced.\<close>

definition ioff :: "u32 \<Rightarrow> nat" where
  "ioff inum = DINODE * (unat inum mod IPB)"

definition put_dinode :: "u32 \<Rightarrow> dinode \<Rightarrow> byte list \<Rightarrow> byte list" where
  "put_dinode inum d bs = blit bs (ioff inum) (dinode_bytes d)"

definition fresh_dinode :: "u16 \<Rightarrow> dinode" where
  "fresh_dinode ty = \<lparr>di_type = ty, di_major = 0, di_minor = 0, di_nlink = 0, di_size = 0,
     di_addrs = replicate (NDIRECT + 1) 0\<rparr>"

fun ialloc_loop :: "nat \<Rightarrow> u32 \<Rightarrow> u32 \<Rightarrow> u16 \<Rightarrow> superblock \<Rightarrow> 'a istate_scheme \<Rightarrow>
    (nat, 'a istate_scheme) outcome" where
  "ialloc_loop 0 inum dev ty sb s = Panic ''ialloc: no inodes''"
| "ialloc_loop (Suc n) inum dev ty sb s =
     bnd (bread dev (IBLOCK inum) s) (\<lambda>bp s.
     if di_type (dinode_at (b_data (bufs s ! bp)) (ioff inum)) = 0 then
       bnd (log_write bp (upd_data bp (put_dinode inum (fresh_dinode ty)) s)) (\<lambda>_ s.
       bnd (brelse bp s) (\<lambda>_ s. iget dev inum s))
     else bnd (brelse bp s) (\<lambda>_ s. ialloc_loop n (inum + 1) dev ty sb s))"

definition ialloc :: "u32 \<Rightarrow> u16 \<Rightarrow> 'a istate_scheme \<Rightarrow> (nat, 'a istate_scheme) outcome" where
  "ialloc dev ty s = bnd (readsb dev s) (\<lambda>sb s.
     ialloc_loop (unat (sb_ninodes sb) - 1) 1 dev ty sb s)"

definition dinode_of :: "inode \<Rightarrow> dinode" where
  "dinode_of ip = \<lparr>di_type = i_type ip, di_major = i_major ip, di_minor = i_minor ip,
     di_nlink = i_nlink ip, di_size = i_size ip, di_addrs = i_addrs ip\<rparr>"

definition load_dinode :: "dinode \<Rightarrow> inode \<Rightarrow> inode" where
  "load_dinode d ip = ip\<lparr>i_type := di_type d, i_major := di_major d, i_minor := di_minor d,
     i_nlink := di_nlink d, i_size := di_size d, i_addrs := di_addrs d\<rparr>"

definition iupdate :: "nat \<Rightarrow> 'a istate_scheme \<Rightarrow> (unit, 'a istate_scheme) outcome" where
  "iupdate i s =
     (let ip = inodes s ! i in
      bnd (bread (i_dev ip) (IBLOCK (i_inum ip)) s) (\<lambda>bp s.
      bnd (log_write bp (upd_data bp (put_dinode (i_inum ip) (dinode_of (inodes s ! i))) s)) (\<lambda>_ s.
      brelse bp s)))"

definition idup :: "nat option \<Rightarrow> 'a istate_scheme \<Rightarrow> (nat, 'a istate_scheme) outcome" where
  "idup ipo s = bnd (acquire L_icache s) (\<lambda>_ s.
     case ipo of None \<Rightarrow> Fault ''idup: null inode''
     | Some i \<Rightarrow> bnd (release L_icache (upd_inode i (\<lambda>ip. ip\<lparr>i_ref := i_ref ip + 1\<rparr>) s)) (\<lambda>_ s. Ret i s))"

text \<open>\<open>ilock\<close> waits while another process holds the inode.\<close>

definition ilock :: "nat option \<Rightarrow> 'a istate_scheme \<Rightarrow> (unit, 'a istate_scheme) outcome" where
  "ilock ipo s =
     (case ipo of None \<Rightarrow> Panic ''ilock''
      | Some i \<Rightarrow>
        if slt (i_ref (inodes s ! i)) 1 then Panic ''ilock''
        else bnd (acquire L_icache s) (\<lambda>_ s.
          if i_busy (inodes s ! i) then sleep (Ch_inode i) L_icache s
          else bnd (release L_icache (upd_inode i (\<lambda>ip. ip\<lparr>i_busy := True\<rparr>) s)) (\<lambda>_ s.
            if i_valid (inodes s ! i) then Ret () s
            else let ip = inodes s ! i in
              bnd (bread (i_dev ip) (IBLOCK (i_inum ip)) s) (\<lambda>bp s.
              let s = upd_inode i (load_dinode (dinode_at (b_data (bufs s ! bp)) (ioff (i_inum ip)))) s in
              bnd (brelse bp s) (\<lambda>_ s.
              let s = upd_inode i (\<lambda>ip. ip\<lparr>i_valid := True\<rparr>) s in
              if i_type (inodes s ! i) = 0 then Panic ''ilock: no type'' else Ret () s)))))"

definition iunlock :: "nat option \<Rightarrow> 'a istate_scheme \<Rightarrow> (unit, 'a istate_scheme) outcome" where
  "iunlock ipo s =
     (case ipo of None \<Rightarrow> Panic ''iunlock''
      | Some i \<Rightarrow>
        if \<not> i_busy (inodes s ! i) \<or> slt (i_ref (inodes s ! i)) 1 then Panic ''iunlock''
        else bnd (acquire L_icache s) (\<lambda>_ s.
          bnd (wakeup (Ch_inode i) (upd_inode i (\<lambda>ip. ip\<lparr>i_busy := False\<rparr>) s)) (\<lambda>_ s.
          release L_icache s)))"

section \<open>Truncation\<close>

fun trunc_direct :: "nat \<Rightarrow> nat \<Rightarrow> nat \<Rightarrow> 'a istate_scheme \<Rightarrow> (unit, 'a istate_scheme) outcome" where
  "trunc_direct 0 j i s = Ret () s"
| "trunc_direct (Suc n) j i s =
     (let ip = inodes s ! i in
      if i_addrs ip ! j \<noteq> 0 then
        bnd (bfree (i_dev ip) (i_addrs ip ! j) s) (\<lambda>_ s.
        trunc_direct n (Suc j) i (upd_inode i (\<lambda>ip. ip\<lparr>i_addrs := (i_addrs ip)[j := 0]\<rparr>) s))
      else trunc_direct n (Suc j) i s)"

fun trunc_indirect :: "nat \<Rightarrow> nat \<Rightarrow> u32 \<Rightarrow> nat \<Rightarrow> 'a lstate_scheme \<Rightarrow> (unit, 'a lstate_scheme) outcome" where
  "trunc_indirect 0 j dev bp s = Ret () s"
| "trunc_indirect (Suc n) j dev bp s =
     (let a = get32 (b_data (bufs s ! bp)) (4 * j) in
      bnd (if a \<noteq> 0 then bfree dev a s else Ret () s) (\<lambda>_ s. trunc_indirect n (Suc j) dev bp s))"

definition itrunc :: "nat \<Rightarrow> 'a istate_scheme \<Rightarrow> (unit, 'a istate_scheme) outcome" where
  "itrunc i s = bnd (trunc_direct NDIRECT 0 i s) (\<lambda>_ s.
     let ip = inodes s ! i in
     bnd (if i_addrs ip ! NDIRECT \<noteq> 0 then
            bnd (bread (i_dev ip) (i_addrs ip ! NDIRECT) s) (\<lambda>bp s.
            bnd (trunc_indirect NINDIRECT 0 (i_dev ip) bp s) (\<lambda>_ s.
            bnd (brelse bp s) (\<lambda>_ s.
            bnd (bfree (i_dev ip) (i_addrs ip ! NDIRECT) s) (\<lambda>_ s.
            Ret () (upd_inode i (\<lambda>ip. ip\<lparr>i_addrs := (i_addrs ip)[NDIRECT := 0]\<rparr>) s)))))
          else Ret () s) (\<lambda>_ s.
     iupdate i (upd_inode i (\<lambda>ip. ip\<lparr>i_size := 0\<rparr>) s)))"

definition iput :: "nat option \<Rightarrow> 'a istate_scheme \<Rightarrow> (unit, 'a istate_scheme) outcome" where
  "iput ipo s = bnd (acquire L_icache s) (\<lambda>_ s.
     case ipo of None \<Rightarrow> Fault ''iput: null inode''
     | Some i \<Rightarrow>
       let ip = inodes s ! i in
       bnd (if i_ref ip = 1 \<and> i_valid ip \<and> i_nlink ip = 0 then
              if i_busy ip then Panic ''iput busy''
              else bnd (release L_icache (upd_inode i (\<lambda>ip. ip\<lparr>i_busy := True\<rparr>) s)) (\<lambda>_ s.
                bnd (itrunc i s) (\<lambda>_ s.
                bnd (iupdate i (upd_inode i (\<lambda>ip. ip\<lparr>i_type := 0\<rparr>) s)) (\<lambda>_ s.
                bnd (acquire L_icache s) (\<lambda>_ s.
                wakeup (Ch_inode i) (upd_inode i (\<lambda>ip. ip\<lparr>i_busy := False, i_valid := False\<rparr>) s)))))
            else Ret () s) (\<lambda>_ s.
       release L_icache (upd_inode i (\<lambda>ip. ip\<lparr>i_ref := i_ref ip - 1\<rparr>) s)))"

definition iunlockput :: "nat option \<Rightarrow> 'a istate_scheme \<Rightarrow> (unit, 'a istate_scheme) outcome" where
  "iunlockput ipo s = bnd (iunlock ipo s) (\<lambda>_ s. iput ipo s)"

section \<open>File blocks\<close>

definition bmap :: "nat \<Rightarrow> u32 \<Rightarrow> 'a istate_scheme \<Rightarrow> (u32, 'a istate_scheme) outcome" where
  "bmap i bn s =
     (let ip = inodes s ! i in
      if unat bn < NDIRECT then
        let addr = i_addrs ip ! unat bn in
        if addr = 0 then
          bnd (balloc (i_dev ip) s) (\<lambda>addr s.
          Ret addr (upd_inode i (\<lambda>ip. ip\<lparr>i_addrs := (i_addrs ip)[unat bn := addr]\<rparr>) s))
        else Ret addr s
      else let bn = bn - of_nat NDIRECT in
        if unat bn < NINDIRECT then
          bnd (if i_addrs ip ! NDIRECT = 0 then
                 bnd (balloc (i_dev ip) s) (\<lambda>addr s.
                 Ret addr (upd_inode i (\<lambda>ip. ip\<lparr>i_addrs := (i_addrs ip)[NDIRECT := addr]\<rparr>) s))
               else Ret (i_addrs ip ! NDIRECT) s) (\<lambda>addr s.
          bnd (bread (i_dev ip) addr s) (\<lambda>bp s.
          let addr = get32 (b_data (bufs s ! bp)) (4 * unat bn) in
          bnd (if addr = 0 then
                 bnd (balloc (i_dev ip) s) (\<lambda>addr s.
                 let s = upd_data bp (\<lambda>bs. blit bs (4 * unat bn) (bytes32 addr)) s in
                 bnd (log_write bp s) (\<lambda>_ s. Ret addr s))
               else Ret addr s) (\<lambda>addr s.
          bnd (brelse bp s) (\<lambda>_ s. Ret addr s))))
        else Panic ''bmap: out of range'')"

record stat =
  st_type :: u16
  st_dev :: u32
  st_ino :: u32
  st_nlink :: u16
  st_size :: u32

definition stati :: "inode \<Rightarrow> stat" where
  "stati ip = \<lparr>st_type = i_type ip, st_dev = i_dev ip, st_ino = i_inum ip, st_nlink = i_nlink ip,
     st_size = i_size ip\<rparr>"

section \<open>A concrete state\<close>

definition zero_inode :: inode where
  "zero_inode = \<lparr>i_dev = 0, i_inum = 0, i_ref = 0, i_busy = False, i_valid = False, i_type = 0, i_major = 0, i_minor = 0,
     i_nlink = 0, i_size = 0, i_addrs = replicate (NDIRECT + 1) 0\<rparr>"

definition demo_istate :: "(key \<Rightarrow> byte list) \<Rightarrow> istate" where
  "demo_istate D = lstate.extend (demo_lstate D) (istate.fields (replicate NINODE zero_inode) (replicate NDEV No_dev))"

end
