(* ===== verification/Console.thy ===== *)
theory Console
  imports Inode
begin

text \<open>
  The input half of \<open>console.c\<close>, the keyboard driver \<open>kbd.c\<close> with the key maps of
  \<open>kbd.h\<close>, the serial port's input and initialisation (\<open>uart.c\<close>), and \<open>panic\<close>.

  Input is kept in a ring of 128 characters with three free-running 32-bit indices: read,
  write and edit.  The line being edited is between the write and the edit index.
\<close>

section \<open>State\<close>

text \<open>
  \<open>kbd_in\<close> and \<open>uart_in\<close> are the bytes that the keyboard controller and the serial port
  hold for the kernel; \<open>kbd_shift\<close> is the static variable of \<open>kbdgetc\<close>;
  \<open>uart_there\<close> tells whether the machine has a serial port.
\<close>

record nstate = istate +
  in_buf :: "byte list"
  in_r :: u32
  in_w :: u32
  in_e :: u32
  kbd_in :: "byte list"
  kbd_shift :: u32
  uart_in :: "byte list"
  uart_there :: bool

definition INPUT_BUF :: nat where "INPUT_BUF = 128"

abbreviation CTRL_D :: u32 where "CTRL_D \<equiv> 4"
abbreviation CTRL_H :: u32 where "CTRL_H \<equiv> 8"
abbreviation CTRL_P :: u32 where "CTRL_P \<equiv> 16"
abbreviation CTRL_U :: u32 where "CTRL_U \<equiv> 21"

section \<open>Panic\<close>

text \<open>The output of \<open>panic\<close> and the state in which the machine then stops.\<close>

fun panic_pcs :: "u32 list \<Rightarrow> 'a cstate_scheme \<Rightarrow> (unit, 'a cstate_scheme) outcome" where
  "panic_pcs [] s = Ret () s"
| "panic_pcs (pc # rest) s = bnd (cprintf '' %p'' [A_int pc] s) (\<lambda>_ s. panic_pcs rest s)"

definition panic :: "string \<Rightarrow> 'a cstate_scheme \<Rightarrow> (unit, 'a cstate_scheme) outcome" where
  "panic msg s =
     (let s = cli s; s = s\<lparr>cons_locking := False\<rparr> in
      bnd (cprintf ''cpu%d: panic: '' [A_int (of_nat (cpu_id (this_cpu s)))] s) (\<lambda>_ s.
      bnd (cprintf msg [] s) (\<lambda>_ s.
      bnd (cprintf LF [] s) (\<lambda>_ s.
      bnd (panic_pcs (getcallerpcs (mem s) (ebp s + 8)) s) (\<lambda>_ s.
      Ret () (s\<lparr>panicked := True\<rparr>))))))"

section \<open>Line editing\<close>

definition in_at :: "'a nstate_scheme \<Rightarrow> u32 \<Rightarrow> byte" where
  "in_at s i = in_buf s ! (unat i mod INPUT_BUF)"

text \<open>Control-U: erase back to the write index or the last line feed.\<close>

fun kill_line :: "nat \<Rightarrow> 'a nstate_scheme \<Rightarrow> (unit, 'a nstate_scheme) outcome" where
  "kill_line 0 s = Fault ''consoleintr: out of fuel''"
| "kill_line (Suc n) s =
     (if in_e s \<noteq> in_w s \<and> in_at s (in_e s - 1) \<noteq> 10
      then bnd (consputc BACKSPACE (s\<lparr>in_e := in_e s - 1\<rparr>)) (\<lambda>_ s. kill_line n s)
      else Ret () s)"

definition input_char :: "u32 \<Rightarrow> 'a nstate_scheme \<Rightarrow> (unit, 'a nstate_scheme) outcome" where
  "input_char c s =
     (if c = CTRL_P then procdump s
      else if c = CTRL_U then kill_line (Suc (unat (in_e s - in_w s))) s
      else if c = CTRL_H \<or> c = 0x7f then
        (if in_e s \<noteq> in_w s then consputc BACKSPACE (s\<lparr>in_e := in_e s - 1\<rparr>) else Ret () s)
      else if c \<noteq> 0 \<and> in_e s - in_r s < of_nat INPUT_BUF then
        let c = (if c = 13 then 10 else c);
            s = s\<lparr>in_buf := (in_buf s)[unat (in_e s) mod INPUT_BUF := ucast c], in_e := in_e s + 1\<rparr>
        in bnd (consputc c s) (\<lambda>_ s.
           if c = 10 \<or> c = CTRL_D \<or> in_e s = in_r s + of_nat INPUT_BUF
           then wakeup Ch_input (s\<lparr>in_w := in_e s\<rparr>) else Ret () s)
      else Ret () s)"

text \<open>
  The loop ends when the device has no more input.  Every call of the device's routine
  takes a byte that the device holds, so their number is the fuel.
\<close>

fun consoleintr_loop :: "nat \<Rightarrow> ('a nstate_scheme \<Rightarrow> u32 \<times> 'a nstate_scheme) \<Rightarrow> 'a nstate_scheme \<Rightarrow>
    (unit, 'a nstate_scheme) outcome" where
  "consoleintr_loop 0 getc s = Fault ''consoleintr: out of fuel''"
| "consoleintr_loop (Suc n) getc s =
     (case getc s of (c, s) \<Rightarrow>
        if sle 0 c then bnd (input_char c s) (\<lambda>_ s. consoleintr_loop n getc s) else Ret () s)"

definition consoleintr :: "nat \<Rightarrow> ('a nstate_scheme \<Rightarrow> u32 \<times> 'a nstate_scheme) \<Rightarrow> 'a nstate_scheme \<Rightarrow>
    (unit, 'a nstate_scheme) outcome" where
  "consoleintr n getc s = bnd (acquire L_input s) (\<lambda>_ s.
     bnd (consoleintr_loop n getc s) (\<lambda>_ s. release L_input s))"

section \<open>Reading and writing the console\<close>

text \<open>
  The loop of \<open>consoleread\<close> with \<open>n\<close> characters still wanted and \<open>k\<close> delivered:
  \<open>Inl\<close> when the waiting process was killed, \<open>Inr\<close> with the characters delivered.
\<close>

fun consoleread_loop :: "nat \<Rightarrow> nat \<Rightarrow> addr option \<Rightarrow> 'a nstate_scheme \<Rightarrow>
    (unit + byte list, 'a nstate_scheme) outcome" where
  "consoleread_loop 0 k dst s = Ret (Inr []) s"
| "consoleread_loop (Suc n) k dst s =
     (if in_r s = in_w s then with_proc (\<lambda>me s.
        if killed (ptable s ! me) then Ret (Inl ()) s else sleep Ch_input L_input s) s
      else let c = in_at s (in_r s); s = s\<lparr>in_r := in_r s + 1\<rparr> in
        if c = 4 then Ret (Inr []) (if k > 0 then s\<lparr>in_r := in_r s - 1\<rparr> else s)
        else bnd (deliver dst k [c] s) (\<lambda>_ s.
          if c = 10 then Ret (Inr [c]) s
          else bnd (consoleread_loop n (Suc k) dst s) (\<lambda>r s. Ret (map_sum id ((#) c) r) s)))"

definition consoleread :: "nat \<Rightarrow> addr option \<Rightarrow> u32 \<Rightarrow> 'a nstate_scheme \<Rightarrow>
    (u32 \<times> byte list, 'a nstate_scheme) outcome" where
  "consoleread i dst n s = bnd (iunlock (Some i) s) (\<lambda>_ s.
     bnd (acquire L_input s) (\<lambda>_ s.
     bnd (consoleread_loop (nat (sint n)) 0 dst s) (\<lambda>r s.
     bnd (release L_input s) (\<lambda>_ s.
     bnd (ilock (Some i) s) (\<lambda>_ s.
     Ret (case r of Inl _ \<Rightarrow> (- 1, []) | Inr bs \<Rightarrow> (of_nat (length bs), bs)) s)))))"

fun consolewrite_loop :: "nat \<Rightarrow> nat \<Rightarrow> source \<Rightarrow> 'a vstate_scheme \<Rightarrow> (unit, 'a vstate_scheme) outcome" where
  "consolewrite_loop 0 k src s = Ret () s"
| "consolewrite_loop (Suc n) k src s = bnd (fetch src k 1 s) (\<lambda>bs s.
     bnd (consputc (ucast (bs ! 0)) s) (\<lambda>_ s. consolewrite_loop n (Suc k) src s))"

definition consolewrite :: "nat \<Rightarrow> source \<Rightarrow> u32 \<Rightarrow> 'a nstate_scheme \<Rightarrow> (u32, 'a nstate_scheme) outcome" where
  "consolewrite i src n s = bnd (iunlock (Some i) s) (\<lambda>_ s.
     bnd (acquire L_cons s) (\<lambda>_ s.
     bnd (consolewrite_loop (nat (sint n)) 0 src s) (\<lambda>_ s.
     bnd (release L_cons s) (\<lambda>_ s.
     bnd (ilock (Some i) s) (\<lambda>_ s. Ret n s)))))"

definition consoleinit :: "'a nstate_scheme \<Rightarrow> 'a nstate_scheme" where
  "consoleinit s =
     (let s = initlock L_cons ''console'' s;
          s = initlock L_input ''input'' s;
          s = s\<lparr>devsw := (devsw s)[1 := Console_dev], cons_locking := True\<rparr>;
          s = picenable IRQ_KBD s
      in ioapicenable IRQ_KBD 0 s)"

section \<open>The keyboard\<close>

abbreviation E0ESC :: u32 where "E0ESC \<equiv> 0x40"
abbreviation CAPSLOCK :: u32 where "CAPSLOCK \<equiv> 8"

definition shiftcode :: "nat \<Rightarrow> u32" where
  "shiftcode d = (if d = 0x1D \<or> d = 0x9D then 2 else if d = 0x2A \<or> d = 0x36 then 1
     else if d = 0x38 \<or> d = 0xB8 then 4 else 0)"

definition togglecode :: "nat \<Rightarrow> u32" where
  "togglecode d = (if d = 0x3A then 8 else if d = 0x45 then 16 else if d = 0x46 then 32 else 0)"

text \<open>The codes that the three maps share: the keypad and the special keys.\<close>

definition keypad :: "nat \<Rightarrow> u32 option" where
  "keypad d = map_of [(0xC8, 0xE2), (0xD0, 0xE3), (0xC9, 0xE6), (0xD1, 0xE7), (0xCB, 0xE4), (0xCD, 0xE5),
     (0x97, 0xE0), (0xCF, 0xE1), (0xD2, 0xE8), (0xD3, 0xE9)] d"

definition keymap :: "u32 list \<Rightarrow> u32 \<Rightarrow> u32 \<Rightarrow> nat \<Rightarrow> u32" where
  "keymap tab enter slash d =
     (if d < length tab then tab ! d
      else if d = 0x9C then enter else if d = 0xB5 then slash
      else case keypad d of Some c \<Rightarrow> c | None \<Rightarrow> 0)"

definition normalmap :: "nat \<Rightarrow> u32" where
  "normalmap = keymap
     ([0, 0x1B] @ map char32 ''1234567890-='' @ [8, 9] @ map char32 ''qwertyuiop[]'' @ [10, 0] @
      map char32 ''asdfghjkl;'' @ [39, 96, 0, 92] @ map char32 ''zxcvbnm,./'' @ [0, 42, 0, 32] @
      replicate 13 0 @ map char32 ''789-456+1230.'') 10 47"

definition shiftmap :: "nat \<Rightarrow> u32" where
  "shiftmap = keymap
     ([0, 0x1B] @ map char32 ''!@#$%^&*()_+'' @ [8, 9] @ map char32 ''QWERTYUIOP{}'' @ [10, 0] @
      map char32 ''ASDFGHJKL:'' @ [34, 126, 0, 124] @ map char32 ''ZXCVBNM<>?'' @ [0, 42, 0, 32] @
      replicate 13 0 @ map char32 ''789-456+1230.'') 10 47"

text \<open>\<open>C(x)\<close> is the code of \<open>x\<close> less that of \<open>@\<close>, kept in an unsigned character.\<close>

definition ctl :: "char \<Rightarrow> u32" where
  "ctl c = ucast (ucast (char32 c - 64) :: byte)"

definition ctlmap :: "nat \<Rightarrow> u32" where
  "ctlmap = keymap
     (replicate 16 0 @ map ctl ''QWERTYUIOP'' @ [0, 0, 13, 0] @ map ctl ''ASDFGHJKL'' @ [0, 0, 0, 0] @
      [ctl (CHR 0x5C)] @ map ctl ''ZXCVBNM'' @ [0, 0, ctl (CHR ''/''), 0, 0]) 13 (ctl (CHR ''/''))"

definition charcode :: "u32 \<Rightarrow> nat \<Rightarrow> u32" where
  "charcode sh = (if sh AND 3 = 0 then normalmap else if sh AND 3 = 1 then shiftmap else ctlmap)"

definition capslock :: "u32 \<Rightarrow> u32" where
  "capslock c = (if 97 \<le> c \<and> c \<le> 122 then c + (65 - 97)
     else if 65 \<le> c \<and> c \<le> 90 then c + (97 - 65) else c)"

definition kbdgetc :: "'a nstate_scheme \<Rightarrow> u32 \<times> 'a nstate_scheme" where
  "kbdgetc s =
     (case kbd_in s of [] \<Rightarrow> (- 1, s)
      | b # rest \<Rightarrow>
        let data = unat b; sh = kbd_shift s; s = s\<lparr>kbd_in := rest\<rparr> in
        if data = 0xE0 then (0, s\<lparr>kbd_shift := sh OR E0ESC\<rparr>)
        else if data \<ge> 0x80 then
          let data = (if sh AND E0ESC \<noteq> 0 then data else data - 0x80)
          in (0, s\<lparr>kbd_shift := sh AND NOT (shiftcode data OR E0ESC)\<rparr>)
        else
          let data = (if sh AND E0ESC \<noteq> 0 then data + 0x80 else data);
              sh = (if sh AND E0ESC \<noteq> 0 then sh AND NOT E0ESC else sh);
              sh = sh OR shiftcode data;
              sh = sh XOR togglecode data;
              c = charcode sh data
          in ((if sh AND CAPSLOCK \<noteq> 0 then capslock c else c), s\<lparr>kbd_shift := sh\<rparr>))"

definition kbdintr :: "'a nstate_scheme \<Rightarrow> (unit, 'a nstate_scheme) outcome" where
  "kbdintr s = consoleintr (Suc (length (kbd_in s))) kbdgetc s"

section \<open>The serial port\<close>

fun uart_puts :: "string \<Rightarrow> 'a cstate_scheme \<Rightarrow> 'a cstate_scheme" where
  "uart_puts [] s = s"
| "uart_puts (c # cs) s = uart_puts cs (uartputc (char32 c) s)"

definition uartinit :: "'a nstate_scheme \<Rightarrow> 'a nstate_scheme" where
  "uartinit s =
     (let s = outb 0x3fa 0 s; s = outb 0x3fb 0x80 s; s = outb 0x3f8 12 s; s = outb 0x3f9 0 s;
          s = outb 0x3fb 0x03 s; s = outb 0x3fc 0 s; s = outb 0x3f9 0x01 s
      in if \<not> uart_there s then s
         else let s = s\<lparr>uart_on := True\<rparr>;
                  s = s\<lparr>uart_in := drop 1 (uart_in s)\<rparr>;
                  s = picenable IRQ_COM1 s;
                  s = ioapicenable IRQ_COM1 0 s
              in uart_puts (''xv6...'' @ LF) s)"

definition uartgetc :: "'a nstate_scheme \<Rightarrow> u32 \<times> 'a nstate_scheme" where
  "uartgetc s =
     (if \<not> uart_on s then (- 1, s)
      else case uart_in s of [] \<Rightarrow> (- 1, s)
        | b # rest \<Rightarrow> (ucast b, s\<lparr>uart_in := rest\<rparr>))"

definition uartintr :: "'a nstate_scheme \<Rightarrow> (unit, 'a nstate_scheme) outcome" where
  "uartintr s = consoleintr (Suc (length (uart_in s))) uartgetc s"

section \<open>A concrete state\<close>

definition demo_nstate :: "(key \<Rightarrow> byte list) \<Rightarrow> nstate" where
  "demo_nstate D = istate.extend (demo_istate D) (nstate.fields (replicate INPUT_BUF 0) 0 0 0 [] 0 [] True)"

end
