(* ===== verification/Fs.thy ===== *)
theory Fs
  imports Console
begin

text \<open>
  The upper layers of \<open>fs.c\<close>: the content of files, directories and path names.  A
  path is the list of the bytes of a C string without its terminator; a name buffer is a
  list of \<open>DIRSIZ\<close> bytes.
\<close>

section \<open>File content\<close>

text \<open>
  The loops copy at least one byte in each round, so the number of bytes is fuel enough.
  \<open>readi\<close> gives back, with its return value, the bytes it has copied.
\<close>

fun readi_loop :: "nat \<Rightarrow> nat \<Rightarrow> addr option \<Rightarrow> u32 \<Rightarrow> u32 \<Rightarrow> u32 \<Rightarrow> 'a istate_scheme \<Rightarrow>
    (byte list, 'a istate_scheme) outcome" where
  "readi_loop 0 i dst tot off n s = Fault ''readi: out of fuel''"
| "readi_loop (Suc k) i dst tot off n s =
     (if \<not> tot < n then Ret [] s
      else bnd (bmap i (off div of_nat BSIZE) s) (\<lambda>a s.
        bnd (bread (i_dev (inodes s ! i)) a s) (\<lambda>bp s.
        let m = min (n - tot) (of_nat BSIZE - off mod of_nat BSIZE);
            bs = take (unat m) (drop (unat (off mod of_nat BSIZE)) (b_data (bufs s ! bp)))
        in bnd (deliver dst (unat tot) bs s) (\<lambda>_ s.
           bnd (brelse bp s) (\<lambda>_ s.
           bnd (readi_loop k i dst (tot + m) (off + m) n s) (\<lambda>r s. Ret (bs @ r) s))))))"

definition dev_of :: "inode \<Rightarrow> 'a istate_scheme \<Rightarrow> devops" where
  "dev_of ip s =
     (if sint (i_major ip) < 0 \<or> sint (i_major ip) \<ge> int NDEV then No_dev
      else devsw s ! unat (i_major ip))"

definition readi :: "nat \<Rightarrow> addr option \<Rightarrow> u32 \<Rightarrow> u32 \<Rightarrow> 'a nstate_scheme \<Rightarrow>
    (u32 \<times> byte list, 'a nstate_scheme) outcome" where
  "readi i dst off n s =
     (let ip = inodes s ! i in
      if i_type ip = T_DEV then
        (case dev_of ip s of No_dev \<Rightarrow> Ret (- 1, []) s | Console_dev \<Rightarrow> consoleread i dst n s)
      else if off > i_size ip \<or> off + n < off then Ret (- 1, []) s
      else let n = (if off + n > i_size ip then i_size ip - off else n) in
        bnd (readi_loop (Suc (unat n)) i dst 0 off n s) (\<lambda>bs s. Ret (n, bs) s))"

fun writei_loop :: "nat \<Rightarrow> nat \<Rightarrow> source \<Rightarrow> u32 \<Rightarrow> u32 \<Rightarrow> u32 \<Rightarrow> 'a istate_scheme \<Rightarrow>
    (u32, 'a istate_scheme) outcome" where
  "writei_loop 0 i src tot off n s = Fault ''writei: out of fuel''"
| "writei_loop (Suc k) i src tot off n s =
     (if \<not> tot < n then Ret off s
      else bnd (bmap i (off div of_nat BSIZE) s) (\<lambda>a s.
        bnd (bread (i_dev (inodes s ! i)) a s) (\<lambda>bp s.
        let m = min (n - tot) (of_nat BSIZE - off mod of_nat BSIZE) in
        bnd (fetch src (unat tot) (unat m) s) (\<lambda>bs s.
        let s = upd_data bp (\<lambda>d. blit d (unat (off mod of_nat BSIZE)) bs) s in
        bnd (log_write bp s) (\<lambda>_ s.
        bnd (brelse bp s) (\<lambda>_ s.
        writei_loop k i src (tot + m) (off + m) n s))))))"

definition writei :: "nat \<Rightarrow> source \<Rightarrow> u32 \<Rightarrow> u32 \<Rightarrow> 'a nstate_scheme \<Rightarrow> (u32, 'a nstate_scheme) outcome" where
  "writei i src off n s =
     (let ip = inodes s ! i in
      if i_type ip = T_DEV then
        (case dev_of ip s of No_dev \<Rightarrow> Ret (- 1) s | Console_dev \<Rightarrow> consolewrite i src n s)
      else if off > i_size ip \<or> off + n < off then Ret (- 1) s
      else if off + n > of_nat (MAXFILE * BSIZE) then Ret (- 1) s
      else bnd (writei_loop (Suc (unat n)) i src 0 off n s) (\<lambda>off s.
        bnd (if n > 0 \<and> off > i_size (inodes s ! i)
             then iupdate i (upd_inode i (\<lambda>ip. ip\<lparr>i_size := off\<rparr>) s) else Ret () s) (\<lambda>_ s.
        Ret n s)))"

section \<open>Directories\<close>

text \<open>\<open>strncmp\<close> and \<open>strncpy\<close> on buffers; beyond its end a buffer counts as terminated.\<close>

fun first_byte :: "byte list \<Rightarrow> byte" where
  "first_byte [] = 0"
| "first_byte (b # bs) = b"

fun strncmp_list :: "nat \<Rightarrow> byte list \<Rightarrow> byte list \<Rightarrow> int" where
  "strncmp_list 0 p q = 0"
| "strncmp_list (Suc n) p q =
     (if first_byte p \<noteq> 0 \<and> first_byte p = first_byte q then strncmp_list n (tl p) (tl q)
      else uint (first_byte p) - uint (first_byte q))"

definition namecmp :: "byte list \<Rightarrow> byte list \<Rightarrow> int" where
  "namecmp p q = strncmp_list DIRSIZ p q"

fun strncpy_list :: "nat \<Rightarrow> byte list \<Rightarrow> byte list" where
  "strncpy_list 0 bs = []"
| "strncpy_list (Suc n) bs =
     (if first_byte bs = 0 then replicate (Suc n) 0 else first_byte bs # strncpy_list n (tl bs))"

text \<open>The size of a \<open>struct dirent\<close>.\<close>

definition DIRENT :: u32 where "DIRENT = 16"

fun dirlookup_loop :: "nat \<Rightarrow> u32 \<Rightarrow> nat \<Rightarrow> byte list \<Rightarrow> 'a nstate_scheme \<Rightarrow>
    ((nat \<times> u32) option, 'a nstate_scheme) outcome" where
  "dirlookup_loop 0 off dp nm s = Fault ''dirlookup: out of fuel''"
| "dirlookup_loop (Suc k) off dp nm s =
     (if \<not> off < i_size (inodes s ! dp) then Ret None s
      else bnd (readi dp None off DIRENT s) (\<lambda>r s.
        if fst r \<noteq> DIRENT then Panic ''dirlink read''
        else let de = dirent_of (snd r) in
          if de_inum de = 0 then dirlookup_loop k (off + DIRENT) dp nm s
          else if namecmp nm (de_name de) = 0 then
            bnd (iget (i_dev (inodes s ! dp)) (ucast (de_inum de)) s) (\<lambda>ip s. Ret (Some (ip, off)) s)
          else dirlookup_loop k (off + DIRENT) dp nm s))"

text \<open>The fuel of a directory loop: its entries, the test behind the last, and a partial entry.\<close>

definition dir_fuel :: "nat \<Rightarrow> 'a istate_scheme \<Rightarrow> nat" where
  "dir_fuel dp s = unat (i_size (inodes s ! dp)) div 16 + 2"

definition dirlookup :: "nat \<Rightarrow> byte list \<Rightarrow> 'a nstate_scheme \<Rightarrow>
    ((nat \<times> u32) option, 'a nstate_scheme) outcome" where
  "dirlookup dp nm s =
     (if i_type (inodes s ! dp) \<noteq> T_DIR then Panic ''dirlookup not DIR''
      else dirlookup_loop (dir_fuel dp s) 0 dp nm s)"

fun empty_slot :: "nat \<Rightarrow> u32 \<Rightarrow> nat \<Rightarrow> 'a nstate_scheme \<Rightarrow> (u32, 'a nstate_scheme) outcome" where
  "empty_slot 0 off dp s = Fault ''dirlink: out of fuel''"
| "empty_slot (Suc k) off dp s =
     (if \<not> off < i_size (inodes s ! dp) then Ret off s
      else bnd (readi dp None off DIRENT s) (\<lambda>r s.
        if fst r \<noteq> DIRENT then Panic ''dirlink read''
        else if de_inum (dirent_of (snd r)) = 0 then Ret off s
        else empty_slot k (off + DIRENT) dp s))"

definition dirlink :: "nat \<Rightarrow> byte list \<Rightarrow> u32 \<Rightarrow> 'a nstate_scheme \<Rightarrow> (u32, 'a nstate_scheme) outcome" where
  "dirlink dp nm inum s = bnd (dirlookup dp nm s) (\<lambda>r s.
     case r of Some (ip, _) \<Rightarrow> bnd (iput (Some ip) s) (\<lambda>_ s. Ret (- 1) s)
     | None \<Rightarrow>
         bnd (empty_slot (dir_fuel dp s) 0 dp s) (\<lambda>off s.
         let de = \<lparr>de_inum = ucast inum, de_name = strncpy_list DIRSIZ nm\<rparr> in
         bnd (writei dp (S_bytes (dirent_bytes de)) off DIRENT s) (\<lambda>w s.
         if w \<noteq> DIRENT then Panic ''dirlink'' else Ret 0 s)))"

section \<open>Paths\<close>

text \<open>\<open>47\<close> is the slash.  The result is the rest of the path and the new name buffer.\<close>

definition skipelem :: "byte list \<Rightarrow> byte list \<Rightarrow> (byte list \<times> byte list) option" where
  "skipelem path nm =
     (let p = dropWhile (\<lambda>c. c = 47) path in
      if p = [] then None
      else let e = takeWhile (\<lambda>c. c \<noteq> 47) p;
               nm = (if length e \<ge> DIRSIZ then blit nm 0 (take DIRSIZ e) else blit nm 0 (e @ [0]))
           in Some (dropWhile (\<lambda>c. c = 47) (dropWhile (\<lambda>c. c \<noteq> 47) p), nm))"

text \<open>The loop of \<open>namex\<close>: every round takes an element off the path.\<close>

fun namex_loop :: "nat \<Rightarrow> nat \<Rightarrow> byte list \<Rightarrow> bool \<Rightarrow> byte list \<Rightarrow> 'a nstate_scheme \<Rightarrow>
    ((nat \<times> byte list) option, 'a nstate_scheme) outcome" where
  "namex_loop 0 ip path par nm s = Fault ''namex: out of fuel''"
| "namex_loop (Suc k) ip path par nm s =
     (case skipelem path nm of
        None \<Rightarrow>
          if par then bnd (iput (Some ip) s) (\<lambda>_ s. Ret None s) else Ret (Some (ip, nm)) s
      | Some (path, nm) \<Rightarrow>
          bnd (ilock (Some ip) s) (\<lambda>_ s.
          if i_type (inodes s ! ip) \<noteq> T_DIR then bnd (iunlockput (Some ip) s) (\<lambda>_ s. Ret None s)
          else if par \<and> path = [] then bnd (iunlock (Some ip) s) (\<lambda>_ s. Ret (Some (ip, nm)) s)
          else bnd (dirlookup ip nm s) (\<lambda>r s.
            bnd (iunlockput (Some ip) s) (\<lambda>_ s.
            case r of None \<Rightarrow> Ret None s | Some (nxt, _) \<Rightarrow> namex_loop k nxt path par nm s))))"

definition namex :: "byte list \<Rightarrow> bool \<Rightarrow> byte list \<Rightarrow> 'a nstate_scheme \<Rightarrow>
    ((nat \<times> byte list) option, 'a nstate_scheme) outcome" where
  "namex path par nm s =
     bnd (if path \<noteq> [] \<and> hd path = 47 then iget ROOTDEV ROOTINO s
          else with_proc (\<lambda>me s. idup (cwd (ptable s ! me)) s) s) (\<lambda>ip s.
     namex_loop (Suc (length path)) ip path par nm s)"

text \<open>The name buffer of \<open>namei\<close> is a local variable that only \<open>skipelem\<close> writes.\<close>

definition namei :: "byte list \<Rightarrow> 'a nstate_scheme \<Rightarrow> (nat option, 'a nstate_scheme) outcome" where
  "namei path s = bnd (namex path False (replicate DIRSIZ 0) s) (\<lambda>r s. Ret (map_option fst r) s)"

definition nameiparent :: "byte list \<Rightarrow> byte list \<Rightarrow> 'a nstate_scheme \<Rightarrow>
    ((nat \<times> byte list) option, 'a nstate_scheme) outcome" where
  "nameiparent path nm s = namex path True nm s"

end
