(* ===== verification/File.thy ===== *)
theory File
  imports Fs
begin

text \<open>
  Pipes (\<open>pipe.c\<close>) and the table of open files (\<open>file.c\<close>).

  A pipe lives in a page of its own, whose address names it; \<open>pipes\<close> gives the structure
  at an address.  A file is an index into \<open>ftable.file\<close>.
\<close>

section \<open>State\<close>

record pipe =
  p_data :: "byte list"
  p_nread :: u32
  p_nwrite :: u32
  p_readopen :: bool
  p_writeopen :: bool

datatype fdtype = FD_NONE | FD_PIPE | FD_INODE

record kfile =
  f_type :: fdtype
  f_ref :: u32
  f_readable :: bool
  f_writable :: bool
  f_pipe :: addr
  f_ip :: "nat option"
  f_off :: u32

record fstate = nstate +
  ftable :: "kfile list"
  pipes :: "addr \<Rightarrow> pipe"

definition NFILE :: nat where "NFILE = 100"
definition PIPESIZE :: nat where "PIPESIZE = 512"

definition upd_file :: "nat \<Rightarrow> (kfile \<Rightarrow> kfile) \<Rightarrow> 'a fstate_scheme \<Rightarrow> 'a fstate_scheme" where
  "upd_file i f s = s\<lparr>ftable := (ftable s)[i := f (ftable s ! i)]\<rparr>"

definition upd_pipe :: "addr \<Rightarrow> (pipe \<Rightarrow> pipe) \<Rightarrow> 'a fstate_scheme \<Rightarrow> 'a fstate_scheme" where
  "upd_pipe p f s = s\<lparr>pipes := (pipes s)(p := f (pipes s p))\<rparr>"

section \<open>Pipes\<close>

definition pipeclose :: "addr \<Rightarrow> bool \<Rightarrow> 'a fstate_scheme \<Rightarrow> (unit, 'a fstate_scheme) outcome" where
  "pipeclose p writable s = bnd (acquire (L_pipe p) s) (\<lambda>_ s.
     bnd (if writable then wakeup (Ch_nread p) (upd_pipe p (\<lambda>q. q\<lparr>p_writeopen := False\<rparr>) s)
          else wakeup (Ch_nwrite p) (upd_pipe p (\<lambda>q. q\<lparr>p_readopen := False\<rparr>) s)) (\<lambda>_ s.
     if \<not> p_readopen (pipes s p) \<and> \<not> p_writeopen (pipes s p)
     then bnd (release (L_pipe p) s) (\<lambda>_ s. kfree p s)
     else release (L_pipe p) s))"

definition pipe_put :: "byte \<Rightarrow> pipe \<Rightarrow> pipe" where
  "pipe_put b q = q\<lparr>p_data := (p_data q)[unat (p_nwrite q) mod PIPESIZE := b], p_nwrite := p_nwrite q + 1\<rparr>"

definition pipe_full :: "pipe \<Rightarrow> bool" where
  "pipe_full q \<longleftrightarrow> p_nwrite q = p_nread q + of_nat PIPESIZE"

text \<open>The loop of \<open>pipewrite\<close>: \<open>False\<close> when it returns early with -1.\<close>

fun pipewrite_loop :: "nat \<Rightarrow> nat \<Rightarrow> addr \<Rightarrow> source \<Rightarrow> 'a fstate_scheme \<Rightarrow> (bool, 'a fstate_scheme) outcome" where
  "pipewrite_loop 0 k p src s = Ret True s"
| "pipewrite_loop (Suc n) k p src s =
     (if pipe_full (pipes s p) then with_proc (\<lambda>me s.
        if \<not> p_readopen (pipes s p) \<or> killed (ptable s ! me) then Ret False s
        else bnd (wakeup (Ch_nread p) s) (\<lambda>_ s. sleep (Ch_nwrite p) (L_pipe p) s)) s
      else bnd (fetch src k 1 s) (\<lambda>bs s.
        pipewrite_loop n (Suc k) p src (upd_pipe p (pipe_put (bs ! 0)) s)))"

definition pipewrite :: "addr \<Rightarrow> source \<Rightarrow> u32 \<Rightarrow> 'a fstate_scheme \<Rightarrow> (u32, 'a fstate_scheme) outcome" where
  "pipewrite p src n s = bnd (acquire (L_pipe p) s) (\<lambda>_ s.
     bnd (pipewrite_loop (nat (sint n)) 0 p src s) (\<lambda>ok s.
     if \<not> ok then bnd (release (L_pipe p) s) (\<lambda>_ s. Ret (- 1) s)
     else bnd (wakeup (Ch_nread p) s) (\<lambda>_ s. bnd (release (L_pipe p) s) (\<lambda>_ s. Ret n s))))"

definition pipe_get :: "pipe \<Rightarrow> byte \<times> pipe" where
  "pipe_get q = (p_data q ! (unat (p_nread q) mod PIPESIZE), q\<lparr>p_nread := p_nread q + 1\<rparr>)"

fun piperead_loop :: "nat \<Rightarrow> nat \<Rightarrow> addr \<Rightarrow> addr option \<Rightarrow> 'a fstate_scheme \<Rightarrow> (byte list, 'a fstate_scheme) outcome" where
  "piperead_loop 0 k p dst s = Ret [] s"
| "piperead_loop (Suc n) k p dst s =
     (if p_nread (pipes s p) = p_nwrite (pipes s p) then Ret [] s
      else case pipe_get (pipes s p) of (b, q) \<Rightarrow>
        bnd (deliver dst k [b] (upd_pipe p (\<lambda>_. q) s)) (\<lambda>_ s.
        bnd (piperead_loop n (Suc k) p dst s) (\<lambda>bs s. Ret (b # bs) s)))"

definition piperead :: "addr \<Rightarrow> addr option \<Rightarrow> u32 \<Rightarrow> 'a fstate_scheme \<Rightarrow>
    (u32 \<times> byte list, 'a fstate_scheme) outcome" where
  "piperead p dst n s = bnd (acquire (L_pipe p) s) (\<lambda>_ s.
     if p_nread (pipes s p) = p_nwrite (pipes s p) \<and> p_writeopen (pipes s p) then with_proc (\<lambda>me s.
       if killed (ptable s ! me) then bnd (release (L_pipe p) s) (\<lambda>_ s. Ret (- 1, []) s)
       else sleep (Ch_nread p) (L_pipe p) s) s
     else bnd (piperead_loop (nat (sint n)) 0 p dst s) (\<lambda>bs s.
       bnd (wakeup (Ch_nwrite p) s) (\<lambda>_ s.
       bnd (release (L_pipe p) s) (\<lambda>_ s. Ret (of_nat (length bs), bs) s))))"

section \<open>Open files\<close>

definition fileinit :: "'a fstate_scheme \<Rightarrow> 'a fstate_scheme" where
  "fileinit s = initlock L_ftable ''ftable'' s"

fun free_file :: "nat \<Rightarrow> kfile list \<Rightarrow> nat option" where
  "free_file i [] = None"
| "free_file i (f # fs) = (if f_ref f = 0 then Some i else free_file (Suc i) fs)"

definition filealloc :: "'a fstate_scheme \<Rightarrow> (nat option, 'a fstate_scheme) outcome" where
  "filealloc s = bnd (acquire L_ftable s) (\<lambda>_ s.
     case free_file 0 (ftable s) of
       None \<Rightarrow> bnd (release L_ftable s) (\<lambda>_ s. Ret None s)
     | Some i \<Rightarrow> bnd (release L_ftable (upd_file i (\<lambda>f. f\<lparr>f_ref := 1\<rparr>) s)) (\<lambda>_ s. Ret (Some i) s))"

definition filedup :: "nat \<Rightarrow> 'a fstate_scheme \<Rightarrow> (nat, 'a fstate_scheme) outcome" where
  "filedup i s = bnd (acquire L_ftable s) (\<lambda>_ s.
     if slt (f_ref (ftable s ! i)) 1 then Panic ''filedup''
     else bnd (release L_ftable (upd_file i (\<lambda>f. f\<lparr>f_ref := f_ref f + 1\<rparr>) s)) (\<lambda>_ s. Ret i s))"

definition fileclose :: "nat \<Rightarrow> 'a fstate_scheme \<Rightarrow> (unit, 'a fstate_scheme) outcome" where
  "fileclose i s = bnd (acquire L_ftable s) (\<lambda>_ s.
     if slt (f_ref (ftable s ! i)) 1 then Panic ''fileclose''
     else let s = upd_file i (\<lambda>f. f\<lparr>f_ref := f_ref f - 1\<rparr>) s in
       if slt 0 (f_ref (ftable s ! i)) then release L_ftable s
       else let ff = ftable s ! i;
                s = upd_file i (\<lambda>f. f\<lparr>f_ref := 0, f_type := FD_NONE\<rparr>) s
            in bnd (release L_ftable s) (\<lambda>_ s.
               case f_type ff of
                 FD_PIPE \<Rightarrow> pipeclose (f_pipe ff) (f_writable ff) s
               | FD_INODE \<Rightarrow> bnd (begin_op s) (\<lambda>_ s. bnd (iput (f_ip ff) s) (\<lambda>_ s. end_op s))
               | FD_NONE \<Rightarrow> Ret () s))"

text \<open>
  The members of a \<open>struct stat\<close> in memory: the short type, the device, the inode number,
  the short link count and the size, each at its aligned offset.
\<close>

definition put_stat :: "addr \<Rightarrow> stat \<Rightarrow> 'a vstate_scheme \<Rightarrow> (unit, 'a vstate_scheme) outcome" where
  "put_stat a st s =
     bnd (put_bytes (a + 4) (bytes32 (st_dev st)) s) (\<lambda>_ s.
     bnd (put_bytes (a + 8) (bytes32 (st_ino st)) s) (\<lambda>_ s.
     bnd (put_bytes a (bytes16 (st_type st)) s) (\<lambda>_ s.
     bnd (put_bytes (a + 12) (bytes16 (st_nlink st)) s) (\<lambda>_ s.
     put_bytes (a + 16) (bytes32 (st_size st)) s))))"

text \<open>An operation on the inode of a file that the file must have.\<close>

definition with_ip :: "nat option \<Rightarrow> (nat \<Rightarrow> 's \<Rightarrow> ('r, 's) outcome) \<Rightarrow> 's \<Rightarrow> ('r, 's) outcome" where
  "with_ip ipo f s = (case ipo of None \<Rightarrow> Fault ''null inode'' | Some i \<Rightarrow> f i s)"

definition filestat :: "nat \<Rightarrow> addr \<Rightarrow> 'a fstate_scheme \<Rightarrow> (u32, 'a fstate_scheme) outcome" where
  "filestat i st s =
     (let f = ftable s ! i in
      if f_type f = FD_INODE then
        bnd (ilock (f_ip f) s) (\<lambda>_ s.
        bnd (with_ip (f_ip f) (\<lambda>ip s. put_stat st (stati (inodes s ! ip)) s) s) (\<lambda>_ s.
        bnd (iunlock (f_ip f) s) (\<lambda>_ s. Ret 0 s)))
      else Ret (- 1) s)"

definition fileread :: "nat \<Rightarrow> addr option \<Rightarrow> u32 \<Rightarrow> 'a fstate_scheme \<Rightarrow>
    (u32 \<times> byte list, 'a fstate_scheme) outcome" where
  "fileread i dst n s =
     (let f = ftable s ! i in
      if \<not> f_readable f then Ret (- 1, []) s
      else case f_type f of
        FD_PIPE \<Rightarrow> piperead (f_pipe f) dst n s
      | FD_INODE \<Rightarrow>
          bnd (ilock (f_ip f) s) (\<lambda>_ s.
          bnd (with_ip (f_ip f) (\<lambda>ip s. readi ip dst (f_off (ftable s ! i)) n s) s) (\<lambda>r s.
          let s = (if slt 0 (fst r) then upd_file i (\<lambda>f. f\<lparr>f_off := f_off f + fst r\<rparr>) s else s) in
          bnd (iunlock (f_ip f) s) (\<lambda>_ s. Ret r s)))
      | FD_NONE \<Rightarrow> Panic ''fileread'')"

text \<open>The most that one transaction of \<open>filewrite\<close> writes.\<close>

definition write_max :: u32 where "write_max = of_nat ((LOGSIZE - 1 - 1 - 2) div 2 * 512)"

definition source_at :: "source \<Rightarrow> u32 \<Rightarrow> source" where
  "source_at src k = (case src of S_mem a \<Rightarrow> S_mem (a + k) | S_bytes bs \<Rightarrow> S_bytes (drop (unat k) bs))"

text \<open>Each round of the loop writes at least one byte, or ends it.\<close>

fun filewrite_loop :: "nat \<Rightarrow> nat \<Rightarrow> source \<Rightarrow> u32 \<Rightarrow> u32 \<Rightarrow> 'a fstate_scheme \<Rightarrow> (u32, 'a fstate_scheme) outcome" where
  "filewrite_loop 0 fi src i n s = Fault ''filewrite: out of fuel''"
| "filewrite_loop (Suc k) fi src i n s =
     (if \<not> slt i n then Ret i s
      else let n1 = n - i; n1 = (if slt write_max n1 then write_max else n1); ipo = f_ip (ftable s ! fi) in
        bnd (begin_op s) (\<lambda>_ s.
        bnd (ilock ipo s) (\<lambda>_ s.
        bnd (with_ip ipo (\<lambda>ip s. writei ip (source_at src i) (f_off (ftable s ! fi)) n1 s) s) (\<lambda>r s.
        let s = (if slt 0 r then upd_file fi (\<lambda>f. f\<lparr>f_off := f_off f + r\<rparr>) s else s) in
        bnd (iunlock ipo s) (\<lambda>_ s.
        bnd (end_op s) (\<lambda>_ s.
        if slt r 0 then Ret i s
        else if r \<noteq> n1 then Panic ''short filewrite''
        else filewrite_loop k fi src (i + r) n s))))))"

definition filewrite :: "nat \<Rightarrow> source \<Rightarrow> u32 \<Rightarrow> 'a fstate_scheme \<Rightarrow> (u32, 'a fstate_scheme) outcome" where
  "filewrite fi src n s =
     (let f = ftable s ! fi in
      if \<not> f_writable f then Ret (- 1) s
      else case f_type f of
        FD_PIPE \<Rightarrow> pipewrite (f_pipe f) src n s
      | FD_INODE \<Rightarrow>
          bnd (filewrite_loop (Suc (nat (sint n))) fi src 0 n s) (\<lambda>i s. Ret (if i = n then n else - 1) s)
      | FD_NONE \<Rightarrow> Panic ''filewrite'')"

section \<open>Creating a pipe\<close>

definition close_opt :: "nat option \<Rightarrow> 'a fstate_scheme \<Rightarrow> (unit, 'a fstate_scheme) outcome" where
  "close_opt f s = (case f of None \<Rightarrow> Ret () s | Some i \<Rightarrow> fileclose i s)"

text \<open>The label \<open>bad\<close>; no path reaches it with a page allocated.\<close>

definition pipe_bad :: "nat option \<Rightarrow> nat option \<Rightarrow> 'a fstate_scheme \<Rightarrow> ((nat \<times> nat) option, 'a fstate_scheme) outcome" where
  "pipe_bad f0 f1 s = bnd (close_opt f0 s) (\<lambda>_ s. bnd (close_opt f1 s) (\<lambda>_ s. Ret None s))"

definition pipealloc :: "'a fstate_scheme \<Rightarrow> ((nat \<times> nat) option, 'a fstate_scheme) outcome" where
  "pipealloc s = bnd (filealloc s) (\<lambda>f0 s.
     case f0 of None \<Rightarrow> pipe_bad None None s
     | Some i0 \<Rightarrow>
       bnd (filealloc s) (\<lambda>f1 s.
       case f1 of None \<Rightarrow> pipe_bad (Some i0) None s
       | Some i1 \<Rightarrow>
         bnd (kalloc s) (\<lambda>p s.
         if p = 0 then pipe_bad (Some i0) (Some i1) s
         else let s = upd_pipe p (\<lambda>q. q\<lparr>p_readopen := True, p_writeopen := True, p_nwrite := 0, p_nread := 0\<rparr>) s;
                  s = initlock (L_pipe p) ''pipe'' s;
                  s = upd_file i0 (\<lambda>f. f\<lparr>f_type := FD_PIPE, f_readable := True, f_writable := False, f_pipe := p\<rparr>) s;
                  s = upd_file i1 (\<lambda>f. f\<lparr>f_type := FD_PIPE, f_readable := False, f_writable := True, f_pipe := p\<rparr>) s
              in Ret (Some (i0, i1)) s)))"

section \<open>A concrete state\<close>

definition zero_file :: kfile where
  "zero_file = \<lparr>f_type = FD_NONE, f_ref = 0, f_readable = False, f_writable = False, f_pipe = 0, f_ip = None, f_off = 0\<rparr>"

definition zero_pipe :: pipe where
  "zero_pipe = \<lparr>p_data = replicate PIPESIZE 0, p_nread = 0, p_nwrite = 0, p_readopen = True, p_writeopen = True\<rparr>"

definition demo_fstate :: "(key \<Rightarrow> byte list) \<Rightarrow> fstate" where
  "demo_fstate D = nstate.extend (demo_nstate D) (fstate.fields (replicate NFILE zero_file) (\<lambda>_. zero_pipe))"

lemmas demo_extend = demo_lstate_def demo_istate_def demo_nstate_def demo_fstate_def
  dstate.defs lstate.defs istate.defs nstate.defs fstate.defs

lemma demo_fstate_fields:
  "bufs (demo_fstate D) = replicate (Suc NBUF) zero_buf" "ide (demo_fstate D) = ide (demo_bufs D)" "idequeue (demo_fstate D) = None"
  "havedisk1 (demo_fstate D)" "lock_free l (demo_fstate D)" "cpu_wf (demo_fstate D)" "mem (demo_fstate D) = mem demo_state"
  "cpus (demo_fstate D) = cpus demo_state" "mycpu (demo_fstate D) = 0" "ptable (demo_fstate D) = ptable demo_state"
  "inodes (demo_fstate D) = replicate NINODE zero_inode" "pipes (demo_fstate D) = (\<lambda>_. zero_pipe)"
  "ftable (demo_fstate D) = replicate NFILE zero_file" "locks (demo_fstate D) = locks demo_state"
  using demo_bufs_fields(1-6,8-13)[of D] demo_bufs_fields(7)[of l D]
  by (simp_all add: demo_extend lock_free_def cpu_wf_def)

end
