(* ===== verification/Proclife.thy ===== *)
theory Proclife
  imports File
begin

text \<open>
  The life of a process: \<open>userinit\<close>, \<open>growproc\<close>, the \<open>fork\<close> family, \<open>forkret\<close>,
  \<open>exit\<close> and \<open>wait\<close> of \<open>proc.c\<close>, and \<open>loaduvm\<close> and \<open>exec\<close> of \<open>vm.c\<close> and
  \<open>exec.c\<close>.  They use the file table, the inode cache and the log, so they come after
  those components.
\<close>

section \<open>State\<close>

text \<open>
  \<open>first_ret\<close> is the static variable of \<open>forkret\<close>; the image of the first process is
  at a link-time address.
\<close>

record ustate = fstate +
  first_ret :: bool
  initcode_start :: addr
  initcode_size :: u32

definition upd_tf :: "addr \<Rightarrow> (trapframe \<Rightarrow> trapframe) \<Rightarrow> 'a pstate_scheme \<Rightarrow> 'a pstate_scheme" where
  "upd_tf a f s = s\<lparr>tfs := (tfs s)(a := f (tfs s a))\<rparr>"

definition zero_tf :: trapframe where
  "zero_tf = \<lparr>tf_edi = 0, tf_esi = 0, tf_ebp = 0, tf_oesp = 0, tf_ebx = 0, tf_edx = 0, tf_ecx = 0,
     tf_eax = 0, tf_gs = 0, tf_fs = 0, tf_es = 0, tf_ds = 0, tf_trapno = 0, tf_err = 0, tf_eip = 0,
     tf_cs = 0, tf_eflags = 0, tf_esp = 0, tf_ss = 0\<rparr>"

text \<open>The size of the array \<open>name\<close> of a process, less the terminator that \<open>safestrcpy\<close> adds.\<close>

definition cut_name :: "byte list \<Rightarrow> byte list" where
  "cut_name nm = take 15 nm"

section \<open>The first process\<close>

definition init_tf :: trapframe where
  "init_tf = zero_tf\<lparr>tf_cs := 4 * 8 OR 3, tf_ds := 5 * 8 OR 3, tf_es := 5 * 8 OR 3, tf_ss := 5 * 8 OR 3,
     tf_eflags := 0x200, tf_esp := PGSIZE, tf_eip := 0\<rparr>"

definition userinit :: "'a ustate_scheme \<Rightarrow> (unit, 'a ustate_scheme) outcome" where
  "userinit s = bnd (allocproc 300 s) (\<lambda>po s.
     let s = s\<lparr>initproc := po\<rparr> in
     bnd (setupkvm s) (\<lambda>d s.
     case po of None \<Rightarrow> Fault ''userinit: null proc''
     | Some p \<Rightarrow>
         let s = upd_proc p (\<lambda>q. q\<lparr>pgdir := d\<rparr>) s in
         if d = 0 then Panic ''userinit: out of memory?''
         else bnd (inituvm d (initcode_start s) (initcode_size s) s) (\<lambda>_ s.
           let s = upd_proc p (\<lambda>q. q\<lparr>sz := PGSIZE\<rparr>) s;
               s = upd_tf (tf (ptable s ! p)) (\<lambda>_. init_tf) s;
               s = upd_proc p (\<lambda>q. q\<lparr>name := cut_name (c_str ''initcode'')\<rparr>) s
           in bnd (namei [47] s) (\<lambda>ip s.
              Ret () (upd_proc p (\<lambda>q. q\<lparr>cwd := ip, state := RUNNABLE\<rparr>) s)))))"

section \<open>Growing and forking\<close>

definition growproc :: "u32 \<Rightarrow> 'a ustate_scheme \<Rightarrow> (int, 'a ustate_scheme) outcome" where
  "growproc n s = with_proc (\<lambda>me s.
     let z = sz (ptable s ! me); d = pgdir (ptable s ! me) in
     bnd (if slt 0 n then bnd (allocuvm d z (z + n) s) (\<lambda>z s. Ret (if z = 0 then None else Some z) s)
          else if slt n 0 then bnd (deallocuvm d z (z + n) s) (\<lambda>z s. Ret (if z = 0 then None else Some z) s)
          else Ret (Some z) s) (\<lambda>r s.
     case r of None \<Rightarrow> Ret (- 1) s
     | Some z \<Rightarrow>
         bnd (switchuvm me (upd_proc me (\<lambda>q. q\<lparr>sz := z\<rparr>) s)) (\<lambda>_ s. Ret 0 s))) s"

text \<open>The open files of the parent, from descriptor \<open>i\<close> on.\<close>

fun dup_files :: "nat \<Rightarrow> nat \<Rightarrow> nat \<Rightarrow> nat \<Rightarrow> 'a ustate_scheme \<Rightarrow> (unit, 'a ustate_scheme) outcome" where
  "dup_files 0 i me np s = Ret () s"
| "dup_files (Suc n) i me np s =
     (case ofile (ptable s ! me) ! i of None \<Rightarrow> dup_files n (Suc i) me np s
      | Some f \<Rightarrow> bnd (filedup f s) (\<lambda>f s.
          dup_files n (Suc i) me np (upd_proc np (\<lambda>q. q\<lparr>ofile := (ofile q)[i := Some f]\<rparr>) s)))"

text \<open>
  \<open>forks\<close> fills in the new process.  Under the stride scheduler the last writes are not
  protected by the lock of the process table.
\<close>

definition fork_fill :: "u32 \<Rightarrow> nat \<Rightarrow> nat \<Rightarrow> 'a ustate_scheme \<Rightarrow> (u32, 'a ustate_scheme) outcome" where
  "fork_fill tk me np s =
     (let s = upd_proc np (\<lambda>q. q\<lparr>sz := sz (ptable s ! me), parent := Some me\<rparr>) s;
          s = upd_tf (tf (ptable s ! np)) (\<lambda>_. tfs s (tf (ptable s ! me))) s
      in case stride_init tk (ptable s ! np) of None \<Rightarrow> Fault ''divide error''
         | Some q \<Rightarrow>
             let s = upd_proc np (\<lambda>_. q) s;
                 s = upd_tf (tf (ptable s ! np)) (\<lambda>f. f\<lparr>tf_eax := 0\<rparr>) s
             in bnd (dup_files NOFILE 0 me np s) (\<lambda>_ s.
                bnd (idup (cwd (ptable s ! me)) s) (\<lambda>ip s.
                let s = upd_proc np (\<lambda>q. q\<lparr>cwd := Some ip\<rparr>) s;
                    n = pid (ptable s ! np)
                in bnd (if isRoundRobin s then acquire L_ptable s else Ret () s) (\<lambda>_ s.
                   let s = upd_proc np (\<lambda>q. q\<lparr>state := RUNNABLE\<rparr>) s;
                       s = upd_proc np (\<lambda>q. q\<lparr>name := cut_name (name (ptable s ! me))\<rparr>) s
                   in bnd (if isRoundRobin s then release L_ptable s else Ret () s) (\<lambda>_ s. Ret n s)))))"

definition forks :: "u32 \<Rightarrow> 'a ustate_scheme \<Rightarrow> (u32, 'a ustate_scheme) outcome" where
  "forks tk s = bnd (allocproc tk s) (\<lambda>po s.
     case po of None \<Rightarrow> Ret (- 1) s
     | Some np \<Rightarrow>
         bnd (if isDebug s then cprintf (LF @ ''|-Fork pid %d executado com tickets %d-|'')
                [A_int (pid (ptable s ! np)), A_int tk] s else Ret () s) (\<lambda>_ s.
         with_proc (\<lambda>me s.
           bnd (copyuvm (pgdir (ptable s ! me)) (sz (ptable s ! me)) s) (\<lambda>d s.
           let s = upd_proc np (\<lambda>q. q\<lparr>pgdir := d\<rparr>) s in
           if d = 0 then
             bnd (kfree (kstack (ptable s ! np)) s) (\<lambda>_ s.
             Ret (- 1) (upd_proc np (\<lambda>q. q\<lparr>kstack := 0, state := UNUSED\<rparr>) s))
           else fork_fill tk me np s)) s))"

definition fork :: "'a ustate_scheme \<Rightarrow> (u32, 'a ustate_scheme) outcome" where "fork s = forks 500 s"
definition forkLowest :: "'a ustate_scheme \<Rightarrow> (u32, 'a ustate_scheme) outcome" where "forkLowest s = forks 100 s"
definition forkLow :: "'a ustate_scheme \<Rightarrow> (u32, 'a ustate_scheme) outcome" where "forkLow s = forks 300 s"
definition forkMedium :: "'a ustate_scheme \<Rightarrow> (u32, 'a ustate_scheme) outcome" where "forkMedium s = forks 500 s"
definition forkHigh :: "'a ustate_scheme \<Rightarrow> (u32, 'a ustate_scheme) outcome" where "forkHigh s = forks 750 s"
definition forkHighest :: "'a ustate_scheme \<Rightarrow> (u32, 'a ustate_scheme) outcome" where "forkHighest s = forks 990 s"

text \<open>Where a new process starts; it still holds the lock that the scheduler took.\<close>

definition forkret :: "'a ustate_scheme \<Rightarrow> (unit, 'a ustate_scheme) outcome" where
  "forkret s =
     (if isRoundRobin s then
        bnd (release L_ptable s) (\<lambda>_ s.
        if first_ret s then initlog (s\<lparr>first_ret := False\<rparr>) else Ret () s)
      else release L_ptable s)"

section \<open>Exit and wait\<close>

fun close_files :: "nat \<Rightarrow> nat \<Rightarrow> nat \<Rightarrow> 'a ustate_scheme \<Rightarrow> (unit, 'a ustate_scheme) outcome" where
  "close_files 0 fd me s = Ret () s"
| "close_files (Suc n) fd me s =
     (case ofile (ptable s ! me) ! fd of None \<Rightarrow> close_files n (Suc fd) me s
      | Some f \<Rightarrow> bnd (fileclose f s) (\<lambda>_ s.
          close_files n (Suc fd) me (upd_proc me (\<lambda>q. q\<lparr>ofile := (ofile q)[fd := None]\<rparr>) s)))"

text \<open>\<open>wakeup1\<close> on a process pointer that may be null.\<close>

definition wakeup_ptr :: "nat option \<Rightarrow> 'a pstate_scheme \<Rightarrow> 'a pstate_scheme" where
  "wakeup_ptr q s = s\<lparr>ptable := map (\<lambda>p. if state p = SLEEPING \<and> chan p = map_option Ch_proc q
      then p\<lparr>state := RUNNABLE\<rparr> else p) (ptable s)\<rparr>"

fun reparent :: "nat \<Rightarrow> nat \<Rightarrow> nat \<Rightarrow> 'a pstate_scheme \<Rightarrow> 'a pstate_scheme" where
  "reparent 0 i me s = s"
| "reparent (Suc n) i me s =
     reparent n (Suc i) me
       (if parent (ptable s ! i) = Some me then
          let s = upd_proc i (\<lambda>q. q\<lparr>parent := initproc s\<rparr>) s in
          if state (ptable s ! i) = ZOMBIE then wakeup_ptr (initproc s) s else s
        else s)"

definition exit :: "'a ustate_scheme \<Rightarrow> ('r, 'a ustate_scheme) outcome" where
  "exit s = with_proc (\<lambda>me s.
     bnd (if isDebug s then cprintf (LF @ ''|-Processo finalizado PID[%d] Tickets[%d] Passos[%d] -|'' @ LF)
            [A_int (pid (ptable s ! me)), A_int (tickets (ptable s ! me)), A_int (pass (ptable s ! me))] s
          else Ret () s) (\<lambda>_ s.
     if Some me = initproc s then Panic ''init exiting''
     else bnd (close_files NOFILE 0 me s) (\<lambda>_ s.
       bnd (if isRoundRobin s then begin_op s else Ret () s) (\<lambda>_ s.
       bnd (iput (cwd (ptable s ! me)) s) (\<lambda>_ s.
       bnd (if isRoundRobin s then end_op s else Ret () s) (\<lambda>_ s.
       let s = upd_proc me (\<lambda>q. q\<lparr>cwd := None\<rparr>) s in
       bnd (acquire L_ptable s) (\<lambda>_ s.
       let s = wakeup_ptr (parent (ptable s ! me)) s;
           s = reparent (length (ptable s)) 0 me s;
           s = upd_proc me (\<lambda>q. q\<lparr>state := ZOMBIE\<rparr>) s
       in sched R_exit s)))))) ) s"

text \<open>The child that \<open>wait\<close> finds, freed.\<close>

definition reap :: "nat \<Rightarrow> 'a ustate_scheme \<Rightarrow> (u32, 'a ustate_scheme) outcome" where
  "reap p s =
     (let n = pid (ptable s ! p) in
      bnd (kfree (kstack (ptable s ! p)) s) (\<lambda>_ s.
      let s = upd_proc p (\<lambda>q. q\<lparr>kstack := 0\<rparr>) s in
      bnd (freevm (pgdir (ptable s ! p)) s) (\<lambda>_ s.
      let s = upd_proc p (\<lambda>q. q\<lparr>state := UNUSED, pid := 0, parent := None, name := [], killed := False\<rparr>) s in
      bnd (release L_ptable s) (\<lambda>_ s. Ret n s))))"

definition wait :: "'a ustate_scheme \<Rightarrow> (u32, 'a ustate_scheme) outcome" where
  "wait s = bnd (acquire L_ptable s) (\<lambda>_ s. with_proc (\<lambda>me s.
     case find_from (\<lambda>p. parent p = Some me \<and> state p = ZOMBIE) 0 (ptable s) of
       Some p \<Rightarrow> reap p s
     | None \<Rightarrow>
         if find_from (\<lambda>p. parent p = Some me) 0 (ptable s) = None \<or> killed (ptable s ! me)
         then bnd (release L_ptable s) (\<lambda>_ s. Ret (- 1) s)
         else sleep (Ch_proc me) L_ptable s) s)"

section \<open>Loading a program\<close>

fun loaduvm_loop :: "nat \<Rightarrow> addr \<Rightarrow> addr \<Rightarrow> nat \<Rightarrow> u32 \<Rightarrow> u32 \<Rightarrow> u32 \<Rightarrow> 'a ustate_scheme \<Rightarrow>
    (int, 'a ustate_scheme) outcome" where
  "loaduvm_loop 0 d va ip offset i z s = Fault ''loaduvm: out of fuel''"
| "loaduvm_loop (Suc k) d va ip offset i z s =
     (if \<not> i < z then Ret 0 s
      else bnd (walkpgdir d (va + i) False s) (\<lambda>pte s.
        if pte = 0 then Panic ''loaduvm: address should exist''
        else let pa = PTE_ADDR (load32 (mem s) pte);
                 n = (if z - i < PGSIZE then z - i else PGSIZE)
             in bnd (readi ip (Some (p2v pa)) (offset + i) n s) (\<lambda>r s.
                if fst r \<noteq> n then Ret (- 1) s
                else loaduvm_loop k d va ip offset (i + PGSIZE) z s)))"

definition loaduvm :: "addr \<Rightarrow> addr \<Rightarrow> nat \<Rightarrow> u32 \<Rightarrow> u32 \<Rightarrow> 'a ustate_scheme \<Rightarrow> (int, 'a ustate_scheme) outcome" where
  "loaduvm d va ip offset z s =
     (if va mod PGSIZE \<noteq> 0 then Panic ''loaduvm: addr must be page aligned''
      else loaduvm_loop (unat z div 4096 + 2) d va ip offset 0 z s)"

text \<open>The members of the ELF headers that \<open>exec\<close> reads, at their offsets.\<close>

record elfhdr =
  e_magic :: u32
  e_entry :: u32
  e_phoff :: u32
  e_phnum :: u16

definition elfhdr_of :: "byte list \<Rightarrow> elfhdr" where
  "elfhdr_of bs = \<lparr>e_magic = get32 bs 0, e_entry = get32 bs 24, e_phoff = get32 bs 28, e_phnum = get16 bs 44\<rparr>"

record proghdr =
  ph_type :: u32
  ph_off :: u32
  ph_vaddr :: u32
  ph_filesz :: u32
  ph_memsz :: u32

definition proghdr_of :: "byte list \<Rightarrow> proghdr" where
  "proghdr_of bs = \<lparr>ph_type = get32 bs 0, ph_off = get32 bs 4, ph_vaddr = get32 bs 8,
     ph_filesz = get32 bs 16, ph_memsz = get32 bs 20\<rparr>"

definition ELF_MAGIC :: u32 where "ELF_MAGIC = 0x464C457F"

text \<open>The segments of the program: the new size, or \<open>None\<close> where the source goes to \<open>bad\<close>.\<close>

fun load_segments :: "nat \<Rightarrow> addr \<Rightarrow> nat \<Rightarrow> u32 \<Rightarrow> u32 \<Rightarrow> 'a ustate_scheme \<Rightarrow> (u32 option, 'a ustate_scheme) outcome" where
  "load_segments 0 d ip off z s = Ret (Some z) s"
| "load_segments (Suc k) d ip off z s =
     bnd (readi ip None off 32 s) (\<lambda>r s.
     if fst r \<noteq> 32 then Ret None s
     else let ph = proghdr_of (snd r) in
       if ph_type ph \<noteq> 1 then load_segments k d ip (off + 32) z s
       else if ph_memsz ph < ph_filesz ph then Ret None s
       else bnd (allocuvm d z (ph_vaddr ph + ph_memsz ph) s) (\<lambda>z s.
         if z = 0 then Ret None s
         else bnd (loaduvm d (ph_vaddr ph) ip (ph_off ph) (ph_filesz ph) s) (\<lambda>l s.
           if l < 0 then Ret None s else load_segments k d ip (off + 32) z s)))"

definition MAXARG :: nat where "MAXARG = 32"

text \<open>
  The argument strings go to the new stack, the last one lowest.  The result is the stack
  pointer and the addresses of the strings.  A string is read through the old page table;
  it ends below the size of the process.
\<close>

fun push_args :: "nat \<Rightarrow> addr list \<Rightarrow> nat \<Rightarrow> addr \<Rightarrow> u32 \<Rightarrow> 'a ustate_scheme \<Rightarrow>
    ((u32 \<times> u32 list) option, 'a ustate_scheme) outcome" where
  "push_args fuel [] argc d sp s = Ret (Some (sp, [])) s"
| "push_args fuel (a # argv) argc d sp s =
     (if argc \<ge> MAXARG then Ret None s
      else bnd (get_cstr fuel a s) (\<lambda>bs s.
        let sp = (sp - (of_nat (length bs) + 1)) AND NOT 3 in
        bnd (copyout d sp (S_mem a) (of_nat (length bs) + 1) s) (\<lambda>r s.
        if r < 0 then Ret None s
        else bnd (push_args fuel argv (Suc argc) d sp s) (\<lambda>r s.
          Ret (map_option (\<lambda>(sp', us). (sp', sp # us)) r) s))))"

definition exec_bad :: "addr \<Rightarrow> nat option \<Rightarrow> 'a ustate_scheme \<Rightarrow> (u32, 'a ustate_scheme) outcome" where
  "exec_bad d ipo s =
     bnd (if d \<noteq> 0 then freevm d s else Ret () s) (\<lambda>_ s.
     bnd (case ipo of None \<Rightarrow> Ret () s
          | Some ip \<Rightarrow> bnd (iunlockput (Some ip) s) (\<lambda>_ s. end_op s)) (\<lambda>_ s. Ret (- 1) s))"

text \<open>The part of the path behind its last slash.\<close>

definition last_elem :: "byte list \<Rightarrow> byte list" where
  "last_elem path = rev (takeWhile (\<lambda>c. c \<noteq> 47) (rev path))"

text \<open>The second half of \<open>exec\<close>: the stack, and the switch to the new image.\<close>

definition exec_stack :: "byte list \<Rightarrow> addr list \<Rightarrow> u32 \<Rightarrow> addr \<Rightarrow> u32 \<Rightarrow> 'a ustate_scheme \<Rightarrow> (u32, 'a ustate_scheme) outcome" where
  "exec_stack path argv entry d z s =
     (let z = PGROUNDUP z in
      bnd (allocuvm d z (z + 2 * PGSIZE) s) (\<lambda>z s.
      if z = 0 then exec_bad d None s
      else bnd (clearpteu d (z - 2 * PGSIZE) s) (\<lambda>_ s. with_proc (\<lambda>me s.
        bnd (push_args (Suc (unat (sz (ptable s ! me)))) argv 0 d z s) (\<lambda>r s.
        case r of None \<Rightarrow> exec_bad d None s
        | Some (sp, us) \<Rightarrow>
            let argc = of_nat (length us);
                ustack = [0xffffffff, argc, sp - (argc + 1) * 4] @ us @ [0];
                sp = sp - (3 + argc + 1) * 4
            in bnd (copyout d sp (S_bytes (concat (map bytes32 ustack))) ((3 + argc + 1) * 4) s) (\<lambda>r s.
               if r < 0 then exec_bad d None s
               else let s = upd_proc me (\<lambda>q. q\<lparr>name := cut_name (last_elem path)\<rparr>) s;
                        old = pgdir (ptable s ! me);
                        s = upd_proc me (\<lambda>q. q\<lparr>pgdir := d, sz := z\<rparr>) s;
                        s = upd_tf (tf (ptable s ! me)) (\<lambda>f. f\<lparr>tf_eip := entry, tf_esp := sp\<rparr>) s
                    in bnd (switchuvm me s) (\<lambda>_ s. bnd (freevm old s) (\<lambda>_ s. Ret 0 s))))) s)))"

text \<open>
  The result of the first \<open>readi\<close> is compared as an unsigned number, so that a result of
  -1 passes the test and the header is read from an uninitialised variable: a fault here.
\<close>

definition exec :: "byte list \<Rightarrow> addr list \<Rightarrow> 'a ustate_scheme \<Rightarrow> (u32, 'a ustate_scheme) outcome" where
  "exec path argv s = bnd (begin_op s) (\<lambda>_ s.
     bnd (namei path s) (\<lambda>ipo s.
     case ipo of None \<Rightarrow> bnd (end_op s) (\<lambda>_ s. Ret (- 1) s)
     | Some ip \<Rightarrow>
         bnd (ilock (Some ip) s) (\<lambda>_ s.
         bnd (readi ip None 0 52 s) (\<lambda>r s.
         if fst r < 52 then exec_bad 0 (Some ip) s
         else if length (snd r) < 52 then Fault ''exec: header not initialised''
         else let elf = elfhdr_of (snd r) in
           if e_magic elf \<noteq> ELF_MAGIC then exec_bad 0 (Some ip) s
           else bnd (setupkvm s) (\<lambda>d s.
             if d = 0 then exec_bad 0 (Some ip) s
             else bnd (load_segments (unat (e_phnum elf)) d ip (e_phoff elf) 0 s) (\<lambda>zo s.
               case zo of None \<Rightarrow> exec_bad d (Some ip) s
               | Some z \<Rightarrow>
                   bnd (iunlockput (Some ip) s) (\<lambda>_ s.
                   bnd (end_op s) (\<lambda>_ s.
                   exec_stack path argv (e_entry elf) d z s))))))))"

end
