(* ===== verification/Sysfile.thy ===== *)
theory Sysfile
  imports Proclife
begin

text \<open>
  Fetching system call arguments (\<open>syscall.c\<close>) and the file system calls
  (\<open>sysfile.c\<close>).  A call returns the word that goes to the caller's \<open>eax\<close>; -1 is an
  error.  Arguments are read from the user's stack through its page table, after the bounds
  checks that the source makes.
\<close>

section \<open>Arguments\<close>

text \<open>Go on with the value of a computation that may fail, or take the failure branch.\<close>

definition tried :: "('x option, 's) outcome \<Rightarrow> ('s \<Rightarrow> ('r, 's) outcome) \<Rightarrow>
    ('x \<Rightarrow> 's \<Rightarrow> ('r, 's) outcome) \<Rightarrow> ('r, 's) outcome" where
  "tried r bad good = bnd r (\<lambda>x s. case x of None \<Rightarrow> bad s | Some v \<Rightarrow> good v s)"

definition fail :: "'s \<Rightarrow> (u32, 's) outcome" where
  "fail s = Ret (- 1) s"

definition fetchint :: "addr \<Rightarrow> 'a ustate_scheme \<Rightarrow> (u32 option, 'a ustate_scheme) outcome" where
  "fetchint a s = with_proc (\<lambda>me s.
     if a \<ge> sz (ptable s ! me) \<or> a + 4 > sz (ptable s ! me) then Ret None s
     else bnd (get_word a s) (\<lambda>w s. Ret (Some w) s)) s"

text \<open>The search for the terminator, over the \<open>n\<close> bytes to the end of the process.\<close>

fun fetchstr_loop :: "nat \<Rightarrow> addr \<Rightarrow> 'a vstate_scheme \<Rightarrow> (byte list option, 'a vstate_scheme) outcome" where
  "fetchstr_loop 0 a s = Ret None s"
| "fetchstr_loop (Suc n) a s =
     (case xlate False a s of None \<Rightarrow> Fault ''page fault''
      | Some k \<Rightarrow> if mem s k = 0 then Ret (Some []) s
          else bnd (fetchstr_loop n (a + 1) s) (\<lambda>r s. Ret (map_option ((#) (mem s k)) r) s))"

definition fetchstr :: "addr \<Rightarrow> 'a ustate_scheme \<Rightarrow> (byte list option, 'a ustate_scheme) outcome" where
  "fetchstr a s = with_proc (\<lambda>me s.
     if a \<ge> sz (ptable s ! me) then Ret None s
     else fetchstr_loop (unat (sz (ptable s ! me) - a)) a s) s"

definition argint :: "nat \<Rightarrow> 'a ustate_scheme \<Rightarrow> (u32 option, 'a ustate_scheme) outcome" where
  "argint n s = with_proc (\<lambda>me s. fetchint (tf_esp (tfs s (tf (ptable s ! me))) + 4 + 4 * of_nat n) s) s"

definition argptr :: "nat \<Rightarrow> u32 \<Rightarrow> 'a ustate_scheme \<Rightarrow> (addr option, 'a ustate_scheme) outcome" where
  "argptr n len s = tried (argint n s) (Ret None) (\<lambda>i s. with_proc (\<lambda>me s.
     if i \<ge> sz (ptable s ! me) \<or> i + len > sz (ptable s ! me) then Ret None s else Ret (Some i) s) s)"

definition argstr :: "nat \<Rightarrow> 'a ustate_scheme \<Rightarrow> (byte list option, 'a ustate_scheme) outcome" where
  "argstr n s = tried (argint n s) (Ret None) (\<lambda>a s. fetchstr a s)"

section \<open>File descriptors\<close>

definition argfd :: "nat \<Rightarrow> 'a ustate_scheme \<Rightarrow> ((nat \<times> nat) option, 'a ustate_scheme) outcome" where
  "argfd n s = tried (argint n s) (Ret None) (\<lambda>fd s. with_proc (\<lambda>me s.
     if slt fd 0 \<or> sle (of_nat NOFILE) fd then Ret None s
     else Ret (map_option (Pair (unat fd)) (ofile (ptable s ! me) ! unat fd)) s) s)"

fun free_fd :: "nat \<Rightarrow> nat option list \<Rightarrow> nat option" where
  "free_fd i [] = None"
| "free_fd i (f # fs) = (if f = None then Some i else free_fd (Suc i) fs)"

definition set_fd :: "nat \<Rightarrow> nat \<Rightarrow> nat option \<Rightarrow> 'a pstate_scheme \<Rightarrow> 'a pstate_scheme" where
  "set_fd me fd f s = upd_proc me (\<lambda>q. q\<lparr>ofile := (ofile q)[fd := f]\<rparr>) s"

definition fdalloc :: "nat \<Rightarrow> 'a ustate_scheme \<Rightarrow> (nat option, 'a ustate_scheme) outcome" where
  "fdalloc f s = with_proc (\<lambda>me s.
     case free_fd 0 (take NOFILE (ofile (ptable s ! me))) of
       None \<Rightarrow> Ret None s
     | Some fd \<Rightarrow> Ret (Some fd) (set_fd me fd (Some f) s)) s"

definition sys_dup :: "'a ustate_scheme \<Rightarrow> (u32, 'a ustate_scheme) outcome" where
  "sys_dup s = tried (argfd 0 s) fail (\<lambda>(_, f) s.
     tried (fdalloc f s) fail (\<lambda>fd s. bnd (filedup f s) (\<lambda>_ s. Ret (of_nat fd) s)))"

definition sys_read :: "'a ustate_scheme \<Rightarrow> (u32, 'a ustate_scheme) outcome" where
  "sys_read s = tried (argfd 0 s) fail (\<lambda>(_, f) s.
     tried (argint 2 s) fail (\<lambda>n s.
     tried (argptr 1 n s) fail (\<lambda>p s.
     bnd (fileread f (Some p) n s) (\<lambda>r s. Ret (fst r) s))))"

definition sys_write :: "'a ustate_scheme \<Rightarrow> (u32, 'a ustate_scheme) outcome" where
  "sys_write s = tried (argfd 0 s) fail (\<lambda>(_, f) s.
     tried (argint 2 s) fail (\<lambda>n s.
     tried (argptr 1 n s) fail (\<lambda>p s. filewrite f (S_mem p) n s)))"

definition sys_close :: "'a ustate_scheme \<Rightarrow> (u32, 'a ustate_scheme) outcome" where
  "sys_close s = tried (argfd 0 s) fail (\<lambda>(fd, f) s. with_proc (\<lambda>me s.
     bnd (fileclose f (set_fd me fd None s)) (\<lambda>_ s. Ret 0 s)) s)"

definition sys_fstat :: "'a ustate_scheme \<Rightarrow> (u32, 'a ustate_scheme) outcome" where
  "sys_fstat s = tried (argfd 0 s) fail (\<lambda>(_, f) s.
     tried (argptr 1 20 s) fail (\<lambda>st s. filestat f st s))"

section \<open>Names\<close>

text \<open>The end of a failing operation inside a transaction.\<close>

definition end_fail :: "'a ustate_scheme \<Rightarrow> (u32, 'a ustate_scheme) outcome" where
  "end_fail s = bnd (end_op s) (\<lambda>_ s. fail s)"

definition put_end_fail :: "nat \<Rightarrow> 'a ustate_scheme \<Rightarrow> (u32, 'a ustate_scheme) outcome" where
  "put_end_fail ip s = bnd (iunlockput (Some ip) s) (\<lambda>_ s. end_fail s)"

abbreviation no_name :: "byte list" where "no_name \<equiv> replicate DIRSIZ 0"

definition add_nlink :: "u16 \<Rightarrow> inode \<Rightarrow> inode" where
  "add_nlink d ip = ip\<lparr>i_nlink := i_nlink ip + d\<rparr>"

text \<open>The label \<open>bad\<close> of \<open>sys_link\<close>: the link count goes back.\<close>

definition link_bad :: "nat \<Rightarrow> 'a ustate_scheme \<Rightarrow> (u32, 'a ustate_scheme) outcome" where
  "link_bad ip s = bnd (ilock (Some ip) s) (\<lambda>_ s.
     bnd (iupdate ip (upd_inode ip (add_nlink (- 1)) s)) (\<lambda>_ s. put_end_fail ip s))"

definition sys_link :: "'a ustate_scheme \<Rightarrow> (u32, 'a ustate_scheme) outcome" where
  "sys_link s = tried (argstr 0 s) fail (\<lambda>old s. tried (argstr 1 s) fail (\<lambda>new s.
     bnd (begin_op s) (\<lambda>_ s.
     tried (namei old s) end_fail (\<lambda>ip s.
     bnd (ilock (Some ip) s) (\<lambda>_ s.
     if i_type (inodes s ! ip) = T_DIR then put_end_fail ip s
     else bnd (iupdate ip (upd_inode ip (add_nlink 1) s)) (\<lambda>_ s.
       bnd (iunlock (Some ip) s) (\<lambda>_ s.
       tried (nameiparent new no_name s) (link_bad ip) (\<lambda>(dp, nm) s.
       bnd (ilock (Some dp) s) (\<lambda>_ s.
       bnd (if i_dev (inodes s ! dp) \<noteq> i_dev (inodes s ! ip) then Ret False s
            else bnd (dirlink dp nm (i_inum (inodes s ! ip)) s) (\<lambda>r s. Ret (\<not> slt r 0) s)) (\<lambda>ok s.
       bnd (iunlockput (Some dp) s) (\<lambda>_ s.
       if \<not> ok then link_bad ip s
       else bnd (iput (Some ip) s) (\<lambda>_ s. bnd (end_op s) (\<lambda>_ s. Ret 0 s)))))))))))))"

fun isdirempty_loop :: "nat \<Rightarrow> u32 \<Rightarrow> nat \<Rightarrow> 'a nstate_scheme \<Rightarrow> (bool, 'a nstate_scheme) outcome" where
  "isdirempty_loop 0 off dp s = Fault ''isdirempty: out of fuel''"
| "isdirempty_loop (Suc k) off dp s =
     (if \<not> off < i_size (inodes s ! dp) then Ret True s
      else bnd (readi dp None off DIRENT s) (\<lambda>r s.
        if fst r \<noteq> DIRENT then Panic ''isdirempty: readi''
        else if de_inum (dirent_of (snd r)) \<noteq> 0 then Ret False s
        else isdirempty_loop k (off + DIRENT) dp s))"

definition isdirempty :: "nat \<Rightarrow> 'a nstate_scheme \<Rightarrow> (bool, 'a nstate_scheme) outcome" where
  "isdirempty dp s = isdirempty_loop (dir_fuel dp s) (2 * DIRENT) dp s"

text \<open>The rest of \<open>sys_unlink\<close> once the entry at \<open>off\<close> is to be removed.\<close>

definition unlink_entry :: "nat \<Rightarrow> nat \<Rightarrow> u32 \<Rightarrow> 'a ustate_scheme \<Rightarrow> (u32, 'a ustate_scheme) outcome" where
  "unlink_entry dp ip off s =
     bnd (writei dp (S_bytes (replicate 16 0)) off DIRENT s) (\<lambda>w s.
     if w \<noteq> DIRENT then Panic ''unlink: writei''
     else bnd (if i_type (inodes s ! ip) = T_DIR
               then iupdate dp (upd_inode dp (add_nlink (- 1)) s) else Ret () s) (\<lambda>_ s.
       bnd (iunlockput (Some dp) s) (\<lambda>_ s.
       bnd (iupdate ip (upd_inode ip (add_nlink (- 1)) s)) (\<lambda>_ s.
       bnd (iunlockput (Some ip) s) (\<lambda>_ s.
       bnd (end_op s) (\<lambda>_ s. Ret 0 s))))))"

definition sys_unlink :: "'a ustate_scheme \<Rightarrow> (u32, 'a ustate_scheme) outcome" where
  "sys_unlink s = tried (argstr 0 s) fail (\<lambda>path s.
     bnd (begin_op s) (\<lambda>_ s.
     tried (nameiparent path no_name s) end_fail (\<lambda>(dp, nm) s.
     bnd (ilock (Some dp) s) (\<lambda>_ s.
     if namecmp nm [46] = 0 \<or> namecmp nm [46, 46] = 0 then put_end_fail dp s
     else tried (dirlookup dp nm s) (put_end_fail dp) (\<lambda>(ip, off) s.
       bnd (ilock (Some ip) s) (\<lambda>_ s.
       if sint (i_nlink (inodes s ! ip)) < 1 then Panic ''unlink: nlink < 1''
       else bnd (if i_type (inodes s ! ip) = T_DIR then isdirempty ip s else Ret True s) (\<lambda>ok s.
         if \<not> ok then bnd (iunlockput (Some ip) s) (\<lambda>_ s. put_end_fail dp s)
         else unlink_entry dp ip off s)))))))"

text \<open>The new inode of \<open>create\<close>, with its directory entries.\<close>

definition create_new :: "nat \<Rightarrow> byte list \<Rightarrow> u16 \<Rightarrow> u16 \<Rightarrow> u16 \<Rightarrow> 'a ustate_scheme \<Rightarrow>
    (nat option, 'a ustate_scheme) outcome" where
  "create_new dp nm ty maj mnr s =
     bnd (ialloc (i_dev (inodes s ! dp)) ty s) (\<lambda>ip s.
     bnd (ilock (Some ip) s) (\<lambda>_ s.
     let s = upd_inode ip (\<lambda>k. k\<lparr>i_major := maj, i_minor := mnr, i_nlink := 1\<rparr>) s in
     bnd (iupdate ip s) (\<lambda>_ s.
     bnd (if ty = T_DIR then
            bnd (iupdate dp (upd_inode dp (add_nlink 1) s)) (\<lambda>_ s.
            bnd (dirlink ip [46] (i_inum (inodes s ! ip)) s) (\<lambda>r s.
            if slt r 0 then Panic ''create dots''
            else bnd (dirlink ip [46, 46] (i_inum (inodes s ! dp)) s) (\<lambda>r s.
              if slt r 0 then Panic ''create dots'' else Ret () s)))
          else Ret () s) (\<lambda>_ s.
     bnd (dirlink dp nm (i_inum (inodes s ! ip)) s) (\<lambda>r s.
     if slt r 0 then Panic ''create: dirlink''
     else bnd (iunlockput (Some dp) s) (\<lambda>_ s. Ret (Some ip) s))))))"

definition create :: "byte list \<Rightarrow> u16 \<Rightarrow> u16 \<Rightarrow> u16 \<Rightarrow> 'a ustate_scheme \<Rightarrow> (nat option, 'a ustate_scheme) outcome" where
  "create path ty maj mnr s =
     tried (nameiparent path no_name s) (Ret None) (\<lambda>(dp, nm) s.
     bnd (ilock (Some dp) s) (\<lambda>_ s.
     tried (dirlookup dp nm s) (create_new dp nm ty maj mnr) (\<lambda>(ip, _) s.
       bnd (iunlockput (Some dp) s) (\<lambda>_ s.
       bnd (ilock (Some ip) s) (\<lambda>_ s.
       if ty = T_FILE \<and> i_type (inodes s ! ip) = T_FILE then Ret (Some ip) s
       else bnd (iunlockput (Some ip) s) (\<lambda>_ s. Ret None s))))))"

text \<open>The inode that \<open>sys_open\<close> opens, locked; \<open>None\<close> when it fails, the transaction over.\<close>

definition open_inode :: "byte list \<Rightarrow> u32 \<Rightarrow> 'a ustate_scheme \<Rightarrow> (nat option, 'a ustate_scheme) outcome" where
  "open_inode path omode s =
     (let none = (\<lambda>s. bnd (end_op s) (\<lambda>_ s. Ret None s)) in
      if omode AND 0x200 \<noteq> 0 then tried (create path T_FILE 0 0 s) none (\<lambda>ip s. Ret (Some ip) s)
      else tried (namei path s) none (\<lambda>ip s.
        bnd (ilock (Some ip) s) (\<lambda>_ s.
        if i_type (inodes s ! ip) = T_DIR \<and> omode \<noteq> 0 then bnd (iunlockput (Some ip) s) (\<lambda>_ s. none s)
        else Ret (Some ip) s)))"

definition sys_open :: "'a ustate_scheme \<Rightarrow> (u32, 'a ustate_scheme) outcome" where
  "sys_open s = tried (argstr 0 s) fail (\<lambda>path s. tried (argint 1 s) fail (\<lambda>omode s.
     bnd (begin_op s) (\<lambda>_ s.
     tried (open_inode path omode s) fail (\<lambda>ip s.
     tried (filealloc s) (put_end_fail ip) (\<lambda>f s.
     tried (fdalloc f s) (\<lambda>s. bnd (fileclose f s) (\<lambda>_ s. put_end_fail ip s)) (\<lambda>fd s.
     bnd (iunlock (Some ip) s) (\<lambda>_ s.
     bnd (end_op s) (\<lambda>_ s.
     Ret (of_nat fd) (upd_file f (\<lambda>k. k\<lparr>f_type := FD_INODE, f_ip := Some ip, f_off := 0,
       f_readable := (omode AND 1 = 0), f_writable := (omode AND 1 \<noteq> 0 \<or> omode AND 2 \<noteq> 0)\<rparr>) s)))))))))"

definition sys_mkdir :: "'a ustate_scheme \<Rightarrow> (u32, 'a ustate_scheme) outcome" where
  "sys_mkdir s = bnd (begin_op s) (\<lambda>_ s.
     tried (argstr 0 s) end_fail (\<lambda>path s.
     tried (create path T_DIR 0 0 s) end_fail (\<lambda>ip s.
     bnd (iunlockput (Some ip) s) (\<lambda>_ s. bnd (end_op s) (\<lambda>_ s. Ret 0 s)))))"

definition sys_mknod :: "'a ustate_scheme \<Rightarrow> (u32, 'a ustate_scheme) outcome" where
  "sys_mknod s = bnd (begin_op s) (\<lambda>_ s.
     tried (argstr 0 s) end_fail (\<lambda>path s.
     tried (argint 1 s) end_fail (\<lambda>maj s.
     tried (argint 2 s) end_fail (\<lambda>mnr s.
     tried (create path T_DEV (ucast maj) (ucast mnr) s) end_fail (\<lambda>ip s.
     bnd (iunlockput (Some ip) s) (\<lambda>_ s. bnd (end_op s) (\<lambda>_ s. Ret 0 s)))))))"

definition sys_chdir :: "'a ustate_scheme \<Rightarrow> (u32, 'a ustate_scheme) outcome" where
  "sys_chdir s = bnd (begin_op s) (\<lambda>_ s.
     tried (argstr 0 s) end_fail (\<lambda>path s.
     tried (namei path s) end_fail (\<lambda>ip s.
     bnd (ilock (Some ip) s) (\<lambda>_ s.
     if i_type (inodes s ! ip) \<noteq> T_DIR then put_end_fail ip s
     else bnd (iunlock (Some ip) s) (\<lambda>_ s. with_proc (\<lambda>me s.
       bnd (iput (cwd (ptable s ! me)) s) (\<lambda>_ s.
       bnd (end_op s) (\<lambda>_ s.
       Ret 0 (upd_proc me (\<lambda>q. q\<lparr>cwd := Some ip\<rparr>) s)))) s)))))"

text \<open>The argument vector: pointers up to a null one, each to a terminated string.\<close>

fun exec_args :: "nat \<Rightarrow> nat \<Rightarrow> addr \<Rightarrow> 'a ustate_scheme \<Rightarrow> (addr list option, 'a ustate_scheme) outcome" where
  "exec_args 0 i uargv s = Ret None s"
| "exec_args (Suc n) i uargv s =
     tried (fetchint (uargv + 4 * of_nat i) s) (Ret None) (\<lambda>uarg s.
     if uarg = 0 then Ret (Some []) s
     else tried (fetchstr uarg s) (Ret None) (\<lambda>_ s.
       bnd (exec_args n (Suc i) uargv s) (\<lambda>r s. Ret (map_option ((#) uarg) r) s)))"

definition sys_exec :: "'a ustate_scheme \<Rightarrow> (u32, 'a ustate_scheme) outcome" where
  "sys_exec s = tried (argstr 0 s) fail (\<lambda>path s. tried (argint 1 s) fail (\<lambda>uargv s.
     tried (exec_args MAXARG 0 uargv s) fail (\<lambda>argv s. exec path argv s)))"

definition sys_pipe :: "'a ustate_scheme \<Rightarrow> (u32, 'a ustate_scheme) outcome" where
  "sys_pipe s = tried (argptr 0 8 s) fail (\<lambda>fd s.
     tried (pipealloc s) fail (\<lambda>(rf, wf) s.
     let bad = (\<lambda>s. bnd (fileclose rf s) (\<lambda>_ s. bnd (fileclose wf s) (\<lambda>_ s. fail s))) in
     tried (fdalloc rf s) bad (\<lambda>fd0 s.
     tried (fdalloc wf s) (\<lambda>s. with_proc (\<lambda>me s. bad (set_fd me fd0 None s)) s) (\<lambda>fd1 s.
     bnd (put_word fd (of_nat fd0) s) (\<lambda>_ s.
     bnd (put_word (fd + 4) (of_nat fd1) s) (\<lambda>_ s. Ret 0 s))))))"

end
