(* ===== verification/Trap.thy ===== *)
theory Trap
  imports Sysfile
begin

text \<open>
  The process system calls (\<open>sysproc.c\<close>), the dispatch of system calls
  (\<open>syscall.c\<close>), traps and interrupts (\<open>trap.c\<close>) and the start of the machine
  (\<open>main.c\<close>, with \<open>seginit\<close> of \<open>vm.c\<close>).
\<close>

section \<open>State\<close>

record segdesc =
  sd_lim_15_0 :: u32
  sd_base_15_0 :: u32
  sd_base_23_16 :: u32
  sd_type :: u32
  sd_s :: u32
  sd_dpl :: u32
  sd_p :: u32
  sd_lim_19_16 :: u32
  sd_base_31_24 :: u32

record gatedesc =
  gd_off_15_0 :: u32
  gd_cs :: u32
  gd_type :: u32
  gd_dpl :: u32
  gd_p :: u32
  gd_off_31_16 :: u32

text \<open>
  \<open>vectors\<close> and \<open>cpu_self\<close> are link-time addresses: of the trap entry points and of the
  per-CPU variable \<open>cpu\<close>; \<open>idtr\<close> tells which CPUs have loaded the interrupt table;
  \<open>cr2\<close> is the address of the last page fault.  The code that starts other processors
  is at a link-time address too.
\<close>

record tstate = ustate +
  ticks :: u32
  idt :: "nat \<Rightarrow> gatedesc"
  idtr :: "nat \<Rightarrow> bool"
  gdt :: "nat \<Rightarrow> nat \<Rightarrow> segdesc"
  vectors :: "nat \<Rightarrow> addr"
  cpu_self :: "nat \<Rightarrow> addr"
  cr2 :: addr
  entryother_start :: addr
  entryother_size :: u32
  mpenter_addr :: addr
  entrypgdir_addr :: addr

definition T_SYSCALL :: u32 where "T_SYSCALL = 64"

section \<open>Process system calls\<close>

definition sys_exit :: "'a tstate_scheme \<Rightarrow> (u32, 'a tstate_scheme) outcome" where
  "sys_exit s = exit s"

definition sys_wait :: "'a tstate_scheme \<Rightarrow> (u32, 'a tstate_scheme) outcome" where
  "sys_wait s = wait s"

definition sys_kill :: "'a tstate_scheme \<Rightarrow> (u32, 'a tstate_scheme) outcome" where
  "sys_kill s = tried (argint 0 s) fail (\<lambda>n s. bnd (kill n s) (\<lambda>r s. Ret (word_of_int r) s))"

definition sys_getpid :: "'a tstate_scheme \<Rightarrow> (u32, 'a tstate_scheme) outcome" where
  "sys_getpid s = with_proc (\<lambda>me s. Ret (pid (ptable s ! me)) s) s"

definition sys_sbrk :: "'a tstate_scheme \<Rightarrow> (u32, 'a tstate_scheme) outcome" where
  "sys_sbrk s = tried (argint 0 s) fail (\<lambda>n s. with_proc (\<lambda>me s.
     let a = sz (ptable s ! me) in
     bnd (growproc n s) (\<lambda>r s. if r < 0 then fail s else Ret a s)) s)"

text \<open>The loop of \<open>sys_sleep\<close> compares as unsigned numbers; a waiting process has left the CPU.\<close>

definition sys_sleep :: "'a tstate_scheme \<Rightarrow> (u32, 'a tstate_scheme) outcome" where
  "sys_sleep s = tried (argint 0 s) fail (\<lambda>n s.
     bnd (acquire L_ticks s) (\<lambda>_ s.
     let ticks0 = ticks s in
     if ticks s - ticks0 < n then with_proc (\<lambda>me s.
       if killed (ptable s ! me) then bnd (release L_ticks s) (\<lambda>_ s. fail s)
       else sleep Ch_ticks L_ticks s) s
     else bnd (release L_ticks s) (\<lambda>_ s. Ret 0 s)))"

definition sys_uptime :: "'a tstate_scheme \<Rightarrow> (u32, 'a tstate_scheme) outcome" where
  "sys_uptime s = bnd (acquire L_ticks s) (\<lambda>_ s.
     let xticks = ticks s in bnd (release L_ticks s) (\<lambda>_ s. Ret xticks s))"

definition sys_switchDebug :: "'a tstate_scheme \<Rightarrow> (u32, 'a tstate_scheme) outcome" where
  "sys_switchDebug s = Ret 0 (snd (switchDebug s))"

text \<open>The format has five conversions and the call four numbers.\<close>

definition sys_pidInfo :: "'a tstate_scheme \<Rightarrow> (u32, 'a tstate_scheme) outcome" where
  "sys_pidInfo s = with_proc (\<lambda>me s.
     let p = ptable s ! me in
     bnd (cprintf (LF @ ''==================='' @ LF @ ''Pid: %d'' @ LF @ ''Stride: %d'' @ LF @
            ''Pass: %d'' @ LF @ ''LimitPass %d'' @ LF @ ''Tickets: %d'')
            [A_int (pid p), A_int (pass p), A_int (limitpass p), A_int (tickets p)] s) (\<lambda>_ s.
     Fault ''sys_pidInfo: no return value'')) s"

section \<open>Dispatch\<close>

definition syscalls :: "('a tstate_scheme \<Rightarrow> (u32, 'a tstate_scheme) outcome) list" where
  "syscalls = [fork, sys_exit, sys_wait, sys_pipe, sys_read, sys_kill, sys_exec, sys_fstat, sys_chdir,
     sys_dup, sys_getpid, sys_sbrk, sys_sleep, sys_uptime, sys_open, sys_write, sys_mknod, sys_unlink,
     sys_link, sys_mkdir, sys_close, sys_switchDebug, sys_pidInfo, forkLowest, forkLow, forkMedium,
     forkHigh, forkHighest]"

text \<open>The table starts at number 1; \<open>proc->tf\<close> is read again after the call.\<close>

definition set_eax :: "nat \<Rightarrow> u32 \<Rightarrow> 'a pstate_scheme \<Rightarrow> 'a pstate_scheme" where
  "set_eax me v s = upd_tf (tf (ptable s ! me)) (\<lambda>f. f\<lparr>tf_eax := v\<rparr>) s"

definition syscall :: "'a tstate_scheme \<Rightarrow> (unit, 'a tstate_scheme) outcome" where
  "syscall s = with_proc (\<lambda>me s.
     let num = tf_eax (tfs s (tf (ptable s ! me))) in
     if slt 0 num \<and> num < of_nat (length (syscalls :: ('a tstate_scheme \<Rightarrow> (u32, 'a tstate_scheme) outcome) list)) + 1
     then bnd ((syscalls ! (unat num - 1)) s) (\<lambda>r s. Ret () (set_eax me r s))
     else bnd (cprintf (''%d %s: unknown sys call %d'' @ LF)
            [A_int (pid (ptable s ! me)), A_str (Some (name (ptable s ! me))), A_int num] s) (\<lambda>_ s.
          Ret () (set_eax me (- 1) s))) s"

section \<open>Traps\<close>

definition setgate :: "bool \<Rightarrow> u32 \<Rightarrow> addr \<Rightarrow> u32 \<Rightarrow> gatedesc" where
  "setgate istrap sel off d = \<lparr>gd_off_15_0 = off AND 0xffff, gd_cs = sel,
     gd_type = (if istrap then 0xF else 0xE), gd_dpl = d, gd_p = 1, gd_off_31_16 = drop_bit 16 off\<rparr>"

definition tvinit :: "'a tstate_scheme \<Rightarrow> 'a tstate_scheme" where
  "tvinit s =
     (let s = s\<lparr>idt := (\<lambda>i. if i < 256 then setgate False 8 (vectors s i) 0 else idt s i)\<rparr>;
          s = s\<lparr>idt := (idt s)(64 := setgate True 8 (vectors s 64) 3)\<rparr>
      in initlock L_ticks ''time'' s)"

definition idtinit :: "'a tstate_scheme \<Rightarrow> 'a tstate_scheme" where
  "idtinit s = s\<lparr>idtr := (idtr s)(mycpu s := True)\<rparr>"

definition clock_tick :: "'a tstate_scheme \<Rightarrow> (unit, 'a tstate_scheme) outcome" where
  "clock_tick s =
     (if cpu_id (this_cpu s) = 0 then
        bnd (acquire L_ticks s) (\<lambda>_ s.
        bnd (wakeup Ch_ticks (s\<lparr>ticks := ticks s + 1\<rparr>)) (\<lambda>_ s. release L_ticks s))
      else Ret () s)"

text \<open>The \<open>default\<close> branch: a fault of the kernel, or of the running process.\<close>

definition bad_trap :: "addr \<Rightarrow> 'a tstate_scheme \<Rightarrow> (unit, 'a tstate_scheme) outcome" where
  "bad_trap fr s =
     (let f = tfs s fr; id = A_int (of_nat (cpu_id (this_cpu s))) in
      case cproc (this_cpu s) of
        Some me \<Rightarrow>
          if tf_cs f AND 3 = 0 then
            bnd (cprintf (''unexpected trap %d from cpu %d eip %x (cr2=0x%x)'' @ LF)
                   [A_int (tf_trapno f), id, A_int (tf_eip f), A_int (cr2 s)] s) (\<lambda>_ s. Panic ''trap'')
          else
            bnd (cprintf (''pid %d %s: trap %d err %d on cpu %d eip 0x%x addr 0x%x--kill proc'' @ LF)
                   [A_int (pid (ptable s ! me)), A_str (Some (name (ptable s ! me))), A_int (tf_trapno f),
                    A_int (tf_err f), id, A_int (tf_eip f), A_int (cr2 s)] s) (\<lambda>_ s.
            Ret () (upd_proc me (\<lambda>q. q\<lparr>killed := True\<rparr>) s))
      | None \<Rightarrow>
          bnd (cprintf (''unexpected trap %d from cpu %d eip %x (cr2=0x%x)'' @ LF)
                 [A_int (tf_trapno f), id, A_int (tf_eip f), A_int (cr2 s)] s) (\<lambda>_ s. Panic ''trap''))"

text \<open>The \<open>switch\<close> on the trap number.\<close>

definition trap_switch :: "addr \<Rightarrow> 'a tstate_scheme \<Rightarrow> (unit, 'a tstate_scheme) outcome" where
  "trap_switch fr s =
     (let f = tfs s fr; n = tf_trapno f; eoi = (\<lambda>_ s. Ret () (lapiceoi s)) in
      if n = T_IRQ0 + of_nat IRQ_TIMER then bnd (clock_tick s) eoi
      else if n = T_IRQ0 + of_nat IRQ_IDE then bnd (ideintr s) eoi
      else if n = T_IRQ0 + of_nat IRQ_IDE + 1 then Ret () s
      else if n = T_IRQ0 + of_nat IRQ_KBD then bnd (kbdintr s) eoi
      else if n = T_IRQ0 + of_nat IRQ_COM1 then bnd (uartintr s) eoi
      else if n = T_IRQ0 + 7 \<or> n = T_IRQ0 + of_nat IRQ_SPURIOUS then
        bnd (cprintf (''cpu%d: spurious interrupt at %x:%x'' @ LF)
          [A_int (of_nat (cpu_id (this_cpu s))), A_int (ucast (tf_cs f)), A_int (tf_eip f)] s) eoi
      else bad_trap fr s)"

text \<open>The test made before and after the accounting, and when a process comes back from \<open>yield\<close>.\<close>

definition exit_if_killed :: "addr \<Rightarrow> 'a tstate_scheme \<Rightarrow> (unit, 'a tstate_scheme) outcome" where
  "exit_if_killed fr s =
     (case cproc (this_cpu s) of None \<Rightarrow> Ret () s
      | Some me \<Rightarrow> if killed (ptable s ! me) \<and> tf_cs (tfs s fr) AND 3 = 3 then exit s else Ret () s)"

definition trap_account :: "addr \<Rightarrow> 'a tstate_scheme \<Rightarrow> (unit, 'a tstate_scheme) outcome" where
  "trap_account fr s =
     (case cproc (this_cpu s) of None \<Rightarrow> Ret () s
      | Some me \<Rightarrow>
        let p = ptable s ! me in
        if state p = RUNNING \<and> (sle (limitpass p) (pass p) \<or> tf_trapno (tfs s fr) = T_IRQ0 + of_nat IRQ_TIMER)
        then yield (upd_proc me tick_account s)
        else if state p = RUNNING \<and> slt (pass p) (limitpass p) then Ret () (upd_proc me intr_account s)
        else Ret () s)"

definition trap :: "addr \<Rightarrow> 'a tstate_scheme \<Rightarrow> (unit, 'a tstate_scheme) outcome" where
  "trap fr s =
     (if tf_trapno (tfs s fr) = T_SYSCALL then with_proc (\<lambda>me s.
        if killed (ptable s ! me) then exit s
        else bnd (syscall (upd_proc me (\<lambda>q. q\<lparr>tf := fr\<rparr>) s)) (\<lambda>_ s.
          if killed (ptable s ! me) then exit s else Ret () s)) s
      else bnd (trap_switch fr s) (\<lambda>_ s.
        bnd (exit_if_killed fr s) (\<lambda>_ s.
        bnd (trap_account fr s) (\<lambda>_ s. exit_if_killed fr s))))"

section \<open>Starting the machine\<close>

definition SEG :: "u32 \<Rightarrow> addr \<Rightarrow> u32 \<Rightarrow> u32 \<Rightarrow> segdesc" where
  "SEG ty base lim dpl = \<lparr>sd_lim_15_0 = drop_bit 12 lim AND 0xffff, sd_base_15_0 = base AND 0xffff,
     sd_base_23_16 = drop_bit 16 base AND 0xff, sd_type = ty, sd_s = 1, sd_dpl = dpl, sd_p = 1,
     sd_lim_19_16 = drop_bit 28 lim, sd_base_31_24 = drop_bit 24 base\<rparr>"

text \<open>\<open>cpu\<close> and \<open>proc\<close> are reached through the segment that \<open>seginit\<close> loads.\<close>

definition seginit :: "addr \<Rightarrow> 'a tstate_scheme \<Rightarrow> (unit, 'a tstate_scheme) outcome" where
  "seginit ra s = bnd (cpunum ra s) (\<lambda>w s.
     let c = unat w;
         g = (gdt s c)(1 := SEG 0xA 0 0xffffffff 0, 2 := SEG 2 0 0xffffffff 0,
                       4 := SEG 0xA 0 0xffffffff 3, 5 := SEG 2 0 0xffffffff 3,
                       3 := SEG 2 (cpu_self s c) 8 0);
         s = s\<lparr>gdt := (gdt s)(c := g), mycpu := c\<rparr>
     in Ret () (set_proc None s))"

text \<open>\<open>mpmain\<close> up to its call of \<open>scheduler\<close>.\<close>

definition mpmain :: "'a tstate_scheme \<Rightarrow> (unit, 'a tstate_scheme) outcome" where
  "mpmain s = bnd (cprintf (''cpu%d: starting'' @ LF) [A_int (of_nat (cpu_id (this_cpu s)))] s) (\<lambda>_ s.
     Ret () (upd_cpu (\<lambda>c. c\<lparr>started := True\<rparr>) (idtinit s)))"

definition mpenter :: "addr \<Rightarrow> 'a tstate_scheme \<Rightarrow> (unit, 'a tstate_scheme) outcome" where
  "mpenter ra s =
     (let s = switchkvm s in
      bnd (seginit ra s) (\<lambda>_ s. bnd (lapicinit s) (\<lambda>_ s. mpmain s)))"

text \<open>
  While the boot processor waits for processor \<open>i\<close>, that one runs \<open>mpenter\<close>.  Each
  processor reads its own number from its local APIC (register 8).
\<close>

definition on_cpu :: "nat \<Rightarrow> ('a tstate_scheme \<Rightarrow> (unit, 'a tstate_scheme) outcome) \<Rightarrow> 'a tstate_scheme \<Rightarrow>
    (unit, 'a tstate_scheme) outcome" where
  "on_cpu i f s =
     (let bsp = mycpu s; idreg = lapic_regs s 8;
          s = lapicw 8 (push_bit 24 (of_nat i)) (s\<lparr>mycpu := i\<rparr>)
      in bnd (f s) (\<lambda>_ s. Ret () (lapicw 8 idreg (s\<lparr>mycpu := bsp\<rparr>))))"

fun startothers_loop :: "nat \<Rightarrow> nat \<Rightarrow> addr \<Rightarrow> addr \<Rightarrow> 'a tstate_scheme \<Rightarrow> (unit, 'a tstate_scheme) outcome" where
  "startothers_loop 0 i code ra s = Ret () s"
| "startothers_loop (Suc n) i code ra s = bnd (cpunum ra s) (\<lambda>w s.
     if i = unat w then startothers_loop n (Suc i) code ra s
     else bnd (kalloc s) (\<lambda>stk s.
       let s = s\<lparr>mem := store32 (mem s) (code - 4) (stk + KSTACKSIZE)\<rparr>;
           s = s\<lparr>mem := store32 (mem s) (code - 8) (mpenter_addr s)\<rparr>;
           s = s\<lparr>mem := store32 (mem s) (code - 12) (v2p (entrypgdir_addr s))\<rparr>;
           s = lapicstartap (of_nat (cpu_id (cpus s i))) (v2p code) s
       in bnd (on_cpu i (mpenter ra) s) (\<lambda>_ s.
          if \<not> started (cpus s i) then Fault ''startothers: processor never starts''
          else startothers_loop n (Suc i) code ra s)))"

definition startothers :: "addr \<Rightarrow> 'a tstate_scheme \<Rightarrow> (unit, 'a tstate_scheme) outcome" where
  "startothers ra s =
     (let code = p2v 0x7000;
          s = s\<lparr>mem := memmove (mem s) code (entryother_start s) (entryother_size s)\<rparr>
      in startothers_loop (ncpu s) 0 code ra s)"

text \<open>\<open>main\<close> up to the scheduler; \<open>ra\<close> are the return addresses in \<open>main\<close> that warnings print.\<close>

definition main_devices :: "'a tstate_scheme \<Rightarrow> (unit, 'a tstate_scheme) outcome" where
  "main_devices s =
     (let s = picinit s in
      bnd (ioapicinit s) (\<lambda>_ s.
      let s = consoleinit s; s = uartinit s; s = pinit s; s = tvinit s; s = binit s; s = fileinit s;
          s = iinit s
      in bnd (ideinit s) (\<lambda>_ s. Ret () (if \<not> ismp s then timerinit s else s))))"

definition main :: "addr \<Rightarrow> 'a tstate_scheme \<Rightarrow> (unit, 'a tstate_scheme) outcome" where
  "main ra s =
     bnd (kinit1 (kend s) (p2v (4 * 1024 * 1024)) s) (\<lambda>_ s.
     bnd (kvmalloc s) (\<lambda>_ s.
     bnd (mpinit s) (\<lambda>_ s.
     bnd (lapicinit s) (\<lambda>_ s.
     bnd (seginit ra s) (\<lambda>_ s.
     bnd (cprintf (LF @ ''cpu%d: starting xv6'' @ LF @ LF) [A_int (of_nat (cpu_id (this_cpu s)))] s) (\<lambda>_ s.
     bnd (main_devices s) (\<lambda>_ s.
     bnd (startothers ra s) (\<lambda>_ s.
     bnd (kinit2 (p2v (4 * 1024 * 1024)) (p2v PHYSTOP) s) (\<lambda>_ s.
     bnd (userinit s) (\<lambda>_ s.
     mpmain s))))))))))"

end
