(* ===== verification/Pipe.thy ===== *)
theory Pipe
  imports File
begin

text \<open>
  What a pipe promises: it is a queue of at most \<open>PIPESIZE\<close> bytes.  The counters
  \<open>nread\<close> and \<open>nwrite\<close> are 32-bit words that wrap; as \<open>PIPESIZE\<close> divides
  \<open>2 ^ 32\<close>, the ring and the queue agree across the wrap.  The locale \<open>byte_queue\<close> is the
  contract, and the pipe of \<open>pipe.c\<close> meets it.
\<close>

section \<open>Bounded queues of bytes\<close>

locale byte_queue =
  fixes put :: "byte \<Rightarrow> 'q \<Rightarrow> 'q" and get :: "'q \<Rightarrow> byte \<times> 'q" and content :: "'q \<Rightarrow> byte list"
    and invar :: "'q \<Rightarrow> bool" and cap :: nat
  assumes put_law: "invar q \<Longrightarrow> length (content q) < cap \<Longrightarrow> invar (put b q) \<and> content (put b q) = content q @ [b]"
    and get_law: "invar q \<Longrightarrow> content q \<noteq> [] \<Longrightarrow>
      fst (get q) = hd (content q) \<and> invar (snd (get q)) \<and> content (snd (get q)) = tl (content q)"
    and bounded: "invar q \<Longrightarrow> length (content q) \<le> cap"
begin

fun puts :: "byte list \<Rightarrow> 'q \<Rightarrow> 'q" where
  "puts [] q = q"
| "puts (b # bs) q = puts bs (put b q)"

fun gets :: "nat \<Rightarrow> 'q \<Rightarrow> byte list \<times> 'q" where
  "gets 0 q = ([], q)"
| "gets (Suc n) q = (if content q = [] then ([], q)
     else case gets n (snd (get q)) of (bs, q') \<Rightarrow> (fst (get q) # bs, q'))"

lemma puts_content:
  "invar q \<Longrightarrow> length (content q) + length bs \<le> cap \<Longrightarrow> invar (puts bs q) \<and> content (puts bs q) = content q @ bs"
proof (induction bs arbitrary: q)
  case (Cons b bs)
  then have "invar (put b q) \<and> content (put b q) = content q @ [b]" by (intro put_law) simp_all
  then show ?case using Cons by simp
qed simp

lemma gets_content:
  "invar q \<Longrightarrow> gets n q = (take n (content q), snd (gets n q)) \<and> invar (snd (gets n q)) \<and>
   content (snd (gets n q)) = drop n (content q)"
proof (induction n arbitrary: q)
  case (Suc n)
  show ?case
  proof (cases "content q")
    case (Cons b bs)
    then have "fst (get q) = b \<and> invar (snd (get q)) \<and> content (snd (get q)) = bs" using get_law[OF Suc.prems] by simp
    then show ?thesis using Suc.IH[of "snd (get q)"] Cons by (auto split: prod.splits)
  qed (use Suc.prems in simp)
qed simp

end

section \<open>Rings indexed by wrapping counters\<close>

lemma unat_plus_mod:
  assumes "c dvd 2 ^ 32"
  shows "unat (w + of_nat i :: u32) mod c = (unat w + i) mod c"
  using assms by (simp add: unat_word_ariths unat_of_nat mod_mod_cancel mod_simps)

text \<open>The bytes between two counters of a ring.\<close>

definition ring_content :: "byte list \<Rightarrow> u32 \<Rightarrow> u32 \<Rightarrow> nat \<Rightarrow> byte list" where
  "ring_content d r w c = map (\<lambda>i. d ! (unat (r + of_nat i) mod c)) [0..<unat (w - r)]"

lemma length_ring_content [simp]: "length (ring_content d r w c) = unat (w - r)"
  by (simp add: ring_content_def)

lemma unat_suc_diff:
  assumes "unat (w - r :: u32) < 2 ^ 32 - 1"
  shows "unat (w + 1 - r) = Suc (unat (w - r))"
proof -
  have e: "w + 1 - r = (w - r) + 1" by simp
  show ?thesis unfolding e using assms by (simp add: unat_word_ariths)
qed

lemma ring_put:
  assumes len: "length d = c" and c: "c dvd 2 ^ 32" "0 < c" "c < 2 ^ 32" and room: "unat (w - r :: u32) < c"
  shows "ring_content (d[unat w mod c := b]) r (w + 1) c = ring_content d r w c @ [b]"
proof -
  let ?n = "unat (w - r)"
  have n: "unat (w + 1 - r) = Suc ?n" using room c(3) by (intro unat_suc_diff) simp
  have w: "w = r + of_nat ?n" by simp
  have ne: "unat (r + of_nat i) mod c \<noteq> unat w mod c" if "i < ?n" for i
  proof
    assume "unat (r + of_nat i) mod c = unat w mod c"
    then have "(unat r + i) mod c = (unat r + ?n) mod c"
      using unat_plus_mod[OF c(1), of r i] unat_plus_mod[OF c(1), of r ?n] w by simp
    then have "c dvd ?n - i" using mod_eq_dvd_iff_nat[of "unat r + i" "unat r + ?n" c] that by simp
    then show False using that room nat_dvd_not_less[of "?n - i" c] by simp
  qed
  have "d[unat w mod c := b] ! (unat (r + of_nat i) mod c) = d ! (unat (r + of_nat i) mod c)" if "i < ?n" for i
    using ne[OF that] by simp
  then have "map (\<lambda>i. d[unat w mod c := b] ! (unat (r + of_nat i) mod c)) [0..<?n] = ring_content d r w c"
    by (simp add: ring_content_def)
  moreover have "d[unat w mod c := b] ! (unat (r + of_nat ?n) mod c) = b" using len c(2) w by simp
  ultimately show ?thesis by (simp add: ring_content_def[of _ _ "w + 1"] n)
qed

lemma unat_diff_suc:
  assumes "unat (w - r :: u32) \<noteq> 0"
  shows "unat (w - r) = Suc (unat (w - (r + 1)))"
proof -
  have e: "w - (r + 1) = (w - r) - 1" by simp
  have "w - r \<noteq> 0" using assms by auto
  then show ?thesis unfolding e using unat_minus_one[of "w - r"] assms by simp
qed

lemma ring_get:
  assumes "unat (w - r :: u32) \<noteq> 0"
  shows "ring_content d r w c = d ! (unat r mod c) # ring_content d (r + 1) w c"
proof -
  note n = unat_diff_suc[OF assms]
  have "[0..<unat (w - r)] = 0 # map Suc [0..<unat (w - (r + 1))]" unfolding n by (simp add: upt_conv_Cons map_Suc_upt del: upt_Suc)
  then show ?thesis by (simp add: ring_content_def add.assoc)
qed

section \<open>The pipe as a queue\<close>

definition pipe_content :: "pipe \<Rightarrow> byte list" where
  "pipe_content q = ring_content (p_data q) (p_nread q) (p_nwrite q) PIPESIZE"

definition pipe_ok :: "pipe \<Rightarrow> bool" where
  "pipe_ok q \<longleftrightarrow> length (p_data q) = PIPESIZE \<and> unat (p_nwrite q - p_nread q) \<le> PIPESIZE"

interpretation pq: byte_queue pipe_put pipe_get pipe_content pipe_ok PIPESIZE
proof
  fix q :: pipe and b :: byte
  have dv: "PIPESIZE dvd 2 ^ 32" "0 < PIPESIZE" "PIPESIZE < 2 ^ 32" by (simp_all add: PIPESIZE_def)
  show "length (pipe_content q) \<le> PIPESIZE" if "pipe_ok q" using that by (simp add: pipe_ok_def pipe_content_def)
  show "pipe_ok (pipe_put b q) \<and> pipe_content (pipe_put b q) = pipe_content q @ [b]"
    if "pipe_ok q" "length (pipe_content q) < PIPESIZE"
    using that ring_put[OF _ dv, of "p_data q" "p_nwrite q" "p_nread q" b] unat_suc_diff[of "p_nwrite q" "p_nread q"]
    by (simp add: pipe_ok_def pipe_content_def pipe_put_def PIPESIZE_def)
  show "fst (pipe_get q) = hd (pipe_content q) \<and> pipe_ok (snd (pipe_get q)) \<and> pipe_content (snd (pipe_get q)) = tl (pipe_content q)"
    if "pipe_ok q" "pipe_content q \<noteq> []"
  proof -
    have n: "unat (p_nwrite q - p_nread q) \<noteq> 0" using that(2) length_ring_content by (metis length_0_conv pipe_content_def)
    note g = ring_get[OF n, of "p_data q" PIPESIZE]
    then show ?thesis using that(1) unat_diff_suc[OF n] by (simp add: pipe_get_def pipe_content_def pipe_ok_def)
  qed
qed

section \<open>User memory\<close>

text \<open>The bytes at user address \<open>a\<close>, and where the bytes written to a destination go.\<close>

definition readable_as :: "addr \<Rightarrow> byte list \<Rightarrow> 'a vstate_scheme \<Rightarrow> bool" where
  "readable_as a xs s \<longleftrightarrow> (\<forall>k < length xs. map_option (mem s) (xlate False (a + of_nat k) s) = Some (xs ! k))"

definition lands_at :: "addr \<Rightarrow> nat \<Rightarrow> (nat \<Rightarrow> addr) \<Rightarrow> 'a vstate_scheme \<Rightarrow> bool" where
  "lands_at b n f s \<longleftrightarrow> inj_on f {..<n} \<and>
     (\<forall>m. (\<forall>x. x \<notin> f ` {..<n} \<longrightarrow> m x = mem s x) \<longrightarrow> (\<forall>k < n. xlate True (b + of_nat k) (s\<lparr>mem := m\<rparr>) = Some (f k)))"

lemma xlate_same: "mem t = mem s \<Longrightarrow> cr3 (this_cpu t) = cr3 (this_cpu s) \<Longrightarrow> xlate w va t = xlate w va s"
  by (simp add: xlate_def Let_def)

lemma cr3_lock [simp]:
  "cr3 (cpus (lock_taken l s) i) = cr3 (cpus s i)" "cr3 (cpus (lock_dropped l s) i) = cr3 (cpus s i)"
  "cr3 (cpus (woken ch t) i) = cr3 (cpus t i)"
  by (simp_all add: lock_unfolds woken_def wakeup1_def)

lemma xlate_lock [simp]:
  "xlate w va (lock_taken l s) = xlate w va s" "xlate w va (lock_dropped l s) = xlate w va s"
  for s :: "'a vstate_scheme"
  by (rule xlate_same; simp)+

lemma xlate_woken [simp]: "xlate w va (woken ch s) = xlate w va s" for s :: "'a pstate_scheme"
  by (rule xlate_same) simp_all

lemma readable_lock [simp]: "readable_as a xs (lock_taken l s) = readable_as a xs s" for s :: "'a vstate_scheme"
  by (simp add: readable_as_def)

lemma get_one:
  "readable_as a xs s \<Longrightarrow> k < length xs \<Longrightarrow> fetch (S_mem a) k 1 s = Ret [xs ! k] s"
  by (auto simp: readable_as_def fetch_def split: option.splits)

section \<open>Frame lemmas\<close>

lemma upd_pipe_fields [simp]:
  "pipes (upd_pipe p f s) = (pipes s)(p := f (pipes s p))" "mem (upd_pipe p f s) = mem s"
  "cpus (upd_pipe p f s) = cpus s" "mycpu (upd_pipe p f s) = mycpu s" "ptable (upd_pipe p f s) = ptable s"
  "balanced u (upd_pipe p f s) = balanced u s" "within l v (upd_pipe p f s) = within l v s"
  by (simp_all add: upd_pipe_def balanced_def within_def lock_free_def)

lemma xlate_upd_pipe [simp]: "xlate w va (upd_pipe p f s) = xlate w va s"
  by (rule xlate_same) simp_all

lemma readable_upd_pipe [simp]: "readable_as a xs (upd_pipe p f s) = readable_as a xs s"
  by (simp add: readable_as_def)

lemma fstate_frame [simp]:
  "pipes (lock_taken l s) = pipes s" "pipes (lock_dropped l s) = pipes s" "pipes (woken ch s) = pipes s"
  "ftable (lock_taken l s) = ftable s" "ftable (lock_dropped l s) = ftable s" "ftable (woken ch s) = ftable s"
  for s :: "'a fstate_scheme"
  by (simp_all add: lock_unfolds woken_def wakeup1_def)

lemma upd_pipe_twice: "upd_pipe p f (upd_pipe p g s) = upd_pipe p (\<lambda>q. f (g q)) s"
  by (simp add: upd_pipe_def)

lemma not_full:
  assumes "pipe_ok q" and "length (pipe_content q) < PIPESIZE"
  shows "\<not> pipe_full q"
proof
  assume "pipe_full q"
  then have "p_nwrite q - p_nread q = of_nat PIPESIZE" by (simp add: pipe_full_def)
  then show False using assms(2) by (simp add: pipe_content_def PIPESIZE_def)
qed

section \<open>Writing and reading\<close>

lemma pipewrite_loop_run:
  assumes "readable_as a xs s" and "pipe_ok (pipes s p)" and "k + n \<le> length xs" and "length (pipe_content (pipes s p)) + n \<le> PIPESIZE"
  shows "pipewrite_loop n k p (S_mem a) s = Ret True (upd_pipe p (pq.puts (take n (drop k xs))) s)"
  using assms
proof (induction n arbitrary: k s)
  case 0
  then show ?case by (simp add: upd_pipe_def)
next
  case (Suc n)
  let ?s = "upd_pipe p (pipe_put (xs ! k)) s"
  have p: "pipe_ok (pipe_put (xs ! k) (pipes s p))" "pipe_content (pipe_put (xs ! k) (pipes s p)) = pipe_content (pipes s p) @ [xs ! k]"
    using pq.put_law[OF Suc.prems(2)] Suc.prems(4) by auto
  have nf: "\<not> pipe_full (pipes s p)" using not_full[OF Suc.prems(2)] Suc.prems(4) by simp
  have "pipewrite_loop n (Suc k) p (S_mem a) ?s = Ret True (upd_pipe p (pq.puts (take n (drop (Suc k) xs))) ?s)"
    using Suc.prems p by (intro Suc.IH) auto
  moreover have "drop k xs = xs ! k # drop (Suc k) xs" using Suc.prems(3) by (intro Cons_nth_drop_Suc[symmetric]) simp
  ultimately show ?case using nf get_one[OF Suc.prems(1), of k] Suc.prems(3) by (simp add: upd_pipe_twice)
qed

lemma puts_open: "p_writeopen (pq.puts xs q) = p_writeopen q"
  by (induction xs arbitrary: q) (simp_all add: pipe_put_def)

lemma pipewrite_run:
  fixes s :: "'a fstate_scheme"
  assumes ok: "pipe_ok (pipes s p)" and fits: "length (pipe_content (pipes s p)) + length xs \<le> PIPESIZE"
    and rd: "readable_as a xs s" and free: "lock_free (L_pipe p) s" "lock_free L_ptable s" "cpu_wf s"
  shows "\<exists>t. pipewrite p (S_mem a) (of_nat (length xs)) s = Ret (of_nat (length xs)) t \<and> pipe_ok (pipes t p) \<and>
     pipe_content (pipes t p) = pipe_content (pipes s p) @ xs \<and> balanced s t \<and> mem t = mem s \<and>
     cr3 (this_cpu t) = cr3 (this_cpu s) \<and> p_writeopen (pipes t p) = p_writeopen (pipes s p) \<and> ptable t = map (wake_one (Ch_nread p)) (ptable s)"
proof -
  let ?n = "of_nat (length xs) :: u32"
  have "length xs \<le> 512" using fits by (simp add: PIPESIZE_def)
  then have n: "nat (sint ?n) = length xs"
    by (simp add: sint_uint signed_take_bit_int_eq_self unsigned_of_nat take_bit_nat_eq_self)
  let ?a = "upd_pipe p (pq.puts xs) (lock_taken (L_pipe p) s)"
  let ?b = "woken (Ch_nread p) ?a"
  let ?t = "lock_dropped (L_pipe p) ?b"
  have wa: "within (L_pipe p) s ?a" by simp
  have pf: "lock_free L_ptable ?a" "cpu_wf ?a" using within_lock_free[OF wa] free within_cpu(1)[OF wa free(3)] by simp_all
  note wk = wakeup_woken[OF pf, of "Ch_nread p"]
  have w: "within (L_pipe p) s ?b" using wa wk(2) by (rule within_trans)
  have loop: "pipewrite_loop (length xs) 0 p (S_mem a) (lock_taken (L_pipe p) s) = Ret True ?a"
    using pipewrite_loop_run[of a xs "lock_taken (L_pipe p) s" p 0 "length xs"] rd ok fits by simp
  have "pipewrite p (S_mem a) ?n s = Ret ?n ?t"
    using n loop wk(1) within_release[OF w free(3)] by (simp add: pipewrite_def acquire_free[OF free(1)])
  moreover have "pipe_ok (pipes ?t p) \<and> pipe_content (pipes ?t p) = pipe_content (pipes s p) @ xs"
    using pq.puts_content[OF ok fits] by simp
  moreover have "balanced s ?t" by (rule within_balanced[OF w free(3,1)])
  moreover have "ptable (lock_taken (L_pipe p) s) = ptable s" by (simp add: lock_unfolds)
  ultimately show ?thesis by (intro exI[of _ ?t]) (simp add: puts_open)
qed

fun scatter :: "(nat \<Rightarrow> addr) \<Rightarrow> nat \<Rightarrow> byte list \<Rightarrow> memory \<Rightarrow> memory" where
  "scatter f k [] m = m"
| "scatter f k (x # xs) m = scatter f (Suc k) xs (m(f k := x))"

lemma scatter_other: "x \<notin> f ` {k..<k + length xs} \<Longrightarrow> scatter f k xs m x = m x"
proof (induction xs arbitrary: k m)
  case (Cons y ys)
  have "x \<notin> f ` {Suc k..<Suc k + length ys}" "x \<noteq> f k" using Cons.prems by auto
  then show ?case using Cons.IH by simp
qed simp

lemma scatter_at:
  "inj_on f {k..<k + length xs} \<Longrightarrow> i < length xs \<Longrightarrow> scatter f k xs m (f (k + i)) = xs ! i"
proof (induction xs arbitrary: k m i)
  case (Cons y ys)
  have inj: "inj_on f {Suc k..<Suc k + length ys}" using Cons.prems(1) by (rule inj_on_subset) auto
  show ?case
  proof (cases i)
    case 0
    have "f k \<notin> f ` {Suc k..<Suc k + length ys}" using inj_onD[OF Cons.prems(1), of k] by fastforce
    then show ?thesis using 0 by (simp add: scatter_other)
  next
    case (Suc j)
    then show ?thesis using Cons.IH[OF inj, of j] Cons.prems by simp
  qed
qed simp

lemma piperead_loop_run:
  fixes s s0 :: "'a fstate_scheme"
  assumes "lands_at b N f s0" and "cr3 (this_cpu s) = cr3 (this_cpu s0)" and "\<forall>x. x \<notin> f ` {..<N} \<longrightarrow> mem s x = mem s0 x"
    and "k + n \<le> N" and "pipe_ok (pipes s p)"
  shows "piperead_loop n k p (Some b) s = Ret (take n (pipe_content (pipes s p)))
     (upd_pipe p (\<lambda>q. snd (pq.gets n q)) (s\<lparr>mem := scatter f k (take n (pipe_content (pipes s p))) (mem s)\<rparr>))"
  using assms
proof (induction n arbitrary: k s)
  case 0
  then show ?case by (simp add: upd_pipe_def)
next
  case (Suc n)
  let ?q = "pipes s p"
  have nil: "p_nread ?q = p_nwrite ?q \<longleftrightarrow> pipe_content ?q = []"
  proof -
    have "pipe_content ?q = [] \<longleftrightarrow> unat (p_nwrite ?q - p_nread ?q) = 0"
      using length_ring_content[of "p_data ?q" "p_nread ?q" "p_nwrite ?q" PIPESIZE]
      by (simp add: pipe_content_def flip: length_0_conv)
    then show ?thesis by (auto simp: unat_eq_0)
  qed
  show ?case
  proof (cases "pipe_content ?q")
    case Nil
    then show ?thesis using nil by (simp add: upd_pipe_def)
  next
    case (Cons x xs)
    obtain q' where g: "pipe_get ?q = (x, q')" "pipe_ok q'" "pipe_content q' = xs"
      using pq.get_law[OF Suc.prems(5)] Cons by (cases "pipe_get ?q") auto
    let ?u = "upd_pipe p (\<lambda>_. q') s"
    let ?v = "?u\<lparr>mem := (mem s)(f k := x)\<rparr>"
    have "xlate True (b + of_nat k) ?u = xlate True (b + of_nat k) (s0\<lparr>mem := mem s\<rparr>)"
      by (rule xlate_same) (use Suc.prems(2) in simp_all)
    also have "\<dots> = Some (f k)" using Suc.prems(1,3,4) by (auto simp: lands_at_def)
    finally have d: "deliver (Some b) k [x] ?u = Ret () ?v" by (simp add: deliver_def)
    have "k < N" using Suc.prems(4) by simp
    then have out: "\<forall>z. z \<notin> f ` {..<N} \<longrightarrow> mem ?v z = mem s0 z" using Suc.prems(3) by auto
    have "piperead_loop n (Suc k) p (Some b) ?v = Ret (take n (pipe_content (pipes ?v p)))
        (upd_pipe p (\<lambda>q. snd (pq.gets n q)) (?v\<lparr>mem := scatter f (Suc k) (take n (pipe_content (pipes ?v p))) (mem ?v)\<rparr>))"
    proof (rule Suc.IH[OF Suc.prems(1) _ out])
      show "cr3 (this_cpu ?v) = cr3 (this_cpu s0)" using Suc.prems(2) by simp
    qed (use Suc.prems(4) g(2) in \<open>simp_all add: upd_pipe_def\<close>)
    moreover have "p_nread ?q \<noteq> p_nwrite ?q" using nil Cons by simp
    ultimately show ?thesis
      using d g Cons by (simp add: upd_pipe_def case_prod_unfold)
  qed
qed

lemma lands_at_same:
  assumes "lands_at b n f s" and "mem t = mem s" and "cr3 (this_cpu t) = cr3 (this_cpu s)"
  shows "lands_at b n f t"
proof -
  have "xlate True va (t\<lparr>mem := m\<rparr>) = xlate True va (s\<lparr>mem := m\<rparr>)" for va m
    by (rule xlate_same) (use assms(3) in simp_all)
  then show ?thesis using assms(1,2) by (simp add: lands_at_def)
qed

lemma piperead_run:
  fixes s :: "'a fstate_scheme"
  assumes ok: "pipe_ok (pipes s p)" and c: "pipe_content (pipes s p) \<noteq> [] \<or> \<not> p_writeopen (pipes s p)"
    and ld: "lands_at b n f s" and n: "n < 2 ^ 31" and free: "lock_free (L_pipe p) s" "lock_free L_ptable s" "cpu_wf s"
  shows "\<exists>t. piperead p (Some b) (of_nat n) s =
       Ret (of_nat (length (take n (pipe_content (pipes s p)))), take n (pipe_content (pipes s p))) t \<and>
     pipe_ok (pipes t p) \<and> pipe_content (pipes t p) = drop n (pipe_content (pipes s p)) \<and> balanced s t \<and>
     mem t = scatter f 0 (take n (pipe_content (pipes s p))) (mem s) \<and>
     ptable t = map (wake_one (Ch_nwrite p)) (ptable s)"
proof -
  let ?c = "pipe_content (pipes s p)"
  have m: "nat (sint (of_nat n :: u32)) = n"
    using n by (simp add: sint_uint signed_take_bit_int_eq_self unsigned_of_nat take_bit_nat_eq_self)
  let ?s = "lock_taken (L_pipe p) s"
  let ?a = "upd_pipe p (\<lambda>q. snd (pq.gets n q)) (?s\<lparr>mem := scatter f 0 (take n ?c) (mem s)\<rparr>)"
  let ?b = "woken (Ch_nwrite p) ?a"
  let ?t = "lock_dropped (L_pipe p) ?b"
  have wa: "within (L_pipe p) s ?a" by (simp add: within_def balanced_def lock_free_def upd_pipe_def)
  have pf: "lock_free L_ptable ?a" "cpu_wf ?a" using within_lock_free[OF wa] free within_cpu(1)[OF wa free(3)] by simp_all
  note wk = wakeup_woken[OF pf, of "Ch_nwrite p"]
  have w: "within (L_pipe p) s ?b" using wa wk(2) by (rule within_trans)
  have loop: "piperead_loop n 0 p (Some b) ?s = Ret (take n ?c) ?a"
    using piperead_loop_run[OF ld, of ?s 0 n p] ok by simp
  have "p_nread (pipes s p) \<noteq> p_nwrite (pipes s p) \<or> \<not> p_writeopen (pipes s p)"
    using c by (auto simp: pipe_content_def ring_content_def)
  then have "piperead p (Some b) (of_nat n) s = Ret (of_nat (length (take n ?c)), take n ?c) ?t"
    using m loop wk(1) within_release[OF w free(3)] by (auto simp: piperead_def acquire_free[OF free(1)])
  moreover have "pipe_ok (pipes ?t p) \<and> pipe_content (pipes ?t p) = drop n ?c"
    using pq.gets_content[OF ok, of n] by simp
  moreover have "balanced s ?t" by (rule within_balanced[OF w free(3,1)])
  moreover have "ptable ?s = ptable s" by (simp add: lock_unfolds)
  ultimately show ?thesis by (intro exI[of _ ?t]) simp
qed

text \<open>C25: A pipe is a first-in first-out queue across system calls.  When the bytes at user
  address \<open>a\<close> fit into the pipe, \<open>pipewrite\<close> takes all of them without waiting, and a
  \<open>piperead\<close> of \<open>n\<close> bytes that follows returns the first \<open>n\<close> of what was in the pipe and
  what was written, puts them in this order at the pages behind user address \<open>b\<close>, leaves the
  rest in the pipe, and wakes the sleeping writers.  The free-running counters may wrap.\<close>
theorem pipe_fifo:
  fixes s :: "'a fstate_scheme"
  assumes "pipe_ok (pipes s p)" and "length (pipe_content (pipes s p)) + length xs \<le> PIPESIZE" and "xs \<noteq> []"
    and "readable_as a xs s" and "lands_at b n f s" and "n < 2 ^ 31"
    and "lock_free (L_pipe p) s" "lock_free L_ptable s" "cpu_wf s"
  shows "\<exists>t u bs. pipewrite p (S_mem a) (of_nat (length xs)) s = Ret (of_nat (length xs)) t \<and>
     piperead p (Some b) (of_nat n) t = Ret (of_nat (length bs), bs) u \<and>
     bs = take n (pipe_content (pipes s p) @ xs) \<and> pipe_content (pipes u p) = drop n (pipe_content (pipes s p) @ xs) \<and>
     pipe_ok (pipes u p) \<and> (\<forall>i < length bs. mem u (f i) = bs ! i) \<and> (\<forall>x. x \<notin> f ` {..<n} \<longrightarrow> mem u x = mem s x) \<and>
     ptable u = map (wake_one (Ch_nwrite p) \<circ> wake_one (Ch_nread p)) (ptable s)"
proof -
  let ?bs = "take n (pipe_content (pipes s p) @ xs)"
  obtain t where t: "pipewrite p (S_mem a) (of_nat (length xs)) s = Ret (of_nat (length xs)) t" "pipe_ok (pipes t p)"
    "pipe_content (pipes t p) = pipe_content (pipes s p) @ xs" "balanced s t" "mem t = mem s"
    "cr3 (this_cpu t) = cr3 (this_cpu s)" "ptable t = map (wake_one (Ch_nread p)) (ptable s)"
    using pipewrite_run[OF assms(1,2,4,7-9)] by blast
  note b = balanced_lock_free[OF t(4)] balanced_cpu_wf[OF t(4)]
  have ne: "pipe_content (pipes t p) \<noteq> [] \<or> \<not> p_writeopen (pipes t p)" using t(3) assms(3) by simp
  obtain u where u: "piperead p (Some b) (of_nat n) t = Ret (of_nat (length ?bs), ?bs) u" "pipe_ok (pipes u p)"
    "pipe_content (pipes u p) = drop n (pipe_content (pipes s p) @ xs)" "mem u = scatter f 0 ?bs (mem s)"
    "ptable u = map (wake_one (Ch_nwrite p)) (ptable t)"
    using piperead_run[OF t(2) ne lands_at_same[OF assms(5) t(5,6)] assms(6)] b assms(7-9) t(3,5) by auto
  have inj: "inj_on f {0..<0 + length ?bs}" using assms(5) by (auto simp: lands_at_def intro: inj_on_subset)
  have "mem u (f i) = ?bs ! i" if "i < length ?bs" for i
    using scatter_at[OF inj that, of "mem s"] u(4) by simp
  moreover have "mem u x = mem s x" if "x \<notin> f ` {..<n}" for x
    unfolding u(4) by (rule scatter_other) (use that in auto)
  ultimately show ?thesis using t(1,7) u by (intro exI[of _ t] exI[of _ u] exI[of _ ?bs]) auto
qed

text \<open>C26: A full pipe never loses a byte and never blocks a writer that cannot make progress.  If
  the read end is closed or the writer has been killed, \<open>pipewrite\<close> returns -1 with the pipe
  unchanged and its lock released.  Otherwise it wakes the readers, and the writer leaves
  the CPU asleep on the pipe's write counter, with the lock of the pipe released.\<close>
theorem pipewrite_full:
  fixes s :: "'a fstate_scheme"
  assumes full: "pipe_full (pipes s p)" and n: "slt 0 n" and free: "lock_free (L_pipe p) s" "lock_free L_ptable s"
    and cpu: "ncli (this_cpu s) = 0" "cproc (this_cpu s) = Some me" "me < length (ptable s)"
  shows "if \<not> p_readopen (pipes s p) \<or> killed (ptable s ! me)
    then \<exists>t. pipewrite p src n s = Ret (- 1) t \<and> pipes t = pipes s \<and> ptable t = ptable s \<and> lock_free (L_pipe p) t
    else \<exists>t. pipewrite p src n s = Swtch t \<and> state (ptable t ! me) = SLEEPING \<and> chan (ptable t ! me) = Some (Ch_nwrite p) \<and>
      lock_free (L_pipe p) t \<and> (\<forall>i < length (ptable s). i \<noteq> me \<longrightarrow> ptable t ! i = wake_one (Ch_nread p) (ptable s ! i))"
proof -
  let ?s = "lock_taken (L_pipe p) s"
  obtain k where k: "nat (sint n) = Suc k" using n by (cases "nat (sint n)") (auto simp: slt_def)
  have wf: "cpu_wf s" using cpu(1) by (simp add: cpu_wf_def)
  have pt: "ptable ?s = ptable s" by (simp add: lock_unfolds)
  have w: "within (L_pipe p) s ?s" by simp
  show ?thesis
  proof (cases "\<not> p_readopen (pipes s p) \<or> killed (ptable s ! me)")
    case True
    have "pipewrite p src n s = Ret (- 1) (lock_dropped (L_pipe p) ?s)"
      using k full True cpu(2) pt within_release[OF w wf]
      by (simp add: pipewrite_def acquire_free[OF free(1)] with_proc_def)
    moreover have "lock_free (L_pipe p) (lock_dropped (L_pipe p) ?s)"
      using balanced_lock_free[OF within_balanced[OF w wf free(1)]] free(1) by simp
    moreover have "ptable (lock_dropped (L_pipe p) ?s) = ptable s" by (simp add: lock_unfolds)
    ultimately show ?thesis using True by auto
  next
    case False
    have pf: "lock_free L_ptable ?s" "cpu_wf ?s" using within_lock_free[OF w] free within_cpu(1)[OF w wf] by simp_all
    let ?b = "woken (Ch_nread p) ?s"
    note wk = wakeup_woken[OF pf, of "Ch_nread p"]
    have wb: "within (L_pipe p) s ?b" using w wk(2) by (rule within_trans)
    have c: "holding (L_pipe p) ?b" "\<not> if_flag (this_cpu ?b)" using within_cpu[OF wb wf] by simp_all
    have "cpu_sync (this_cpu ?s) (cpus ?b (mycpu ?s))" using wk(2) by (simp add: balanced_def)
    then have c1: "ncli (this_cpu ?b) = 1" using cpu(1) by (simp add: cpu_sync_def lock_taken_def pushed_def)
    have lf: "lock_free L_ptable ?b" using within_lock_free[OF wb] free(2) by simp
    have cp: "cproc (this_cpu ?b) = Some me" using cpu(2) by (simp add: woken_def wakeup1_def)
    obtain t where t: "(sleep (Ch_nwrite p) (L_pipe p) ?b :: (bool, 'a fstate_scheme) outcome) = Swtch t" "lock_free (L_pipe p) t"
      "ptable t = (ptable ?b)[me := (ptable ?b ! me)\<lparr>chan := Some (Ch_nwrite p), state := SLEEPING,
        ctxt := K_sched (R_sleep (L_pipe p)) (intena (this_cpu ?b)) (ebp ?b)\<rparr>]"
      using sleep_run[OF lf _ c(1) c1 c(2) cp, of "Ch_nwrite p"] cpu(3) pt by auto
    have "pipewrite p src n s = Swtch t"
      using k full False cpu(2) pt wk(1) t(1) by (simp add: pipewrite_def acquire_free[OF free(1)] with_proc_def)
    then show ?thesis using False t cpu(3) pt by auto
  qed
qed

text \<open>
  A process whose user page 0 is at \<open>0x80302000\<close>, with two bytes at user address 16, and an
  empty pipe whose counters are about to wrap.
\<close>

definition demo_user_mem :: memory where
  "demo_user_mem = (\<lambda>_. 0)(0x80300000 := 7, 0x80300001 := 0x10, 0x80300002 := 0x30,
     0x80301000 := 7, 0x80301001 := 0x20, 0x80301002 := 0x30, 0x80302010 := 65, 0x80302011 := 66)"

definition demo_pipe :: fstate where
  "demo_pipe = (demo_fstate (\<lambda>_. replicate BSIZE 0))\<lparr>mem := demo_user_mem,
     cpus := (\<lambda>_. zero_cpu\<lparr>if_flag := True, cr3 := 0x300000\<rparr>),
     pipes := (\<lambda>_. zero_pipe\<lparr>p_nread := 0xFFFFFFFF, p_nwrite := 0xFFFFFFFF\<rparr>)\<rparr>"

lemma demo_xlate:
  assumes "m 0x80300000 = 7" "m 0x80300001 = 0x10" "m 0x80300002 = 0x30" "m 0x80300003 = 0"
    "m 0x80301000 = 7" "m 0x80301001 = 0x20" "m 0x80301002 = 0x30" "m 0x80301003 = 0" and "va \<in> {16, 17, 32, 33}"
  shows "xlate w va (demo_pipe\<lparr>mem := m\<rparr>) = Some (0x80302000 + va)"
  using assms
  by (auto simp: xlate_def demo_pipe_def load32_def p2v_def PTE_ADDR_def PDX_def PTX_def PGROUNDDOWN_def KERNBASE_def
      PGSIZE_def PTE_P_def PTE_W_def)

theorem pipe_fifo_witness:
  "\<exists>t u. pipewrite 0x80305000 (S_mem 16) 2 demo_pipe = Ret 2 t \<and>
     piperead 0x80305000 (Some 32) 2 t = Ret (2, [65, 66]) u \<and> mem u 0x80302020 = 65 \<and> mem u 0x80302021 = 66"
proof -
  let ?f = "\<lambda>k. 0x80302020 + of_nat k :: addr"
  have two: "{..<2} = {0, 1 :: nat}" by auto
  have lt: "k < Suc (Suc 0) \<longleftrightarrow> k = 0 \<or> k = 1" "k < 2 \<longleftrightarrow> k = 0 \<or> k = 1" for k :: nat by auto
  have up: "demo_pipe\<lparr>mem := demo_user_mem\<rparr> = demo_pipe" "mem demo_pipe = demo_user_mem" by (simp_all add: demo_pipe_def)
  have q: "pipes demo_pipe 0x80305000 = zero_pipe\<lparr>p_nread := 0xFFFFFFFF, p_nwrite := 0xFFFFFFFF\<rparr>"
    by (simp add: demo_pipe_def)
  have "pipe_content (pipes demo_pipe 0x80305000) = []" "pipe_ok (pipes demo_pipe 0x80305000)"
    by (simp_all add: q zero_pipe_def pipe_content_def pipe_ok_def ring_content_def)
  moreover have "readable_as 16 [65, 66] demo_pipe"
    using demo_xlate[where m = demo_user_mem and va = 16 and w = False] demo_xlate[where m = demo_user_mem and va = 17 and w = False]
    unfolding up by (auto simp: readable_as_def lt up demo_user_mem_def)
  moreover have "lands_at 32 2 ?f demo_pipe"
  proof -
    have "xlate True (32 + of_nat k) (demo_pipe\<lparr>mem := m\<rparr>) = Some (?f k)"
      if m: "\<forall>x. x \<notin> ?f ` {..<2} \<longrightarrow> m x = mem demo_pipe x" and k: "k < 2" for m k
      using demo_xlate[where m = m and va = "32 + of_nat k" and w = True] m k
      by (auto simp: two lt up demo_user_mem_def)
    then show ?thesis by (simp add: lands_at_def two)
  qed
  moreover have "lock_free l demo_pipe" "cpu_wf demo_pipe" for l
    using demo_fstate_fields(5) by (simp_all add: demo_pipe_def lock_free_def cpu_wf_def zero_cpu_def)
  ultimately show ?thesis
    using pipe_fifo[where s = demo_pipe and p = "0x80305000" and xs = "[65, 66]" and a = 16 and b = 32 and n = 2 and f = ?f] by (auto simp: PIPESIZE_def lt imp_disjL all_conj_distrib)
qed

definition demo_full :: fstate where
  "demo_full = (demo_fstate (\<lambda>_. replicate BSIZE 0))\<lparr>mycpu := 1, pipes := (\<lambda>_. zero_pipe\<lparr>p_nwrite := 512\<rparr>)\<rparr>"

theorem pipewrite_full_witness:
  "\<exists>t. pipewrite 0x80305000 (S_mem 16) 1 demo_full = Swtch t \<and> state (ptable t ! 0) = SLEEPING \<and>
     state (ptable t ! 1) = RUNNABLE"
proof -
  have d: "pipes demo_full = (\<lambda>_. zero_pipe\<lparr>p_nwrite := 512\<rparr>)" "ptable demo_full = ptable demo_state" "mycpu demo_full = 1"
    "cpus demo_full = cpus demo_state" "lock_free l demo_full" for l
    using demo_fstate_fields(5) by (simp_all add: demo_full_def demo_fstate_fields lock_free_def)
  have "pipe_full (pipes demo_full 0x80305000)" "p_readopen (pipes demo_full 0x80305000)"
    by (simp_all add: d pipe_full_def zero_pipe_def PIPESIZE_def)
  moreover have "\<not> killed (ptable demo_state ! 0)"
    "wake_one (Ch_nread 0x80305000) (ptable demo_state ! 1) = (ptable demo_state ! 1)\<lparr>state := RUNNABLE\<rparr>"
    by (simp_all add: demo_state_def zero_proc_def wake_one_def)
  moreover have "cproc (this_cpu demo_full) = Some 0" "ncli (this_cpu demo_full) = 0"
    using demo_state_simps(3,8) by (simp_all add: d)
  ultimately show ?thesis
    using pipewrite_full[where s = demo_full and p = "0x80305000" and n = 1 and me = 0 and src = "S_mem 16"]
      demo_state_simps(5) d by (auto simp: slt_def)
qed

end
