(* ===== verification/Tty.thy ===== *)
theory Tty
  imports Pipe
begin

text \<open>
  What the console promises for input: a line editor.  The ring of \<open>console.c\<close> with its
  three wrapping indices is a pair of byte lists, the lines that readers may take and the line
  being edited, and an interrupt of the serial port applies the editor to the characters
  received.
\<close>

section \<open>Output does not touch the input\<close>

lemma consputc_run:
  fixes s :: "'a cstate_scheme"
  assumes "\<not> panicked s" and "crt_pos s < 24 * 80"
  shows "\<exists>u k p. consputc c s = Ret () (s\<lparr>uart_out := u, crt := k, crt_pos := p\<rparr>) \<and> p < 24 * 80"
proof -
  have "\<exists>u. (if c = BACKSPACE then uartputc 8 (uartputc 32 (uartputc 8 s)) else uartputc c s) = s\<lparr>uart_out := u\<rparr>"
    by (cases "uart_on s")
      (auto simp: uartputc_def intro: exI[of _ "((uart_out s @ [8]) @ [32]) @ [8]"] exI[of _ "uart_out s @ [ucast c]"] exI[of _ "uart_out s"])
  then obtain u where u: "(if c = BACKSPACE then uartputc 8 (uartputc 32 (uartputc 8 s)) else uartputc c s) = s\<lparr>uart_out := u\<rparr>"
    by blast
  let ?pos = "if c = 10 then crt_pos s + (80 - crt_pos s mod 80) else if c = BACKSPACE then crt_pos s - 1 else crt_pos s + 1"
  have "80 * (crt_pos s div 80) + crt_pos s mod 80 = crt_pos s" "crt_pos s mod 80 < 80" "crt_pos s div 80 < 24"
    using assms(2) by (simp_all add: div_less_iff_less_mult)
  then have "crt_pos s + (80 - crt_pos s mod 80) \<le> 24 * 80" by linarith
  then have le: "?pos \<le> 24 * 80" using assms(2) by auto
  let ?k = "if c = 10 \<or> c = BACKSPACE then crt s else (crt s)(crt_pos s := ucast (c AND 0xff) OR 0x0700)"
  have e: "consputc c s = cgaputc c (s\<lparr>uart_out := u\<rparr>)" using assms(1) u by (simp add: consputc_def Let_def)
  show ?thesis
  proof (cases "?pos div 80 \<ge> 24")
    case True
    have "cgaputc c (s\<lparr>uart_out := u\<rparr>) =
        Ret () (s\<lparr>uart_out := u, crt := (scroll_up ?k (?pos - 80))(?pos - 80 := 0x0720), crt_pos := ?pos - 80\<rparr>)"
      using True le by (cases "c = 10"; cases "c = BACKSPACE"; simp add: cgaputc_def Let_def BACKSPACE_def)
    moreover have "?pos - 80 < 24 * 80" using le by simp
    ultimately show ?thesis unfolding e by blast
  next
    case False
    have "cgaputc c (s\<lparr>uart_out := u\<rparr>) = Ret () (s\<lparr>uart_out := u, crt := ?k(?pos := 0x0720), crt_pos := ?pos\<rparr>)"
      using False by (simp add: cgaputc_def Let_def)
    moreover have "?pos < 24 * 80" using False by (simp add: not_le div_less_iff_less_mult)
    ultimately show ?thesis unfolding e by blast
  qed
qed

section \<open>The ring as two lists\<close>

definition in_done :: "'a nstate_scheme \<Rightarrow> byte list" where
  "in_done s = ring_content (in_buf s) (in_r s) (in_w s) INPUT_BUF"

definition in_line :: "'a nstate_scheme \<Rightarrow> byte list" where
  "in_line s = ring_content (in_buf s) (in_w s) (in_e s) INPUT_BUF"

definition input_ok :: "'a nstate_scheme \<Rightarrow> bool" where
  "input_ok s \<longleftrightarrow> length (in_buf s) = INPUT_BUF \<and> length (in_done s) + length (in_line s) \<le> INPUT_BUF \<and> 10 \<notin> set (in_line s)"

definition edit_char :: "u32 \<Rightarrow> byte list \<times> byte list \<Rightarrow> byte list \<times> byte list" where
  "edit_char c st = (case st of (dn, ln) \<Rightarrow>
     if c = CTRL_U then (dn, [])
     else if c = CTRL_H \<or> c = 0x7f then (dn, butlast ln)
     else if c \<noteq> 0 \<and> length dn + length ln < INPUT_BUF then
       let c = (if c = 13 then 10 else c); ln = ln @ [ucast c] in
       if c = 10 \<or> c = CTRL_D \<or> length dn + length ln = INPUT_BUF then (dn @ ln, []) else (dn, ln)
     else (dn, ln))"

lemma unat_diff_add:
  assumes "unat (w - r :: u32) + unat (e - w) < 2 ^ 32"
  shows "unat (e - r) = unat (w - r) + unat (e - w)"
proof -
  have "e - r = (w - r) + (e - w)" by simp
  then show ?thesis using assms by (simp only: unat_word_ariths) simp
qed

lemma ring_split:
  assumes "unat (w - r :: u32) + unat (e - w) < 2 ^ 32"
  shows "ring_content d r e c = ring_content d r w c @ ring_content d w e c"
proof -
  have "r + of_nat (unat (w - r) + i) = w + of_nat i" for i by simp
  then have "map (\<lambda>i. d ! (unat (r + of_nat i) mod c)) [unat (w - r)..<unat (w - r) + unat (e - w)] = ring_content d w e c"
    by (intro nth_equalityI) (simp_all add: ring_content_def)
  then show ?thesis unfolding ring_content_def[of d r] unat_diff_add[OF assms] by (simp add: upt_add_eq_append[of 0])
qed

lemma ring_butlast:
  assumes "ring_content d w e c \<noteq> []"
  shows "ring_content d w (e - 1) c = butlast (ring_content d w e c)"
    and "last (ring_content d w e c) = d ! (unat (e - 1) mod c)"
proof -
  have ne: "unat (e - w) \<noteq> 0" using assms length_ring_content by (metis length_0_conv)
  have e: "e - 1 - w = (e - w) - 1" by simp
  have "e - w \<noteq> 0" using ne by auto
  then have k: "unat (e - w) = Suc (unat (e - 1 - w))" unfolding e using unat_minus_one[of "e - w"] ne by simp
  show "ring_content d w (e - 1) c = butlast (ring_content d w e c)" by (simp add: ring_content_def k)
  have "w + of_nat (unat (e - 1 - w)) = e - 1" by simp
  then show "last (ring_content d w e c) = d ! (unat (e - 1) mod c)" by (simp add: ring_content_def k)
qed

text \<open>What the editor may change besides its own fields: the output devices.\<close>

abbreviation shown :: "byte list \<Rightarrow> (nat \<Rightarrow> u16) \<Rightarrow> nat \<Rightarrow> 'a cstate_scheme \<Rightarrow> 'a cstate_scheme" where
  "shown u k p s \<equiv> s\<lparr>uart_out := u, crt := k, crt_pos := p\<rparr>"

lemma shown_in [simp]:
  "in_done (shown u k p s) = in_done s" "in_line (shown u k p s) = in_line s" "input_ok (shown u k p s) = input_ok s"
  for s :: "'a nstate_scheme"
  by (simp_all add: in_done_def in_line_def input_ok_def)

lemma in_line_pop:
  assumes "in_line s \<noteq> []"
  shows "in_line (s\<lparr>in_e := in_e s - 1\<rparr>) = butlast (in_line s)" "last (in_line s) = in_at s (in_e s - 1)" "in_e s \<noteq> in_w s"
  using assms ring_butlast[of "in_buf s" "in_w s" "in_e s" INPUT_BUF]
  by (auto simp: in_line_def in_at_def ring_content_def)

lemma in_line_nil: "in_line s = [] \<longleftrightarrow> in_e s = in_w s"
  by (auto simp: in_line_def ring_content_def unat_eq_0)

lemma kill_line_run:
  fixes s :: "'a nstate_scheme"
  assumes "10 \<notin> set (in_line s)" and "\<not> panicked s" and "crt_pos s < 24 * 80"
  shows "\<exists>u k p. kill_line (Suc (length (in_line s))) s = Ret () (shown u k p (s\<lparr>in_e := in_w s\<rparr>)) \<and> p < 24 * 80"
  using assms
proof (induction "length (in_line s)" arbitrary: s)
  case 0
  then have "in_e s = in_w s" by (simp add: in_line_nil)
  moreover from this have "shown (uart_out s) (crt s) (crt_pos s) (s\<lparr>in_e := in_w s\<rparr>) = s" by simp
  ultimately show ?case using 0 by (metis kill_line.simps(2))
next
  case (Suc n)
  have ne: "in_line s \<noteq> []" using Suc.hyps(2) by auto
  note pop = in_line_pop[OF ne]
  have nl: "in_at s (in_e s - 1) \<noteq> 10" using Suc.prems(1) pop(2) last_in_set[OF ne] by metis
  let ?s = "s\<lparr>in_e := in_e s - 1\<rparr>"
  obtain u k p where c: "consputc BACKSPACE ?s = Ret () (shown u k p ?s)" "p < 24 * 80"
    using consputc_run[of ?s BACKSPACE] Suc.prems by auto
  let ?t = "shown u k p ?s"
  have l: "in_line ?t = butlast (in_line s)" using pop(1) by (simp add: in_line_def)
  have "n = length (in_line ?t)" using Suc.hyps(2) l by simp
  then have "\<exists>u k p. kill_line (Suc (length (in_line ?t))) ?t = Ret () (shown u k p (?t\<lparr>in_e := in_w ?t\<rparr>)) \<and> p < 24 * 80"
    by (rule Suc.hyps(1)) (use Suc.prems l c(2) in_set_butlastD in \<open>fastforce, simp_all\<close>)
  moreover have "Suc (length (in_line ?t)) = length (in_line s)" using l Suc.hyps(2) by simp
  moreover have "kill_line (Suc (length (in_line s))) s = kill_line (length (in_line s)) ?t" using c(1) nl pop(3) by simp
  ultimately show ?case by (simp del: kill_line.simps)
qed

text \<open>A character goes to the end of the line.\<close>

lemma in_line_put:
  fixes s :: "'a nstate_scheme" and b :: byte
  assumes ok: "input_ok s" and room: "length (in_done s) + length (in_line s) < INPUT_BUF"
  defines "t \<equiv> s\<lparr>in_buf := (in_buf s)[unat (in_e s) mod INPUT_BUF := b], in_e := in_e s + 1\<rparr>"
  shows "in_done t = in_done s" "in_line t = in_line s @ [b]" "length (in_buf t) = INPUT_BUF"
    "in_e t = in_r t + of_nat INPUT_BUF \<longleftrightarrow> length (in_done t) + length (in_line t) = INPUT_BUF"
    "in_done (t\<lparr>in_w := in_e t\<rparr>) = in_done t @ in_line t" "in_line (t\<lparr>in_w := in_e t\<rparr>) = []"
proof -
  let ?c = INPUT_BUF and ?r = "in_r s" and ?w = "in_w s" and ?e = "in_e s"
  have dv: "?c dvd 2 ^ 32" "0 < ?c" "?c < 2 ^ 32" by (simp_all add: INPUT_BUF_def)
  have len: "unat (?w - ?r) + unat (?e - ?w) < ?c" using room by (simp add: in_done_def in_line_def)
  then have lt: "unat (?w - ?r) + unat (?e - ?w) < 2 ^ 32" by (simp add: INPUT_BUF_def)
  have e1: "unat (?e + 1 - ?w) = Suc (unat (?e - ?w))" by (rule unat_suc_diff) (use len in \<open>simp add: INPUT_BUF_def\<close>)
  then have lt': "unat (?w - ?r) + unat (?e + 1 - ?w) < 2 ^ 32" using len by (simp add: INPUT_BUF_def)
  show lb: "length (in_buf t) = ?c" using ok by (simp add: t_def input_ok_def)
  have "ring_content (in_buf t) ?r (?e + 1) ?c = ring_content (in_buf s) ?r ?e ?c @ [b]"
    unfolding t_def using ring_put[OF _ dv, of "in_buf s" ?e ?r b] ok len unat_diff_add[OF lt] by (simp add: input_ok_def)
  then have "ring_content (in_buf t) ?r ?w ?c @ ring_content (in_buf t) ?w (?e + 1) ?c =
      ring_content (in_buf s) ?r ?w ?c @ (ring_content (in_buf s) ?w ?e ?c @ [b])"
    using ring_split[OF lt] ring_split[OF lt'] by simp
  then show d: "in_done t = in_done s" and l: "in_line t = in_line s @ [b]"
    by (simp_all add: in_done_def in_line_def t_def append_eq_append_conv)
  have n: "unat (?e + 1 - ?r) = length (in_done t) + length (in_line t)"
    using unat_diff_add[OF lt'] d l e1 by (simp add: in_done_def in_line_def t_def)
  have "?e + 1 = ?r + of_nat ?c \<longleftrightarrow> ?e + 1 - ?r = of_nat ?c" by (auto simp: algebra_simps)
  also have "\<dots> \<longleftrightarrow> unat (?e + 1 - ?r) = ?c" by (simp add: word_unat_eq_iff unat_of_nat INPUT_BUF_def)
  finally show "in_e t = in_r t + of_nat ?c \<longleftrightarrow> length (in_done t) + length (in_line t) = ?c" by (simp add: n t_def)
  show "in_done (t\<lparr>in_w := in_e t\<rparr>) = in_done t @ in_line t"
    using ring_split[OF lt', of "in_buf t" ?c] by (simp add: in_done_def in_line_def t_def)
  show "in_line (t\<lparr>in_w := in_e t\<rparr>) = []" by (simp add: in_line_def ring_content_def)
qed

lemma nstate_woken [simp]:
  "in_buf (woken ch s) = in_buf s" "in_r (woken ch s) = in_r s" "in_w (woken ch s) = in_w s" "in_e (woken ch s) = in_e s"
  "uart_in (woken ch s) = uart_in s" "uart_on (woken ch s) = uart_on s" "panicked (woken ch s) = panicked s"
  "crt_pos (woken ch s) = crt_pos s" "in_done (woken ch s) = in_done s" "in_line (woken ch s) = in_line s"
  for s :: "'a nstate_scheme"
  by (simp_all add: woken_def wakeup1_def lock_unfolds in_done_def in_line_def)

text \<open>The output devices are on, and no CPU has panicked.\<close>

definition screen_ok :: "'a cstate_scheme \<Rightarrow> bool" where
  "screen_ok s \<longleftrightarrow> \<not> panicked s \<and> crt_pos s < 24 * 80"

lemma consputc_ok:
  assumes "screen_ok s"
  obtains u k p where "consputc c s = Ret () (shown u k p s)" "screen_ok (shown u k p s)" "p < 24 * 80"
  using consputc_run[of s c] assms by (auto simp: screen_ok_def)

lemma input_char_run:
  fixes s :: "'a nstate_scheme"
  assumes ok: "input_ok s" and c: "c < 256" "c \<noteq> CTRL_P" and out: "screen_ok s" and free: "lock_free L_ptable s" "cpu_wf s"
  shows "\<exists>t. input_char c s = Ret () t \<and> input_ok t \<and> (in_done t, in_line t) = edit_char c (in_done s, in_line s) \<and>
     balanced s t \<and> screen_ok t \<and> uart_in t = uart_in s \<and> uart_on t = uart_on s"
proof -
  consider (U) "c = CTRL_U" | (H) "c \<noteq> CTRL_U" "c = CTRL_H \<or> c = 0x7f"
    | (P) "c \<noteq> CTRL_U" "c \<noteq> CTRL_H" "c \<noteq> 0x7f" "c \<noteq> 0" "length (in_done s) + length (in_line s) < INPUT_BUF"
    | (N) "c \<noteq> CTRL_U" "c \<noteq> CTRL_H" "c \<noteq> 0x7f" "\<not> (c \<noteq> 0 \<and> length (in_done s) + length (in_line s) < INPUT_BUF)"
    by blast
  moreover have room: "in_e s - in_r s < of_nat INPUT_BUF \<longleftrightarrow> length (in_done s) + length (in_line s) < INPUT_BUF"
  proof -
    have l: "unat (in_w s - in_r s) + unat (in_e s - in_w s) < 2 ^ 32"
      using ok by (simp add: input_ok_def in_done_def in_line_def INPUT_BUF_def)
    show ?thesis using unat_diff_add[OF l] by (simp add: word_less_nat_alt in_done_def in_line_def INPUT_BUF_def)
  qed
  ultimately show ?thesis
  proof cases
    case U
    obtain u k p where r: "kill_line (Suc (length (in_line s))) s = Ret () (shown u k p (s\<lparr>in_e := in_w s\<rparr>))" "p < 24 * 80"
      using kill_line_run[of s] ok out by (auto simp: input_ok_def screen_ok_def)
    have "length (in_line s) = unat (in_e s - in_w s)" by (simp add: in_line_def)
    then have "input_char c s = Ret () (shown u k p (s\<lparr>in_e := in_w s\<rparr>))" using U r(1) by (simp add: input_char_def)
    moreover have "in_line (s\<lparr>in_e := in_w s\<rparr>) = []" "in_done (s\<lparr>in_e := in_w s\<rparr>) = in_done s"
      by (simp_all add: in_line_nil in_done_def)
    ultimately show ?thesis using U ok out r(2)
      by (simp add: edit_char_def input_ok_def balanced_def lock_free_def screen_ok_def)
  next
    case H
    show ?thesis
    proof (cases "in_line s = []")
      case True
      then have "input_char c s = Ret () s" using H by (auto simp: input_char_def in_line_nil)
      then show ?thesis using H True ok out by (auto simp: edit_char_def)
    next
      case False
      note pop = in_line_pop[OF False]
      let ?s = "s\<lparr>in_e := in_e s - 1\<rparr>"
      have "screen_ok ?s" using out by (simp add: screen_ok_def)
      from consputc_ok[OF this, of BACKSPACE] obtain u k p
        where r: "consputc BACKSPACE ?s = Ret () (shown u k p ?s)" "p < 24 * 80" by metis
      have "input_char c s = Ret () (shown u k p ?s)" using H r(1) pop(3) by (auto simp: input_char_def)
      moreover have "in_done ?s = in_done s" by (simp add: in_done_def)
      moreover have "edit_char c (in_done s, in_line s) = (in_done s, butlast (in_line s))"
        using H by (auto simp: edit_char_def)
      ultimately show ?thesis using H ok out r(2) pop(1)
        by (auto simp: input_ok_def balanced_def lock_free_def screen_ok_def dest: in_set_butlastD)
    qed
  next
    case P
    let ?d = "if c = 13 then 10 else c"
    let ?s = "s\<lparr>in_buf := (in_buf s)[unat (in_e s) mod INPUT_BUF := ucast ?d], in_e := in_e s + 1\<rparr>"
    note put = in_line_put[OF ok P(5), of "ucast ?d"]
    have "screen_ok ?s" using out by (simp add: screen_ok_def)
    from consputc_ok[OF this, of ?d] obtain u k p
      where r: "consputc ?d ?s = Ret () (shown u k p ?s)" "p < 24 * 80" by metis
    let ?t = "shown u k p ?s"
    have scr: "screen_ok ?t" using out r(2) by (simp add: screen_ok_def)
    have full: "in_e ?t = in_r ?t + of_nat INPUT_BUF \<longleftrightarrow> length (in_done s) + length (in_line s) + 1 = INPUT_BUF"
      using put(1,2,4) by simp
    have bal: "balanced s ?t" by (simp add: balanced_def lock_free_def)
    have step: "input_char c s = (if ?d = 10 \<or> ?d = CTRL_D \<or> in_e ?t = in_r ?t + of_nat INPUT_BUF
        then wakeup Ch_input (?t\<lparr>in_w := in_e ?t\<rparr>) else Ret () ?t)"
      using P c room r(1) by (simp add: input_char_def)
    show ?thesis
    proof (cases "?d = 10 \<or> ?d = CTRL_D \<or> in_e ?t = in_r ?t + of_nat INPUT_BUF")
      case True
      let ?v = "?t\<lparr>in_w := in_e ?t\<rparr>"
      have bv: "balanced s ?v" by (simp add: balanced_def lock_free_def)
      have pf: "lock_free L_ptable ?v" "cpu_wf ?v" using balanced_lock_free[OF bv] balanced_cpu_wf[OF bv] free by simp_all
      note wk = wakeup_woken[OF pf, of Ch_input]
      have "in_done ?v = in_done s @ in_line s @ [ucast ?d]" "in_line ?v = []" "length (in_buf ?v) = INPUT_BUF"
        using put by (simp_all add: in_done_def in_line_def)
      then have "input_ok (woken Ch_input ?v)" "(in_done (woken Ch_input ?v), in_line (woken Ch_input ?v)) =
          edit_char c (in_done s, in_line s)"
        using P True full by (auto simp: input_ok_def edit_char_def Let_def)
      moreover have "balanced s (woken Ch_input ?v)" using bv wk(2) by (rule balanced_trans)
      ultimately show ?thesis using step True wk(1) scr by (auto simp: screen_ok_def)
    next
      case False
      have "in_done ?t = in_done s" "in_line ?t = in_line s @ [ucast ?d]" "length (in_buf ?t) = INPUT_BUF"
        using put by simp_all
      moreover have "(ucast ?d :: byte) \<noteq> 10"
      proof -
        have "uint ?d < 256" using c(1) by (auto simp: word_less_def)
        then have "uint (ucast ?d :: byte) = uint ?d" by (simp add: unsigned_ucast_eq take_bit_int_eq_self)
        then show ?thesis using False by (auto simp: word_uint_eq_iff)
      qed
      ultimately have "input_ok ?t" "(in_done ?t, in_line ?t) = edit_char c (in_done s, in_line s)"
        using P False full ok by (auto simp: input_ok_def edit_char_def Let_def)
      then show ?thesis using step False bal scr by auto
    qed
  next
    case N
    then have "input_char c s = Ret () s" using c(2) room by (auto simp: input_char_def)
    then show ?thesis using N ok out by (auto simp: edit_char_def)
  qed
qed

section \<open>Interrupts\<close>

definition edit_all :: "byte list \<Rightarrow> byte list \<times> byte list \<Rightarrow> byte list \<times> byte list" where
  "edit_all bs st = fold (\<lambda>b. edit_char (ucast b)) bs st"

lemma uint_byte: "uint (ucast b :: u32) = uint b" for b :: byte
  using uint_lt2p[of b] by (simp add: unsigned_ucast_eq take_bit_int_eq_self)

lemma byte_char: "(ucast b :: u32) < 256" "sle 0 (ucast b)" for b :: byte
proof -
  have "uint b < 256" using uint_lt2p[of b] by simp
  then have "uint (ucast b :: u32) < 256" by (simp add: uint_byte)
  then show "(ucast b :: u32) < 256" by (simp add: word_less_def)
  have "sint (ucast b :: u32) = uint (ucast b :: u32)"
    using \<open>uint (ucast b :: u32) < 256\<close>
    unfolding sint_uint by (intro signed_take_bit_int_eq_self order_trans[OF _ uint_ge_0]) simp_all
  then show "sle 0 (ucast b)" by (simp add: sle_def)
qed

lemma consoleintr_loop_run:
  fixes s :: "'a nstate_scheme"
  assumes "input_ok s" and "uart_on s" and "16 \<notin> set (uart_in s)" and "screen_ok s" and "lock_free L_ptable s" "cpu_wf s"
  shows "\<exists>t. consoleintr_loop (Suc (length (uart_in s))) uartgetc s = Ret () t \<and> input_ok t \<and>
     (in_done t, in_line t) = edit_all (uart_in s) (in_done s, in_line s) \<and> balanced s t \<and> uart_in t = []"
  using assms
proof (induction "uart_in s" arbitrary: s)
  case Nil
  then have "consoleintr_loop (Suc (length (uart_in s))) uartgetc s = Ret () s" by (simp add: uartgetc_def sle_def)
  then show ?case using Nil by (simp add: edit_all_def)
next
  case (Cons b bs)
  let ?s = "s\<lparr>uart_in := bs\<rparr>"
  have same: "in_done ?s = in_done s" "in_line ?s = in_line s" "input_ok ?s = input_ok s"
    by (simp_all add: in_done_def in_line_def input_ok_def)
  have bal: "balanced s ?s" by (simp add: balanced_def lock_free_def)
  have b16: "(ucast b :: u32) \<noteq> CTRL_P"
  proof
    assume "(ucast b :: u32) = CTRL_P"
    then have "uint b = 16" using uint_byte[of b] by simp
    then have "b = 16" by (simp add: word_uint_eq_iff)
    then show False using Cons.prems(3) Cons.hyps(2) by (metis list.set_intros(1))
  qed
  have ps: "screen_ok ?s" "lock_free L_ptable ?s" "cpu_wf ?s"
    using Cons.prems by (simp_all add: screen_ok_def lock_free_def cpu_wf_def)
  obtain u where u: "input_char (ucast b) ?s = Ret () u" "input_ok u" "(in_done u, in_line u) = edit_char (ucast b) (in_done s, in_line s)"
    "balanced ?s u" "screen_ok u" "uart_in u = bs" "uart_on u"
    using input_char_run[of ?s "ucast b"] byte_char[of b] b16 ps Cons.prems same by auto
  have lu: "lock_free L_ptable u" "cpu_wf u" using balanced_lock_free[OF u(4)] balanced_cpu_wf[OF u(4)] ps by simp_all
  have ui: "uart_in s = b # bs" using Cons.hyps(2) by simp
  then have n16: "16 \<notin> set (uart_in u)" using Cons.prems(3) u(6) by simp
  obtain t where t: "consoleintr_loop (Suc (length bs)) uartgetc u = Ret () t" "input_ok t"
    "(in_done t, in_line t) = edit_all bs (in_done u, in_line u)" "balanced u t" "uart_in t = []"
    using Cons.hyps(1)[OF u(6)[symmetric] u(2,7) n16 u(5) lu] unfolding u(6) by blast
  have "consoleintr_loop (Suc (length (uart_in s))) uartgetc s = Ret () t"
    using u(1) t(1) ui Cons.prems(2) byte_char(2)[of b] by (simp add: uartgetc_def)
  moreover have "edit_all (uart_in s) (in_done s, in_line s) = edit_all bs (in_done u, in_line u)"
    using u(3) ui by (simp add: edit_all_def)
  moreover have "balanced s t" using balanced_trans[OF balanced_trans[OF bal u(4)] t(4)] .
  ultimately show ?case using t by auto
qed

text \<open>C27: The serial interrupt is a line editor.  With no Control-P among them, the characters
  that the serial port holds are all taken, in order: a backspace removes the last character
  of the line under edit and never one of an earlier line, Control-U removes the line, a
  carriage return counts as a line feed, and a line feed, a Control-D or a full buffer
  makes the line available to readers; characters beyond 128 are dropped.  The ring invariant
  holds again afterwards, and the interrupt returns with the locks as they were.\<close>
theorem uartintr_edits:
  fixes s :: "'a nstate_scheme"
  assumes "input_ok s" and "uart_on s" and "16 \<notin> set (uart_in s)" and "screen_ok s"
    and "lock_free L_input s" "lock_free L_ptable s" "cpu_wf s"
  shows "\<exists>t. uartintr s = Ret () t \<and> input_ok t \<and> uart_in t = [] \<and> balanced s t \<and>
     (in_done t, in_line t) = edit_all (uart_in s) (in_done s, in_line s)"
proof -
  let ?s = "lock_taken L_input s"
  have w: "within L_input s ?s" by simp
  have f: "lock_free L_ptable ?s" "cpu_wf ?s" using within_lock_free[OF w] within_cpu(1)[OF w] assms(5-7) by simp_all
  have same: "in_done ?s = in_done s" "in_line ?s = in_line s" "input_ok ?s = input_ok s" "uart_on ?s = uart_on s"
    "uart_in ?s = uart_in s" "screen_ok ?s = screen_ok s"
    by (simp_all add: in_done_def in_line_def input_ok_def screen_ok_def lock_unfolds)
  obtain t where t: "consoleintr_loop (Suc (length (uart_in s))) uartgetc ?s = Ret () t" "input_ok t"
    "(in_done t, in_line t) = edit_all (uart_in s) (in_done s, in_line s)" "balanced ?s t" "uart_in t = []"
    using consoleintr_loop_run[of ?s] f same assms by auto
  have wt: "within L_input s t" using w t(4) by (rule within_trans)
  have "uartintr s = Ret () (lock_dropped L_input t)"
    using t(1) within_release[OF wt assms(7)] by (simp add: uartintr_def consoleintr_def acquire_free[OF assms(5)])
  moreover have "balanced s (lock_dropped L_input t)" by (rule within_balanced[OF wt assms(7,5)])
  moreover have "in_done (lock_dropped L_input t) = in_done t" "in_line (lock_dropped L_input t) = in_line t"
    "input_ok (lock_dropped L_input t) = input_ok t" "uart_in (lock_dropped L_input t) = uart_in t"
    by (simp_all add: in_done_def in_line_def input_ok_def lock_unfolds)
  ultimately show ?thesis using t by auto
qed

definition demo_tty :: nstate where
  "demo_tty = (demo_nstate (\<lambda>_. replicate BSIZE 0))\<lparr>uart_on := True, uart_in := [97, 98, 8, 99, 13, 100]\<rparr>"

theorem uartintr_edits_witness:
  "\<exists>t. uartintr demo_tty = Ret () t \<and> in_done t = [97, 99, 10] \<and> in_line t = [100]"
proof -
  have d: "uart_on demo_tty" "uart_in demo_tty = [97, 98, 8, 99, 13, 100]" "in_done demo_tty = []" "in_line demo_tty = []"
    "length (in_buf demo_tty) = INPUT_BUF" "screen_ok demo_tty"
    by (simp_all add: demo_tty_def demo_nstate_def demo_istate_def demo_lstate_def demo_bufs_def demo_hw_def demo_state_def
        nstate.defs istate.defs lstate.defs dstate.defs hstate.defs pstate.defs in_done_def in_line_def ring_content_def screen_ok_def)
  have "lock_free l demo_tty" "cpu_wf demo_tty" for l
    using demo_bufs_fields(7)[of l] demo_bufs_fields(8)
    by (simp_all add: demo_tty_def demo_nstate_def demo_istate_def demo_lstate_def nstate.defs istate.defs lstate.defs dstate.defs
        lock_free_def cpu_wf_def)
  moreover have "edit_all [97, 98, 8, 99, 13, 100] ([], []) = ([97, 99, 10], [100])"
    by (simp add: edit_all_def edit_char_def INPUT_BUF_def)
  ultimately show ?thesis using uartintr_edits[of demo_tty] d by (auto simp: input_ok_def)
qed

end
