(* ===== verification/Recovery.thy ===== *)
theory Recovery
  imports Log
begin

text \<open>
  What the redo log is for: a transaction is on the disk as a whole or not at all, at
  whatever point between two block writes the machine stops.

  The routines of \<open>log.c\<close> are run on states in which no buffer is locked; they rest on the
  contract of the buffer cache.  The history of block writes that the disk records gives
  the states in which a crash can leave it, and \<open>writes\<close> what the blocks hold there.
\<close>

section \<open>Sequences of block writes\<close>

type_synonym blocks = "key \<Rightarrow> byte list"

fun writes :: "(nat \<times> nat \<times> byte list) list \<Rightarrow> blocks \<Rightarrow> blocks" where
  "writes [] D = D"
| "writes ((d, n, bs) # ws) D = writes ws (D((d, n) := bs))"

lemma writes_append: "writes (xs @ ys) D = writes ys (writes xs D)"
  by (induction xs arbitrary: D) auto

lemma writes_other: "(\<And>bs. (fst q, snd q, bs) \<notin> set ws) \<Longrightarrow> writes ws D q = D q"
proof (induction ws arbitrary: D)
  case (Cons w ws)
  obtain d n bs where w: "w = (d, n, bs)" by (cases w)
  have "(d, n) \<noteq> q" using Cons.prems[of bs] w by auto
  moreover have "writes ws (D((d, n) := bs)) q = (D((d, n) := bs)) q"
    using Cons.prems by (intro Cons.IH) auto
  ultimately show ?case using w by simp
qed simp

lemma writes_map_other:
  "(\<And>i. i \<in> set is \<Longrightarrow> (f i, g i) \<noteq> q) \<Longrightarrow> writes (map (\<lambda>i. (f i, g i, h i)) is) D q = D q"
  by (rule writes_other) (force simp: prod_eq_iff)

lemma writes_map_same:
  "i \<in> set is \<Longrightarrow> inj_on g (set is) \<Longrightarrow> writes (map (\<lambda>i. (d, g i, h i)) is) D (d, g i) = h i"
proof (induction "is" arbitrary: D)
  case (Cons j js)
  show ?case
  proof (cases "i \<in> set js")
    case True
    then show ?thesis using Cons by (simp add: inj_on_def)
  next
    case False
    then have "i = j" using Cons.prems by simp
    moreover have "writes (map (\<lambda>i. (d, g i, h i)) js) (D((d, g j) := h j)) (d, g j) = (D((d, g j) := h j)) (d, g j)"
      using False Cons.prems \<open>i = j\<close> by (intro writes_map_other) (auto simp: inj_on_def)
    ultimately show ?thesis by simp
  qed
qed simp

section \<open>The log area\<close>

text \<open>The state outside the cache and the disk does not change: so the header in memory stays.\<close>

lemma log_fields:
  assumes "disk_frame s t"
  shows "log_start t = log_start s" "log_size t = log_size s" "log_dev t = log_dev s" "lh_n t = lh_n s"
    "lh_block t = lh_block s" "log_outstanding t = log_outstanding s" "log_committing t = log_committing s"
    "lstate.more t = lstate.more s" "lh_count t = lh_count s"
proof -
  have "dstate.more t = dstate.more s" using assms by (simp add: disk_frame_def)
  then show "log_start t = log_start s" "log_size t = log_size s" "log_dev t = log_dev s" "lh_n t = lh_n s"
    "lh_block t = lh_block s" "log_outstanding t = log_outstanding s" "log_committing t = log_committing s"
    "lstate.more t = lstate.more s" by (cases s; cases t; simp)+
  then show "lh_count t = lh_count s" by (simp add: lh_count_def)
qed

text \<open>
  The log area fits on the disk, and the blocks of the header in memory are home blocks:
  on the disk and outside the log.
\<close>

definition log_at :: "u32 \<Rightarrow> nat \<Rightarrow> nat" where
  "log_at st i = unat st + i + 1"

definition home_block :: "u32 \<Rightarrow> u32 \<Rightarrow> bool" where
  "home_block st b \<longleftrightarrow> b < 1000 \<and> (unat b < unat st \<or> unat st + LOGSIZE < unat b)"

definition log_ok :: "'a lstate_scheme \<Rightarrow> bool" where
  "log_ok s \<longleftrightarrow> log_dev s < 2 \<and> unat (log_start s) + LOGSIZE < 1000 \<and> length (lh_block s) = LOGSIZE \<and>
     lh_count s \<le> LOGSIZE \<and> (\<forall>i < lh_count s. home_block (log_start s) (lh_block s ! i))"

lemma log_addr:
  assumes "unat st + LOGSIZE < 1000" and "i < LOGSIZE"
  shows "unat (st + of_nat i + 1 :: u32) = log_at st i" and "st + of_nat i + 1 < 1000" and "st < 1000"
proof -
  have "unat (st + of_nat i + 1) = (unat st + i + 1) mod 2 ^ 32"
    by (simp add: unat_word_ariths unat_of_nat mod_simps)
  moreover have "unat st + i + 1 < 2 ^ 32" using assms by (simp add: LOGSIZE_def)
  ultimately show a: "unat (st + of_nat i + 1 :: u32) = log_at st i" by (simp add: log_at_def)
  show "st + of_nat i + 1 < 1000"
    unfolding word_less_nat_alt a using assms by (simp add: log_at_def LOGSIZE_def)
  show "st < 1000" using assms by (simp add: word_less_nat_alt)
qed

lemma home_not_log: "home_block st b \<Longrightarrow> i < LOGSIZE \<Longrightarrow> unat b \<noteq> log_at st i"
  by (auto simp: home_block_def log_at_def)

section \<open>Copying between the cache and the log\<close>

abbreviation view_of :: "'a dstate_scheme \<Rightarrow> blocks" where
  "view_of s \<equiv> seen (bufs s) (ide s)"

definition log_writes :: "'a lstate_scheme \<Rightarrow> nat list \<Rightarrow> (nat \<times> nat \<times> byte list) list" where
  "log_writes s is = map (\<lambda>i. (unat (log_dev s), log_at (log_start s) i,
     view_of s (unat (log_dev s), unat (lh_block s ! i)))) is"

definition home_writes :: "'a lstate_scheme \<Rightarrow> nat list \<Rightarrow> (nat \<times> nat \<times> byte list) list" where
  "home_writes s is = map (\<lambda>i. (unat (log_dev s), unat (lh_block s ! i),
     view_of s (unat (log_dev s), log_at (log_start s) i))) is"

lemma write_log_run:
  fixes s :: "'a lstate_scheme"
  assumes "bc.idle s" and "log_ok s" and "tail + n \<le> lh_count s" and "card (pinned (bufs s)) < NBUF"
    and "\<And>i. i < lh_count s \<Longrightarrow> (unat (log_dev s), unat (lh_block s ! i)) \<in> pinned (bufs s)"
    and "\<And>i. i < LOGSIZE \<Longrightarrow> (unat (log_dev s), log_at (log_start s) i) \<notin> pinned (bufs s)"
  shows "\<exists>t. write_log_loop n tail s = Ret () t \<and> bc.idle t \<and> disk_frame s t \<and>
     pinned (bufs t) = pinned (bufs s) \<and> view_of t = writes (log_writes s [tail..<tail + n]) (view_of s) \<and>
     on_disk (ide t) = writes (log_writes s [tail..<tail + n]) (on_disk (ide s)) \<and>
     ide_hist (ide t) = ide_hist (ide s) @ log_writes s [tail..<tail + n]"
  using assms
proof (induction n arbitrary: tail s)
  case 0
  then show ?case by (simp add: log_writes_def disk_frame_def)
next
  case (Suc n)
  let ?dev = "log_dev s" and ?a = "log_start s + of_nat tail + 1" and ?c = "lh_block s ! tail"
  have lok: "?dev < 2" "unat (log_start s) + LOGSIZE < 1000" and tl: "tail < LOGSIZE" "tail < lh_count s"
    and home: "home_block (log_start s) ?c"
    using Suc.prems(2,3) by (simp_all add: log_ok_def)
  note ad = log_addr[OF lok(2) tl(1)]
  have c: "?c < 1000" "?a \<noteq> ?c"
    using home home_not_log[OF home tl(1)] ad(1) by (auto simp: home_block_def)
  obtain d s1 e s2 s3 s4 t1 where st: "bread ?dev ?a s = Ret d s1" "disk_frame s s1" "bread ?dev ?c s1 = Ret e s2"
    "disk_frame s s2" "bwrite d (upd_buf d (\<lambda>k. k\<lparr>b_data := b_data (bufs s2 ! e)\<rparr>) s2) = Ret () s3"
    "brelse e s3 = Ret () s4" "brelse d s4 = Ret () t1" "bc.idle t1"
    "view_of t1 = (view_of s)((unat ?dev, unat ?a) := view_of s (unat ?dev, unat ?c))"
    "on_disk (ide t1) = (on_disk (ide s))((unat ?dev, unat ?a) := view_of s (unat ?dev, unat ?c))"
    "pinned (bufs t1) = pinned (bufs s) - {(unat ?dev, unat ?a)}"
    "ide_hist (ide t1) = ide_hist (ide s) @ [(unat ?dev, unat ?a, view_of s (unat ?dev, unat ?c))]" "disk_frame s t1"
    by (rule bc.copy_block[OF Suc.prems(1) lok(1) ad(2) c Suc.prems(4) disjI1[OF Suc.prems(5)[OF tl(2)]]]) (rule that)
  note f1 = log_fields[OF st(2)] and f2 = log_fields[OF st(4)] and ft = log_fields[OF st(13)]
  have pin: "pinned (bufs t1) = pinned (bufs s)" using st(11) Suc.prems(6)[OF tl(1)] ad(1) by simp
  have lt: "log_ok t1" using Suc.prems(2) ft by (simp add: log_ok_def)
  have view: "view_of t1 (unat ?dev, unat (lh_block s ! i)) = view_of s (unat ?dev, unat (lh_block s ! i))"
    if "i < lh_count s" for i
    using home_not_log[of "log_start s" "lh_block s ! i", OF _ tl(1)] Suc.prems(2) that ad(1) st(9)
    by (auto simp: log_ok_def)
  have lw: "log_writes t1 [Suc tail..<Suc tail + n] = log_writes s [Suc tail..<Suc tail + n]"
    using Suc.prems(3) by (auto simp: log_writes_def ft view)
  have lw': "log_writes s [tail..<tail + Suc n] =
      (unat ?dev, unat ?a, view_of s (unat ?dev, unat ?c)) # log_writes s [Suc tail..<Suc tail + n]"
    by (simp add: log_writes_def upt_conv_Cons ad(1) del: upt_Suc)
  obtain t where t: "write_log_loop n (Suc tail) t1 = Ret () t" "bc.idle t" "disk_frame t1 t"
    "pinned (bufs t) = pinned (bufs t1)"
    "view_of t = writes (log_writes t1 [Suc tail..<Suc tail + n]) (view_of t1)"
    "on_disk (ide t) = writes (log_writes t1 [Suc tail..<Suc tail + n]) (on_disk (ide t1))"
    "ide_hist (ide t) = ide_hist (ide t1) @ log_writes t1 [Suc tail..<Suc tail + n]"
    using Suc.IH[OF st(8) lt, of "Suc tail"] Suc.prems ft pin by auto
  have "write_log_loop (Suc n) tail s = Ret () t"
    using st t(1) tl(1) f1 f2 by (simp add: copy_buf_def)
  moreover have "disk_frame s t" using st(13) t(3) by (rule bc.kept_trans)
  ultimately show ?case using t pin st lw lw' by simp
qed

lemma install_run:
  fixes s :: "'a lstate_scheme"
  assumes "bc.idle s" and "log_ok s" and "tail + n \<le> lh_count s" and "card (pinned (bufs s)) < NBUF"
    and "n = 0 \<or> (unat (log_dev s), unat (lh_block s ! tail)) \<in> pinned (bufs s) \<or> card (pinned (bufs s)) < NBUF - 1"
  shows "\<exists>t. install_loop n tail s = Ret () t \<and> bc.idle t \<and> disk_frame s t \<and>
     pinned (bufs t) = pinned (bufs s) - (\<lambda>i. (unat (log_dev s), unat (lh_block s ! i))) ` {tail..<tail + n} \<and>
     view_of t = writes (home_writes s [tail..<tail + n]) (view_of s) \<and>
     on_disk (ide t) = writes (home_writes s [tail..<tail + n]) (on_disk (ide s)) \<and>
     ide_hist (ide t) = ide_hist (ide s) @ home_writes s [tail..<tail + n]"
  using assms
proof (induction n arbitrary: tail s)
  case 0
  then show ?case by (simp add: home_writes_def disk_frame_def)
next
  case (Suc n)
  let ?dev = "log_dev s" and ?c = "log_start s + of_nat tail + 1" and ?a = "lh_block s ! tail"
  have lok: "?dev < 2" "unat (log_start s) + LOGSIZE < 1000" and tl: "tail < LOGSIZE" "tail < lh_count s"
    and home: "home_block (log_start s) ?a"
    using Suc.prems(2,3) by (simp_all add: log_ok_def)
  note ad = log_addr[OF lok(2) tl(1)]
  have a: "?a < 1000" "?c \<noteq> ?a"
    using home home_not_log[OF home tl(1)] ad(1) by (auto simp: home_block_def)
  have room2: "(unat ?dev, unat ?a) \<in> pinned (bufs s) \<or> card (pinned (bufs s)) < NBUF - 1"
    using Suc.prems(5) by simp
  obtain e s1 d s2 s3 s4 t1 where st: "bread ?dev ?c s = Ret e s1" "disk_frame s s1" "bread ?dev ?a s1 = Ret d s2"
    "disk_frame s s2" "bwrite d (upd_buf d (\<lambda>k. k\<lparr>b_data := b_data (bufs s2 ! e)\<rparr>) s2) = Ret () s3"
    "brelse e s3 = Ret () s4" "brelse d s4 = Ret () t1" "bc.idle t1"
    "view_of t1 = (view_of s)((unat ?dev, unat ?a) := view_of s (unat ?dev, unat ?c))"
    "on_disk (ide t1) = (on_disk (ide s))((unat ?dev, unat ?a) := view_of s (unat ?dev, unat ?c))"
    "pinned (bufs t1) = pinned (bufs s) - {(unat ?dev, unat ?a)}"
    "ide_hist (ide t1) = ide_hist (ide s) @ [(unat ?dev, unat ?a, view_of s (unat ?dev, unat ?c))]" "disk_frame s t1"
    by (rule bc.copy_block_back[OF Suc.prems(1) lok(1) ad(2) a Suc.prems(4) room2]) (rule that)
  note f1 = log_fields[OF st(2)] and f2 = log_fields[OF st(4)] and ft = log_fields[OF st(13)]
  have fin: "finite (pinned (bufs s))" using Suc.prems(1) by (simp add: bc.idle_def)
  have card: "card (pinned (bufs t1)) < NBUF - 1"
    using Suc.prems(4) room2 fin by (auto simp: st(11) card_Diff_singleton_if NBUF_def)
  then have card': "card (pinned (bufs t1)) < NBUF" by simp
  have lt: "log_ok t1" using Suc.prems(2) ft by (simp add: log_ok_def)
  have view: "view_of t1 (unat ?dev, log_at (log_start s) i) = view_of s (unat ?dev, log_at (log_start s) i)"
    if "i < LOGSIZE" for i
    using home_not_log[OF home that] st(9) by auto
  have cnt: "lh_count s \<le> LOGSIZE" using Suc.prems(2) by (simp add: log_ok_def)
  have hw: "home_writes t1 [Suc tail..<Suc tail + n] = home_writes s [Suc tail..<Suc tail + n]"
    using Suc.prems(3) cnt by (auto simp: home_writes_def ft view)
  have hw': "home_writes s [tail..<tail + Suc n] =
      (unat ?dev, unat ?a, view_of s (unat ?dev, unat ?c)) # home_writes s [Suc tail..<Suc tail + n]"
    by (simp add: home_writes_def upt_conv_Cons ad(1) del: upt_Suc)
  obtain t where t: "install_loop n (Suc tail) t1 = Ret () t" "bc.idle t" "disk_frame t1 t"
    "pinned (bufs t) = pinned (bufs t1) - (\<lambda>i. (unat ?dev, unat (lh_block s ! i))) ` {Suc tail..<Suc tail + n}"
    "view_of t = writes (home_writes t1 [Suc tail..<Suc tail + n]) (view_of t1)"
    "on_disk (ide t) = writes (home_writes t1 [Suc tail..<Suc tail + n]) (on_disk (ide t1))"
    "ide_hist (ide t) = ide_hist (ide t1) @ home_writes t1 [Suc tail..<Suc tail + n]"
    using Suc.IH[OF st(8) lt, of "Suc tail"] Suc.prems(3) card card' unfolding ft by auto
  have "install_loop (Suc n) tail s = Ret () t"
    using st t(1) tl(1) f1 f2 by (simp add: copy_buf_def)
  moreover have "disk_frame s t" using st(13) t(3) by (rule bc.kept_trans)
  moreover have "{tail..<tail + Suc n} = insert tail {Suc tail..<Suc tail + n}" by auto
  then have "pinned (bufs t) = pinned (bufs s) - (\<lambda>i. (unat ?dev, unat (lh_block s ! i))) ` {tail..<tail + Suc n}"
    unfolding t(4) st(11) by auto
  ultimately show ?case using t(1-3,5-7) st(9,10,12) hw hw' by simp
qed

section \<open>The header\<close>

definition head_put :: "u32 \<Rightarrow> u32 list \<Rightarrow> byte list \<Rightarrow> byte list" where
  "head_put n bl bs = blit bs 0 (head_bytes n bl)"

lemma length_head_put: "length bl \<le> LOGSIZE \<Longrightarrow> length bs = BSIZE \<Longrightarrow> length (head_put n bl bs) = BSIZE"
  by (simp add: head_put_def head_bytes_def LOGSIZE_def BSIZE_def)

lemma head_round_trip:
  assumes "length bl \<le> LOGSIZE" and "length bs = BSIZE"
  shows "get32 (head_put n bl bs) 0 = n" and "head_blocks (length bl) (head_put n bl bs) = bl"
proof -
  have hp: "head_put n bl bs = bytes32 n @ concat (map bytes32 bl) @ drop (4 + 4 * length bl) bs"
    by (simp add: head_put_def head_bytes_def blit_def)
  show "get32 (head_put n bl bs) 0 = n" using get32_at[of "[]" 0 n] by (simp add: hp)
  have "get32 (head_put n bl bs) (4 + 4 * i) = bl ! i" if "i < length bl" for i
    using get32_concat[OF that, of "bytes32 n" 4] by (simp add: hp)
  then show "head_blocks (length bl) (head_put n bl bs) = bl"
    by (intro nth_equalityI) (simp_all add: head_blocks_def)
qed

abbreviation head_key :: "'a lstate_scheme \<Rightarrow> key" where
  "head_key s \<equiv> (unat (log_dev s), unat (log_start s))"

definition head_block :: "'a lstate_scheme \<Rightarrow> byte list" where
  "head_block s = head_put (lh_n s) (take (lh_count s) (lh_block s)) (view_of s (head_key s))"

lemma write_head_run:
  fixes s :: "'a lstate_scheme"
  assumes idle: "bc.idle s" and ok: "log_ok s" and room: "card (pinned (bufs s)) < NBUF"
  shows "\<exists>t. write_head s = Ret () t \<and> bc.idle t \<and> disk_frame s t \<and>
     pinned (bufs t) = pinned (bufs s) - {head_key s} \<and>
     view_of t = (view_of s)(head_key s := head_block s) \<and>
     on_disk (ide t) = (on_disk (ide s))(head_key s := head_block s) \<and>
     ide_hist (ide t) = ide_hist (ide s) @ [(unat (log_dev s), unat (log_start s), head_block s)]"
proof -
  let ?f = "head_put (lh_n s) (take (lh_count s) (lh_block s))"
  have lok: "log_dev s < 2" "unat (log_start s) + LOGSIZE < 1000" "lh_count s \<le> LOGSIZE" "length (lh_block s) = LOGSIZE"
    using ok by (simp_all add: log_ok_def)
  have st: "log_start s < 1000" using log_addr(3)[OF lok(2), of 0] by (simp add: LOGSIZE_def)
  have len: "length (?f bs) = BSIZE" if "length bs = BSIZE" for bs
    using that lok by (intro length_head_put) simp_all
  obtain b s1 s2 t where r: "bread (log_dev s) (log_start s) s = Ret b s1" "disk_frame s s1"
    "bwrite b (upd_buf b (\<lambda>k. k\<lparr>b_data := ?f (b_data (bufs s1 ! b))\<rparr>) s1) = Ret () s2" "brelse b s2 = Ret () t"
    "bc.idle t" "view_of t = (view_of s)(head_key s := ?f (view_of s (head_key s)))"
    "on_disk (ide t) = (on_disk (ide s))(head_key s := ?f (view_of s (head_key s)))"
    "pinned (bufs t) = pinned (bufs s) - {head_key s}"
    "ide_hist (ide t) = ide_hist (ide s) @ [(unat (log_dev s), unat (log_start s), ?f (view_of s (head_key s)))]"
    "disk_frame s t"
    by (rule bc.rewrite[where f = ?f, OF idle room lok(1) st]) (erule len, rule that)
  note f1 = log_fields[OF r(2)]
  have "upd_buf b (\<lambda>k. k\<lparr>b_data := blit (b_data k) 0 (head_bytes (lh_n s) (take (lh_count s) (lh_block s)))\<rparr>) s1 =
      upd_buf b (\<lambda>k. k\<lparr>b_data := ?f (b_data (bufs s1 ! b))\<rparr>) s1"
    by (simp add: upd_buf_def head_put_def)
  then have "write_head s = Ret () t" using r f1 lok(3) by (simp add: write_head_def)
  then show ?thesis using r by (auto simp: head_block_def)
qed

text \<open>Changes of the header in memory do not touch the cache.\<close>

lemma bc_lstate [simp]:
  "bc_inv (s\<lparr>lh_n := n\<rparr>) = bc_inv s" "bc_inv (s\<lparr>lh_block := bl\<rparr>) = bc_inv s"
  "bc.idle (s\<lparr>lh_n := n\<rparr>) = bc.idle s" "bc.idle (s\<lparr>lh_block := bl\<rparr>) = bc.idle s"
  for s :: "'a lstate_scheme"
  by (simp_all add: bc_inv_def bc.idle_def bc_ready_def lock_free_def cpu_wf_def ide_ready_def)

lemma disk_frame_lh_n:
  assumes "disk_frame s t"
  shows "disk_frame (s\<lparr>lh_n := n\<rparr>) (t\<lparr>lh_n := n\<rparr>)"
proof -
  have "balanced (s\<lparr>lh_n := n\<rparr>) (t\<lparr>lh_n := n\<rparr>) = balanced s t"
    by (simp add: balanced_def lock_free_def)
  moreover have "dstate.more t = dstate.more s" using assms by (simp add: disk_frame_def)
  then have "dstate.more (t\<lparr>lh_n := n\<rparr>) = dstate.more (s\<lparr>lh_n := n\<rparr>)" by (cases s; cases t) simp
  ultimately show ?thesis using assms by (simp add: disk_frame_def)
qed

section \<open>Commit\<close>

text \<open>The block writes of a commit: the log, the header, the home blocks, the empty header.\<close>

definition commit_writes :: "'a lstate_scheme \<Rightarrow> byte list \<Rightarrow> (nat \<times> nat \<times> byte list) list" where
  "commit_writes s z = log_writes s [0..<lh_count s] @ [(unat (log_dev s), unat (log_start s), head_block s)] @
     map (\<lambda>i. (unat (log_dev s), unat (lh_block s ! i), view_of s (unat (log_dev s), unat (lh_block s ! i))))
       [0..<lh_count s] @ [(unat (log_dev s), unat (log_start s), z)]"

text \<open>
  A transaction ready to commit: the header in memory lists distinct home blocks, these
  are the pinned blocks of the cache, one buffer at least is left for the log, and the
  header on the disk is empty.
\<close>

definition tx_ready :: "'a lstate_scheme \<Rightarrow> bool" where
  "tx_ready s \<longleftrightarrow> bc_inv s \<and> held (bufs s) = Map.empty \<and> log_ok s \<and> 0 < lh_count s \<and> lh_count s < NBUF \<and>
     distinct (take (lh_count s) (lh_block s)) \<and>
     pinned (bufs s) = (\<lambda>b. (unat (log_dev s), unat b)) ` set (take (lh_count s) (lh_block s)) \<and>
     get32 (on_disk (ide s) (head_key s)) 0 = 0"

lemma tx_ready_facts:
  assumes "tx_ready s"
  shows "bc.idle s" "log_ok s" "card (pinned (bufs s)) < NBUF"
    "\<And>i. i < lh_count s \<Longrightarrow> (unat (log_dev s), unat (lh_block s ! i)) \<in> pinned (bufs s)"
    "\<And>i. i < LOGSIZE \<Longrightarrow> (unat (log_dev s), log_at (log_start s) i) \<notin> pinned (bufs s)"
    "head_key s \<notin> pinned (bufs s)"
    "inj_on (\<lambda>i. unat (lh_block s ! i)) {..<lh_count s}"
    "pinned (bufs s) = (\<lambda>i. (unat (log_dev s), unat (lh_block s ! i))) ` {..<lh_count s}"
proof -
  let ?bl = "take (lh_count s) (lh_block s)"
  have tx: "bc_inv s" "held (bufs s) = Map.empty" "lh_count s < NBUF" "distinct ?bl"
    "pinned (bufs s) = (\<lambda>b. (unat (log_dev s), unat b)) ` set ?bl"
    using assms by (simp_all add: tx_ready_def)
  show ok: "log_ok s" using assms by (simp add: tx_ready_def)
  then have len: "length ?bl = lh_count s" and cnt: "lh_count s \<le> length (lh_block s)"
    by (simp_all add: log_ok_def)
  have fin: "finite (pinned (bufs s))" using tx(5) by simp
  then show "bc.idle s" using tx by (simp add: bc.idle_def)
  have "card (pinned (bufs s)) \<le> length ?bl"
    unfolding tx(5) by (rule order_trans[OF card_image_le card_length]) simp
  then show "card (pinned (bufs s)) < NBUF" using tx(3) len by simp
  have st: "set ?bl = (\<lambda>i. lh_block s ! i) ` {..<lh_count s}"
    using nth_image[OF cnt] by (simp add: atLeast0LessThan)
  show pin: "pinned (bufs s) = (\<lambda>i. (unat (log_dev s), unat (lh_block s ! i))) ` {..<lh_count s}"
    unfolding tx(5) st by (simp add: image_image)
  then show "(unat (log_dev s), unat (lh_block s ! i)) \<in> pinned (bufs s)" if "i < lh_count s" for i
    using that by auto
  have home: "home_block (log_start s) (lh_block s ! i)" if "i < lh_count s" for i
    using ok that by (simp add: log_ok_def)
  show "(unat (log_dev s), log_at (log_start s) i) \<notin> pinned (bufs s)" if "i < LOGSIZE" for i
  proof -
    have "\<forall>j < lh_count s. unat (lh_block s ! j) \<noteq> log_at (log_start s) i" using home_not_log[OF home that] by blast
    then show ?thesis unfolding pin by auto
  qed
  have "\<forall>j < lh_count s. unat (lh_block s ! j) \<noteq> unat (log_start s)" using home by (fastforce simp: home_block_def)
  then show "head_key s \<notin> pinned (bufs s)" unfolding pin by auto
  show "inj_on (\<lambda>i. unat (lh_block s ! i)) {..<lh_count s}"
    using tx(4) cnt by (auto simp: inj_on_def distinct_conv_nth word_unat_eq_iff[symmetric])
qed

lemma view_length:
  assumes "bc.idle s" and "fst q < 2" and "snd q < 1000"
  shows "length (view_of s q) = BSIZE"
  using assms by (auto simp: bc.idle_def intro: bc.sees_length)

lemma empty_header:
  fixes s :: "'a lstate_scheme"
  assumes idle: "bc.idle s" and ok: "log_ok s" and room: "card (pinned (bufs s)) < NBUF"
  shows "\<exists>t z. write_head (s\<lparr>lh_n := 0\<rparr>) = Ret () t \<and> bc.idle t \<and> pinned (bufs t) = pinned (bufs s) - {head_key s} \<and>
     lh_n t = 0 \<and> log_ok t \<and> disk_frame (s\<lparr>lh_n := 0\<rparr>) t \<and> log_dev t = log_dev s \<and> log_start t = log_start s \<and>
     length z = BSIZE \<and> get32 z 0 = 0 \<and> view_of t = (view_of s)(head_key s := z) \<and>
     on_disk (ide t) = (on_disk (ide s))(head_key s := z) \<and>
     ide_hist (ide t) = ide_hist (ide s) @ [(unat (log_dev s), unat (log_start s), z)]"
proof -
  let ?s = "s\<lparr>lh_n := 0\<rparr>" and ?z = "head_block (s\<lparr>lh_n := 0\<rparr>)"
  have c0: "lh_count ?s = 0" by (simp add: lh_count_def)
  then have ok': "log_ok ?s" using ok by (simp add: log_ok_def)
  obtain t where t: "write_head ?s = Ret () t" "bc.idle t" "disk_frame ?s t" "pinned (bufs t) = pinned (bufs s) - {head_key s}"
    "view_of t = (view_of s)(head_key s := ?z)" "on_disk (ide t) = (on_disk (ide s))(head_key s := ?z)"
    "ide_hist (ide t) = ide_hist (ide s) @ [(unat (log_dev s), unat (log_start s), ?z)]"
    using write_head_run[of ?s] idle ok' room by auto
  note ft = log_fields[OF t(3)]
  have "log_dev s < 2" "unat (log_start s) + LOGSIZE < 1000" using ok by (simp_all add: log_ok_def)
  then have len: "length (view_of s (head_key s)) = BSIZE"
    by (intro view_length[OF idle]) (simp_all add: word_less_nat_alt)
  have "?z = head_put 0 [] (view_of s (head_key s))" by (simp add: head_block_def c0)
  then have "length ?z = BSIZE" "get32 ?z 0 = 0"
    using length_head_put[of "[]"] head_round_trip(1)[of "[]"] len by simp_all
  moreover have "log_ok t" using ok' ft by (simp add: log_ok_def)
  ultimately show ?thesis using t ft by auto
qed

lemma commit_run:
  fixes s :: "'a lstate_scheme"
  assumes tx: "tx_ready s"
  shows "\<exists>t z. commit s = Ret () t \<and> bc.idle t \<and> pinned (bufs t) = {} \<and> lh_n t = 0 \<and>
     disk_frame (s\<lparr>lh_n := 0\<rparr>) t \<and> length z = BSIZE \<and> get32 z 0 = 0 \<and>
     on_disk (ide t) = writes (commit_writes s z) (on_disk (ide s)) \<and>
     ide_hist (ide t) = ide_hist (ide s) @ commit_writes s z"
proof -
  note f = tx_ready_facts[OF tx]
  let ?n = "lh_count s" and ?dev = "unat (log_dev s)"
  have n: "slt 0 (lh_n s)" using tx by (auto simp: tx_ready_def lh_count_def slt_def)
  have cnt: "?n \<le> LOGSIZE" using f(2) by (simp add: log_ok_def)
  obtain t1 where t1: "write_log_loop ?n 0 s = Ret () t1" "bc.idle t1" "disk_frame s t1" "pinned (bufs t1) = pinned (bufs s)"
    "view_of t1 = writes (log_writes s [0..<?n]) (view_of s)"
    "on_disk (ide t1) = writes (log_writes s [0..<?n]) (on_disk (ide s))"
    "ide_hist (ide t1) = ide_hist (ide s) @ log_writes s [0..<?n]"
    using write_log_run[OF f(1,2) _ f(3-5), of 0 ?n] by auto
  note f1 = log_fields[OF t1(3)]
  have ok1: "log_ok t1" using f(2) f1 by (simp add: log_ok_def)
  have "head_block t1 = head_block s"
    unfolding head_block_def f1 t1(5) log_writes_def
    by (subst writes_map_other) (auto simp: log_at_def)
  then obtain t2 where t2: "write_head t1 = Ret () t2" "bc.idle t2" "disk_frame t1 t2"
    "pinned (bufs t2) = pinned (bufs s)" "view_of t2 = (view_of t1)(head_key s := head_block s)"
    "on_disk (ide t2) = (on_disk (ide t1))(head_key s := head_block s)"
    "ide_hist (ide t2) = ide_hist (ide t1) @ [(?dev, unat (log_start s), head_block s)]"
    using write_head_run[OF t1(2) ok1] f(3,6) f1 t1(4) by auto
  note f2 = log_fields[OF t2(3), unfolded f1]
  have ok2: "log_ok t2" using f(2) f2 by (simp add: log_ok_def)
  have val: "view_of t2 (?dev, log_at (log_start s) i) = view_of s (?dev, unat (lh_block s ! i))" if "i < ?n" for i
  proof -
    have "view_of t2 (?dev, log_at (log_start s) i) = writes (log_writes s [0..<?n]) (view_of s) (?dev, log_at (log_start s) i)"
      unfolding t2(5) t1(5) by (simp add: log_at_def)
    also have "\<dots> = view_of s (?dev, unat (lh_block s ! i))"
      unfolding log_writes_def by (rule writes_map_same) (use that in \<open>auto simp: inj_on_def log_at_def\<close>)
    finally show ?thesis .
  qed
  have hw: "home_writes t2 [0..<?n] = map (\<lambda>i. (?dev, unat (lh_block s ! i), view_of s (?dev, unat (lh_block s ! i)))) [0..<?n]"
    by (auto simp: home_writes_def f2 val)
  have "?n > 0" using tx by (simp add: tx_ready_def)
  then have "(?dev, unat (lh_block s ! 0)) \<in> pinned (bufs t2)" using f(4) t2(4) by simp
  then obtain t3 where t3: "install_loop ?n 0 t2 = Ret () t3" "bc.idle t3" "disk_frame t2 t3" "pinned (bufs t3) = {}"
    "on_disk (ide t3) = writes (home_writes t2 [0..<?n]) (on_disk (ide t2))"
    "ide_hist (ide t3) = ide_hist (ide t2) @ home_writes t2 [0..<?n]"
    using install_run[OF t2(2) ok2, of 0 ?n] f(3,8) f2 t2(4) by (auto simp: atLeast0LessThan)
  note f3 = log_fields[OF t3(3), unfolded f2]
  have ok3: "log_ok t3" using f(2) f3 by (simp add: log_ok_def)
  obtain t z where t: "write_head (t3\<lparr>lh_n := 0\<rparr>) = Ret () t" "bc.idle t" "pinned (bufs t) = {}" "lh_n t = 0"
    "length z = BSIZE" "get32 z 0 = 0" "on_disk (ide t) = (on_disk (ide t3))(head_key s := z)"
    "ide_hist (ide t) = ide_hist (ide t3) @ [(?dev, unat (log_start s), z)]" "disk_frame (t3\<lparr>lh_n := 0\<rparr>) t"
    using empty_header[OF t3(2) ok3] t3(4) f3 by (auto simp: NBUF_def)
  have "disk_frame s t3" using t1(3) t2(3) t3(3) by (blast intro: bc.kept_trans)
  then have "disk_frame (s\<lparr>lh_n := 0\<rparr>) t" using t(9) by (blast intro: bc.kept_trans disk_frame_lh_n)
  moreover have "commit s = Ret () t"
    using n t1(1) t2(1) t3(1) t(1) f2 by (simp add: commit_def write_log_def install_trans_def)
  moreover have "on_disk (ide t) = writes (commit_writes s z) (on_disk (ide s))"
    by (simp add: t(7) t3(5) t2(6) t1(6) commit_writes_def writes_append hw)
  moreover have "ide_hist (ide t) = ide_hist (ide s) @ commit_writes s z"
    by (simp add: t(8) t3(6) t2(7) t1(7) commit_writes_def hw)
  ultimately show ?thesis using t by blast
qed

section \<open>Recovery\<close>

text \<open>A machine that has just been started: nothing is cached, and the disk has the blocks \<open>D\<close>.\<close>

definition rebooted :: "'a lstate_scheme \<Rightarrow> blocks \<Rightarrow> 'b lstate_scheme \<Rightarrow> bool" where
  "rebooted s D u \<longleftrightarrow> bc_inv u \<and> held (bufs u) = Map.empty \<and> pinned (bufs u) = {} \<and>
     log_dev u = log_dev s \<and> log_start u = log_start s \<and> length (lh_block u) = LOGSIZE \<and> on_disk (ide u) = D"

lemma read_head_run:
  fixes u :: "'a lstate_scheme"
  assumes idle: "bc.idle u" and room: "card (pinned (bufs u)) < NBUF" and dev: "log_dev u < 2" "log_start u < 1000"
    and bs: "bs = view_of u (head_key u)" and n: "n = nat (sint (get32 bs 0))" "n \<le> LOGSIZE"
  shows "\<exists>v. read_head u = Ret () v \<and> bc.idle v \<and> pinned (bufs v) = pinned (bufs u) \<and> view_of v = view_of u \<and>
     on_disk (ide v) = on_disk (ide u) \<and> ide_hist (ide v) = ide_hist (ide u) \<and> log_dev v = log_dev u \<and>
     log_start v = log_start u \<and> lh_n v = get32 bs 0 \<and> lh_block v = head_blocks n bs @ drop n (lh_block u)"
proof -
  have inv: "bc_inv u" and h: "held (bufs u) = Map.empty" and fin: "finite (pinned (bufs u))"
    using idle by (simp_all add: bc.idle_def)
  obtain b s1 where s1: "bread (log_dev u) (log_start u) u = Ret b s1" "bc_inv s1" "held (bufs s1) = [b \<mapsto> head_key u]"
    "view_of s1 = view_of u" "on_disk (ide s1) = on_disk (ide u)" "pinned (bufs s1) = pinned (bufs u)"
    "ide_hist (ide s1) = ide_hist (ide u)" "disk_frame u s1"
    using bc.rd_law[OF inv dev] room h by auto
  note f1 = log_fields[OF s1(8)]
  have data: "b_data (bufs s1 ! b) = bs" using bc.get_sees[OF s1(2), of b "head_key u"] s1(3,4) bs by simp
  let ?s2 = "s1\<lparr>lh_n := get32 bs 0, lh_block := head_blocks n bs @ drop n (lh_block u)\<rparr>"
  have cnt: "lh_count (s1\<lparr>lh_n := get32 bs 0\<rparr>) = n" using n(1) by (simp add: lh_count_def)
  have "head_key u \<in> pinned (bufs ?s2) \<or> view_of ?s2 (head_key u) = on_disk (ide ?s2) (head_key u)"
    using bc.idle_clean[OF inv, of "head_key u"] h by (auto simp: s1)
  then obtain v where v: "brelse b ?s2 = Ret () v" "bc_inv v" "held (bufs v) = Map.empty" "view_of v = view_of u"
    "on_disk (ide v) = on_disk (ide u)" "pinned (bufs v) = pinned (bufs u)" "ide_hist (ide v) = ide_hist (ide u)"
    "disk_frame ?s2 v"
    using bc.rel_law[of ?s2 b "head_key u"] s1 by auto
  note fv = log_fields[OF v(8)]
  have "read_head u = Ret () v"
    using s1(1) data cnt n(2) v(1) f1 by (simp add: read_head_def Let_def)
  then show ?thesis using v fv f1 fin by (auto simp: bc.idle_def)
qed

lemma recover_run:
  fixes u :: "'a lstate_scheme"
  assumes idle: "bc.idle u" and clean: "pinned (bufs u) = {}" and dev: "log_dev u < 2"
    and area: "unat (log_start u) + LOGSIZE < 1000" and len: "length (lh_block u) = LOGSIZE"
    and bs: "bs = on_disk (ide u) (head_key u)" and n: "n = nat (sint (get32 bs 0))" "n \<le> LOGSIZE"
    and home: "\<And>i. i < n \<Longrightarrow> home_block (log_start u) (head_blocks n bs ! i)"
  shows "\<exists>v z. recover_from_log u = Ret () v \<and> bc.idle v \<and> pinned (bufs v) = {} \<and> length z = BSIZE \<and> get32 z 0 = 0 \<and>
     on_disk (ide v) = writes (map (\<lambda>i. (unat (log_dev u), unat (head_blocks n bs ! i),
        on_disk (ide u) (unat (log_dev u), log_at (log_start u) i))) [0..<n] @
        [(unat (log_dev u), unat (log_start u), z)]) (on_disk (ide u))"
proof -
  have st: "log_start u < 1000" using area by (simp add: word_less_nat_alt)
  have room: "card (pinned (bufs u)) < NBUF" using clean by (simp add: NBUF_def)
  have vd: "view_of u = on_disk (ide u)"
  proof
    fix q
    have "bc_inv u" "q \<notin> ran (held (bufs u))" using idle by (simp_all add: bc.idle_def)
    then show "view_of u q = on_disk (ide u) q" using bc.idle_clean[of u q] clean by simp
  qed
  obtain v1 where v1: "read_head u = Ret () v1" "bc.idle v1" "pinned (bufs v1) = {}" "view_of v1 = on_disk (ide u)"
    "on_disk (ide v1) = on_disk (ide u)" "log_dev v1 = log_dev u" "log_start v1 = log_start u"
    "lh_n v1 = get32 bs 0" "lh_block v1 = head_blocks n bs @ drop n (lh_block u)"
    using read_head_run[OF idle room dev st, of bs n] bs n vd clean by auto
  have hl: "length (head_blocks n bs) = n" by (simp add: head_blocks_def)
  have c1: "lh_count v1 = n" using n(1) v1(8) by (simp add: lh_count_def)
  have blk: "lh_block v1 ! i = head_blocks n bs ! i" if "i < n" for i using v1(9) hl that by (simp add: nth_append)
  have ok1: "log_ok v1" using dev area len n(2) home hl v1 c1 blk by (auto simp: log_ok_def)
  obtain v2 where v2: "install_loop n 0 v1 = Ret () v2" "bc.idle v2" "disk_frame v1 v2" "pinned (bufs v2) = {}"
    "on_disk (ide v2) = writes (home_writes v1 [0..<n]) (on_disk (ide u))"
    using install_run[OF v1(2) ok1, of 0 n] c1 v1(3,5) by (auto simp: NBUF_def)
  note f2 = log_fields[OF v2(3)]
  have ok2: "log_ok v2" using ok1 f2 by (simp add: log_ok_def)
  obtain v z where v: "write_head (v2\<lparr>lh_n := 0\<rparr>) = Ret () v" "bc.idle v" "pinned (bufs v) = {}"
    "length z = BSIZE" "get32 z 0 = 0" "on_disk (ide v) = (on_disk (ide v2))(head_key u := z)"
    using empty_header[OF v2(2) ok2] v2(4) f2 v1(6,7) by (auto simp: NBUF_def)
  have "home_writes v1 [0..<n] = map (\<lambda>i. (unat (log_dev u), unat (head_blocks n bs ! i),
      on_disk (ide u) (unat (log_dev u), log_at (log_start u) i))) [0..<n]"
    by (auto simp: home_writes_def v1(4,6,7) blk)
  then have "on_disk (ide v) = writes (map (\<lambda>i. (unat (log_dev u), unat (head_blocks n bs ! i),
        on_disk (ide u) (unat (log_dev u), log_at (log_start u) i))) [0..<n] @
        [(unat (log_dev u), unat (log_start u), z)]) (on_disk (ide u))"
    by (simp add: v(6) v2(5) writes_append)
  moreover have "recover_from_log u = Ret () v"
    using v1(1) c1 v2(1) v(1) by (simp add: recover_from_log_def install_trans_def)
  ultimately show ?thesis using v by blast
qed

section \<open>Atomicity\<close>

text \<open>The blocks of the file system proper: all that are not in the log area.\<close>

definition data_block :: "'a lstate_scheme \<Rightarrow> key \<Rightarrow> bool" where
  "data_block s q \<longleftrightarrow> \<not> (fst q = unat (log_dev s) \<and> unat (log_start s) \<le> snd q \<and>
     snd q \<le> unat (log_start s) + LOGSIZE)"

text \<open>The disk after some of the writes of a commit, in the three stages it goes through.\<close>

lemma take_commit_writes:
  fixes s :: "'a lstate_scheme"
  defines "LW \<equiv> log_writes s [0..<lh_count s]"
    and "H \<equiv> (unat (log_dev s), unat (log_start s), head_block s)"
    and "HW \<equiv> map (\<lambda>i. (unat (log_dev s), unat (lh_block s ! i),
         view_of s (unat (log_dev s), unat (lh_block s ! i)))) [0..<lh_count s]"
  shows "(\<exists>j \<le> lh_count s. take k (commit_writes s z) = take j LW) \<or>
     (\<exists>j \<le> lh_count s. take k (commit_writes s z) = LW @ [H] @ take j HW) \<or>
     take k (commit_writes s z) = commit_writes s z"
proof -
  have len: "length LW = lh_count s" "length HW = lh_count s" by (simp_all add: LW_def HW_def log_writes_def)
  have cw: "commit_writes s z = LW @ [H] @ HW @ [(unat (log_dev s), unat (log_start s), z)]"
    by (simp add: commit_writes_def LW_def H_def HW_def)
  consider "k \<le> lh_count s" | "lh_count s < k" "k \<le> Suc (2 * lh_count s)" | "Suc (2 * lh_count s) < k" by linarith
  then show ?thesis
  proof cases
    case 1
    then show ?thesis unfolding cw by (intro disjI1 exI[of _ k]) (simp add: len)
  next
    case 2
    then obtain j where "k = Suc (lh_count s) + j" "j \<le> lh_count s" using le_iff_add[of "Suc (lh_count s)" k] by auto
    then show ?thesis unfolding cw by (intro disjI2 disjI1 exI[of _ j]) (simp add: len)
  next
    case 3
    then show ?thesis unfolding cw by (intro disjI2) (simp add: len)
  qed
qed

lemma writes_log_data:
  assumes "set is \<subseteq> {..<LOGSIZE}" and "data_block s q"
  shows "writes (log_writes s is) D q = D q"
  unfolding log_writes_def
  by (rule writes_map_other) (use assms in \<open>auto simp: data_block_def log_at_def\<close>)

lemma writes_home_data:
  fixes s :: "'a lstate_scheme"
  assumes tx: "tx_ready s" and q: "data_block s q" and D: "\<And>q. data_block s q \<Longrightarrow> D q = on_disk (ide s) q \<or> D q = view_of s q"
    and all: "\<And>i. i < lh_count s \<Longrightarrow> h i = view_of s (unat (log_dev s), unat (lh_block s ! i))"
  shows "writes (map (\<lambda>i. (unat (log_dev s), unat (lh_block s ! i), h i)) [0..<lh_count s]) D q = view_of s q"
proof (cases "\<exists>i < lh_count s. q = (unat (log_dev s), unat (lh_block s ! i))")
  case True
  then obtain i where i: "i < lh_count s" "q = (unat (log_dev s), unat (lh_block s ! i))" by blast
  have inj: "inj_on (\<lambda>i. unat (lh_block s ! i)) (set [0..<lh_count s])"
    using tx_ready_facts(7)[OF tx] by (simp add: atLeast0LessThan)
  show ?thesis unfolding i(2) using writes_map_same[OF _ inj, of i] i(1) all by simp
next
  case False
  have "q \<notin> pinned (bufs s)" using False tx_ready_facts(8)[OF tx] by auto
  moreover have "bc_inv s" "q \<notin> ran (held (bufs s))" using tx by (simp_all add: tx_ready_def)
  ultimately have "view_of s q = on_disk (ide s) q" using bc.idle_clean by blast
  moreover have "writes (map (\<lambda>i. (unat (log_dev s), unat (lh_block s ! i), h i)) [0..<lh_count s]) D q = D q"
    by (rule writes_map_other) (use False in auto)
  ultimately show ?thesis using D[OF q] by auto
qed

text \<open>A log whose header is empty: recovery leaves every block of the file system as it is.\<close>

lemma recover_empty:
  fixes u :: "'a lstate_scheme" and s :: "'b lstate_scheme"
  assumes u: "rebooted s D u" and ok: "log_ok s" and e: "get32 (D (head_key s)) 0 = 0"
  shows "\<exists>v. recover_from_log u = Ret () v \<and> (\<forall>q. data_block s q \<longrightarrow> on_disk (ide v) q = D q)"
proof -
  have r: "bc.idle u" "pinned (bufs u) = {}" "length (lh_block u) = LOGSIZE" "on_disk (ide u) = D"
    "log_dev u = log_dev s" "log_start u = log_start s"
    using u by (simp_all add: rebooted_def bc.idle_def)
  have l: "log_dev u < 2" "unat (log_start u) + LOGSIZE < 1000" using ok r by (simp_all add: log_ok_def)
  obtain v z where v: "recover_from_log u = Ret () v"
    "on_disk (ide v) = writes [(unat (log_dev u), unat (log_start u), z)] D"
    using recover_run[OF r(1,2) l r(3) refl refl] e r(4-6) by auto
  have "on_disk (ide v) q = D q" if "data_block s q" for q
    using that r unfolding v(2) by (auto simp: data_block_def)
  then show ?thesis using v(1) by blast
qed

text \<open>A log whose header is that of the transaction: recovery completes it.\<close>

lemma recover_full:
  fixes s :: "'a lstate_scheme" and u :: "'b lstate_scheme"
  assumes tx: "tx_ready s" and u: "rebooted s D u" and hd: "D (head_key s) = head_block s"
    and lg: "\<And>i. i < lh_count s \<Longrightarrow>
      D (unat (log_dev s), log_at (log_start s) i) = view_of s (unat (log_dev s), unat (lh_block s ! i))"
    and D: "\<And>q. data_block s q \<Longrightarrow> D q = on_disk (ide s) q \<or> D q = view_of s q"
  shows "\<exists>v. recover_from_log u = Ret () v \<and> (\<forall>q. data_block s q \<longrightarrow> on_disk (ide v) q = view_of s q)"
proof -
  note f = tx_ready_facts[OF tx]
  let ?n = "lh_count s"
  have r: "bc.idle u" "pinned (bufs u) = {}" "length (lh_block u) = LOGSIZE" "on_disk (ide u) = D"
    "log_dev u = log_dev s" "log_start u = log_start s"
    using u by (simp_all add: rebooted_def bc.idle_def)
  have l: "log_dev u < 2" "unat (log_start u) + LOGSIZE < 1000" and n: "?n \<le> LOGSIZE"
    and len: "length (lh_block s) = LOGSIZE" and home: "\<And>i. i < ?n \<Longrightarrow> home_block (log_start s) (lh_block s ! i)"
    using f(2) r by (simp_all add: log_ok_def)
  have "length (view_of s (head_key s)) = BSIZE"
    using l r by (intro view_length[OF f(1)]) (simp_all add: word_less_nat_alt)
  moreover have "length (take ?n (lh_block s)) = ?n" using n len by simp
  ultimately have h: "get32 (head_block s) 0 = lh_n s" "head_blocks ?n (head_block s) = take ?n (lh_block s)"
    using head_round_trip[of "take ?n (lh_block s)" "view_of s (head_key s)" "lh_n s"] n
    unfolding head_block_def by simp_all
  have hb: "head_block s = on_disk (ide u) (head_key u)" using hd r by simp
  have cnt: "?n = nat (sint (get32 (head_block s) 0))" using h(1) by (simp add: lh_count_def)
  have hm: "home_block (log_start u) (head_blocks ?n (head_block s) ! i)" if "i < ?n" for i
    using home[OF that] that h(2) r(6) by simp
  obtain v z where v: "recover_from_log u = Ret () v"
    "on_disk (ide v) = writes (map (\<lambda>i. (unat (log_dev u), unat (head_blocks ?n (head_block s) ! i),
        on_disk (ide u) (unat (log_dev u), log_at (log_start u) i))) [0..<?n] @
        [(unat (log_dev u), unat (log_start u), z)]) (on_disk (ide u))"
    using recover_run[OF r(1,2) l r(3) hb cnt n hm] by blast
  have eq: "map (\<lambda>i. (unat (log_dev u), unat (head_blocks ?n (head_block s) ! i),
        on_disk (ide u) (unat (log_dev u), log_at (log_start u) i))) [0..<?n] =
      map (\<lambda>i. (unat (log_dev s), unat (lh_block s ! i), D (unat (log_dev s), log_at (log_start s) i))) [0..<?n]"
    by (simp add: r(4-6) h(2))
  have "on_disk (ide v) q = view_of s q" if q: "data_block s q" for q
  proof -
    have "on_disk (ide v) q = writes (map (\<lambda>i. (unat (log_dev s), unat (lh_block s ! i),
        D (unat (log_dev s), log_at (log_start s) i))) [0..<?n]) D q"
      using q unfolding v(2) eq by (auto simp: writes_append r data_block_def)
    then show ?thesis using writes_home_data[OF tx q D lg] by simp
  qed
  then show ?thesis using v(1) by blast
qed

text \<open>All the writes of a commit: the disk has what the cache had.\<close>

lemma writes_log_head_data:
  assumes ok: "log_ok s" and q: "data_block s q"
  shows "((writes (log_writes s [0..<lh_count s]) D)(head_key s := h)) q = D q"
proof -
  have "set [0..<lh_count s] \<subseteq> {..<LOGSIZE}" using ok by (auto simp: log_ok_def)
  then have "writes (log_writes s [0..<lh_count s]) D q = D q" using q by (rule writes_log_data)
  moreover have "q \<noteq> head_key s" using q by (auto simp: data_block_def)
  ultimately show ?thesis by simp
qed

lemma writes_commit:
  fixes s :: "'a lstate_scheme"
  assumes tx: "tx_ready s"
  shows "writes (commit_writes s z) (on_disk (ide s)) (head_key s) = z"
    and "data_block s q \<Longrightarrow> writes (commit_writes s z) (on_disk (ide s)) q = view_of s q"
proof -
  let ?old = "on_disk (ide s)" and ?LW = "log_writes s [0..<lh_count s]" and ?dev = "unat (log_dev s)"
  let ?HW = "map (\<lambda>i. (?dev, unat (lh_block s ! i), view_of s (?dev, unat (lh_block s ! i)))) [0..<lh_count s]"
  have D: "writes (commit_writes s z) ?old = (writes ?HW ((writes ?LW ?old)(head_key s := head_block s)))(head_key s := z)"
    by (simp add: commit_writes_def writes_append)
  then show "writes (commit_writes s z) ?old (head_key s) = z" by simp
  assume q: "data_block s q"
  then have "q \<noteq> head_key s" by (auto simp: data_block_def)
  then have "writes (commit_writes s z) ?old q = writes ?HW ((writes ?LW ?old)(head_key s := head_block s)) q"
    unfolding D by simp
  also have "\<dots> = view_of s q"
  proof (rule writes_home_data[OF tx q])
    fix q assume "data_block s q"
    then show "((writes ?LW ?old)(head_key s := head_block s)) q = ?old q \<or>
        ((writes ?LW ?old)(head_key s := head_block s)) q = view_of s q"
      using writes_log_head_data tx_ready_facts(2)[OF tx] by blast
  qed simp
  finally show "writes (commit_writes s z) ?old q = view_of s q" .
qed

lemma crash_states:
  fixes s :: "'a lstate_scheme" and u :: "'b lstate_scheme"
  assumes tx: "tx_ready s" and z: "get32 z 0 = 0"
    and u: "rebooted s (writes (take k (commit_writes s z)) (on_disk (ide s))) u"
  shows "\<exists>v. recover_from_log u = Ret () v \<and>
     ((\<forall>q. data_block s q \<longrightarrow> on_disk (ide v) q = on_disk (ide s) q) \<or>
      (\<forall>q. data_block s q \<longrightarrow> on_disk (ide v) q = view_of s q))"
proof -
  note f = tx_ready_facts[OF tx]
  let ?n = "lh_count s" and ?dev = "unat (log_dev s)" and ?old = "on_disk (ide s)"
  let ?LW = "log_writes s [0..<?n]"
  let ?hw = "\<lambda>i. (?dev, unat (lh_block s ! i), view_of s (?dev, unat (lh_block s ! i)))"
  have n: "?n \<le> LOGSIZE" and home: "\<And>i. i < ?n \<Longrightarrow> home_block (log_start s) (lh_block s ! i)"
    using f(2) by (simp_all add: log_ok_def)
  have e0: "get32 (?old (head_key s)) 0 = 0" using tx by (simp add: tx_ready_def)
  have mid: "((writes ?LW ?old)(head_key s := h)) q = ?old q" if "data_block s q" for q h
    using writes_log_head_data[OF f(2) that] .
  from take_commit_writes[of s k z] show ?thesis
  proof (elim disjE exE conjE)
    fix j assume j: "j \<le> ?n" and tk: "take k (commit_writes s z) = take j ?LW"
    have t: "take j ?LW = log_writes s [0..<j]" using j by (simp add: log_writes_def take_map take_upt)
    have "writes (log_writes s [0..<j]) ?old (head_key s) = ?old (head_key s)"
      unfolding log_writes_def by (rule writes_map_other) (auto simp: log_at_def)
    then have "get32 (writes (take k (commit_writes s z)) ?old (head_key s)) 0 = 0" using e0 tk t by simp
    from recover_empty[OF u f(2) this] obtain v where v: "recover_from_log u = Ret () v"
      "\<forall>q. data_block s q \<longrightarrow> on_disk (ide v) q = writes (log_writes s [0..<j]) ?old q" using tk t by auto
    moreover have "writes (log_writes s [0..<j]) ?old q = ?old q" if "data_block s q" for q
      by (rule writes_log_data) (use j n that in auto)
    ultimately show ?thesis by auto
  next
    fix j assume j: "j \<le> ?n"
      and tk: "take k (commit_writes s z) = ?LW @ [(?dev, unat (log_start s), head_block s)] @ take j (map ?hw [0..<?n])"
    have t: "take j (map ?hw [0..<?n]) = map ?hw [0..<j]" using j by (simp add: take_map take_upt)
    let ?D = "writes (take k (commit_writes s z)) ?old"
    let ?mid = "(writes ?LW ?old)(head_key s := head_block s)"
    have D: "?D = writes (map ?hw [0..<j]) ?mid" by (simp add: tk t writes_append)
    have off: "?D q = ?mid q" if "\<And>i. i < ?n \<Longrightarrow> q \<noteq> (?dev, unat (lh_block s ! i))" for q
    proof -
      have "writes (map ?hw [0..<j]) ?mid q = ?mid q"
        by (rule writes_map_other) (use that j in \<open>metis atLeastLessThan_iff set_upt less_le_trans\<close>)
      then show ?thesis by (simp only: D)
    qed
    have hd: "?D (head_key s) = head_block s"
      using off[of "head_key s"] home by (fastforce simp: home_block_def)
    have lg: "?D (?dev, log_at (log_start s) i) = view_of s (?dev, unat (lh_block s ! i))" if i: "i < ?n" for i
    proof -
      have "?D (?dev, log_at (log_start s) i) = writes ?LW ?old (?dev, log_at (log_start s) i)"
        using off[of "(?dev, log_at (log_start s) i)"] home_not_log[OF home, of _ i] i n by (fastforce simp: log_at_def)
      then show ?thesis unfolding log_writes_def
        by (simp only:) (rule writes_map_same, use i in \<open>auto simp: inj_on_def log_at_def\<close>)
    qed
    have dat: "?D q = ?old q \<or> ?D q = view_of s q" if q: "data_block s q" for q
    proof -
      have D1: "?mid q = ?old q" by (rule mid[OF q])
      show ?thesis
      proof (cases "\<exists>i < j. q = (?dev, unat (lh_block s ! i))")
        case True
        then obtain i where i: "i < j" "q = (?dev, unat (lh_block s ! i))" by blast
        have "inj_on (\<lambda>i. unat (lh_block s ! i)) (set [0..<j])"
          using f(7) j by (auto simp: atLeast0LessThan intro: inj_on_subset)
        then show ?thesis unfolding D i(2) using writes_map_same[of i "[0..<j]" "\<lambda>i. unat (lh_block s ! i)"] i(1) by simp
      next
        case False
        have "writes (map ?hw [0..<j]) ?mid q = ?mid q" by (rule writes_map_other) (use False in auto)
        then show ?thesis using D D1 by simp
      qed
    qed
    show ?thesis using recover_full[OF tx u hd lg dat] by blast
  next
    assume tk: "take k (commit_writes s z) = commit_writes s z"
    have "get32 (writes (take k (commit_writes s z)) ?old (head_key s)) 0 = 0" using z tk writes_commit(1)[OF tx] by simp
    from recover_empty[OF u f(2) this] show ?thesis using writes_commit(2)[OF tx] tk by auto
  qed
qed

end
