(* ===== verification/Transaction.thy ===== *)
theory Transaction
  imports Recovery
begin

text \<open>
  Transactions as the file system runs them: \<open>begin_op\<close>, some updates of blocks through
  \<open>log_write\<close>, \<open>end_op\<close>.  The invariant \<open>tx_open\<close> holds in between; its last form is what
  \<open>commit\<close> needs.
\<close>

section \<open>The header in memory\<close>

lemma lstate_lock_fields [simp]:
  "log_start (lock_taken l s) = log_start s" "log_size (lock_taken l s) = log_size s"
  "log_outstanding (lock_taken l s) = log_outstanding s" "log_committing (lock_taken l s) = log_committing s"
  "log_dev (lock_taken l s) = log_dev s" "lh_n (lock_taken l s) = lh_n s" "lh_block (lock_taken l s) = lh_block s"
  "log_start (lock_dropped l s) = log_start s" "log_size (lock_dropped l s) = log_size s"
  "log_outstanding (lock_dropped l s) = log_outstanding s" "log_committing (lock_dropped l s) = log_committing s"
  "log_dev (lock_dropped l s) = log_dev s" "lh_n (lock_dropped l s) = lh_n s"
  "lh_block (lock_dropped l s) = lh_block s"
  "log_start (woken c s) = log_start s" "log_size (woken c s) = log_size s"
  "log_outstanding (woken c s) = log_outstanding s" "log_committing (woken c s) = log_committing s"
  "log_dev (woken c s) = log_dev s" "lh_n (woken c s) = lh_n s" "lh_block (woken c s) = lh_block s"
  for s :: "'a lstate_scheme"
  by (simp_all add: lock_unfolds woken_def wakeup1_def)

lemma lstate_upd_buf [simp]:
  "log_start (upd_buf b f s) = log_start s" "log_dev (upd_buf b f s) = log_dev s"
  "lh_n (upd_buf b f s) = lh_n s" "lh_block (upd_buf b f s) = lh_block s"
  "log_outstanding (upd_buf b f s) = log_outstanding s" "log_committing (upd_buf b f s) = log_committing s"
  for s :: "'a lstate_scheme"
  by (simp_all add: upd_buf_def)

lemma lstate_more_fields [simp]:
  "lstate.more (lock_taken l s) = lstate.more s" "lstate.more (lock_dropped l s) = lstate.more s"
  "lstate.more (woken c s) = lstate.more s" "lstate.more (upd_buf b f s) = lstate.more s"
  for s :: "'a lstate_scheme"
  by (simp_all add: lock_unfolds woken_def wakeup1_def upd_buf_def)

lemma within_lstate [simp]:
  "within l s (t\<lparr>lh_block := bl\<rparr>) = within l s t" "within l s (t\<lparr>lh_n := n\<rparr>) = within l s t"
  "within l s (t\<lparr>log_outstanding := k\<rparr>) = within l s t" "within l s (t\<lparr>log_committing := c\<rparr>) = within l s t"
  for t :: "'a lstate_scheme"
  by (simp_all add: within_def balanced_def lock_free_def)

lemma lh_count_of_nat:
  assumes "lh_n s = of_nat n" and "n < 2 ^ 31"
  shows "lh_count s = n"
  using assms by (simp add: lh_count_def sint_uint signed_take_bit_int_eq_self unsigned_of_nat take_bit_nat_eq_self)

lemma log_slot_in: "b \<in> set xs \<Longrightarrow> \<exists>j < length xs. log_slot xs b i = i + j \<and> xs ! j = b"
proof (induction xs arbitrary: i)
  case (Cons x xs)
  show ?case
  proof (cases "x = b")
    case False
    then obtain j where "j < length xs" "log_slot xs b (Suc i) = Suc i + j" "xs ! j = b" using Cons by fastforce
    then show ?thesis using False by (intro exI[of _ "Suc j"]) simp
  qed auto
qed simp

lemma log_slot_out: "b \<notin> set xs \<Longrightarrow> log_slot xs b i = i + length xs"
  by (induction xs arbitrary: i) auto

section \<open>Open transactions\<close>

definition tx_blocks :: "'a lstate_scheme \<Rightarrow> u32 list" where
  "tx_blocks s = take (lh_count s) (lh_block s)"

definition tx_open :: "'a lstate_scheme \<Rightarrow> bool" where
  "tx_open s \<longleftrightarrow> bc_inv s \<and> held (bufs s) = Map.empty \<and> log_ok s \<and> lh_n s = of_nat (lh_count s) \<and>
     lh_count s < NBUF \<and> distinct (tx_blocks s) \<and>
     pinned (bufs s) = (\<lambda>b. (unat (log_dev s), unat b)) ` set (tx_blocks s) \<and>
     get32 (on_disk (ide s) (head_key s)) 0 = 0 \<and> lock_free L_log s"

lemma tx_open_ready: "tx_open s \<Longrightarrow> 0 < lh_count s \<Longrightarrow> tx_ready s"
  by (simp add: tx_open_def tx_ready_def tx_blocks_def)

text \<open>
  \<open>log_write\<close> of a locked block of the log's device: the block is pinned, and it is in the
  header once.
\<close>

lemma log_write_run:
  fixes s :: "'a lstate_scheme" and b :: nat
  assumes free: "lock_free L_log s" "cpu_wf s" and n: "lh_n s = of_nat (lh_count s)" "lh_count s < LOGSIZE"
    and len: "length (lh_block s) = LOGSIZE"
  defines "bn \<equiv> b_blockno (bufs s ! b)"
  shows "\<exists>t. log_write b s = Ret () t \<and> balanced s t \<and> bufs t = bufs (upd_buf b (\<lambda>k. k\<lparr>b_dirty := True\<rparr>) s) \<and>
     ide t = ide s \<and> idequeue t = idequeue s \<and> havedisk1 t = havedisk1 s \<and> mem t = mem s \<and>
     log_dev t = log_dev s \<and> log_start t = log_start s \<and> log_outstanding t = log_outstanding s \<and>
     log_committing t = log_committing s \<and> lstate.more t = lstate.more s \<and>
     lh_n t = of_nat (lh_count t) \<and> length (lh_block t) = LOGSIZE \<and> lh_count t \<le> LOGSIZE \<and>
     tx_blocks t = (if bn \<in> set (tx_blocks s) then tx_blocks s else tx_blocks s @ [bn])"
proof -
  let ?i = "log_slot (tx_blocks s) bn 0" and ?n = "lh_count s"
  let ?a = "(lock_taken L_log s)\<lparr>lh_block := (lh_block s)[?i := bn]\<rparr>"
  let ?b = "if of_nat ?i = lh_n s then ?a\<lparr>lh_n := lh_n s + 1\<rparr> else ?a"
  let ?c = "upd_buf b (\<lambda>k. k\<lparr>b_dirty := True\<rparr>) ?b"
  have lt: "length (tx_blocks s) = ?n" using n len by (simp add: tx_blocks_def)
  have il: "?i \<le> ?n" using log_slot_in[of bn "tx_blocks s" 0] log_slot_out[of bn "tx_blocks s" 0] lt by fastforce
  have w: "within L_log s ?c" by simp
  have cnt: "lh_count (lock_taken L_log s) = ?n" by (simp add: lh_count_def)
  have "log_write b s = (if LOGSIZE \<le> ?i then Fault ''log_write: log.lh.block'' else release L_log ?c)"
    by (simp add: log_write_def acquire_free[OF free(1)] Let_def bn_def tx_blocks_def cnt cong: if_cong split del: if_split)
  then have "log_write b s = Ret () (lock_dropped L_log ?c)" using il n(2) within_release[OF w free(2)] by simp
  moreover have "balanced s (lock_dropped L_log ?c)" by (rule within_balanced[OF w free(2,1)])
  moreover have "lh_n ?c = of_nat (lh_count ?c) \<and> lh_count ?c \<le> LOGSIZE \<and>
      take (lh_count ?c) (lh_block ?c) = (if bn \<in> set (tx_blocks s) then tx_blocks s else tx_blocks s @ [bn])"
  proof (cases "bn \<in> set (tx_blocks s)")
    case True
    then obtain j where j: "j < ?n" "?i = j" "tx_blocks s ! j = bn" using log_slot_in[of bn "tx_blocks s" 0] lt by auto
    then have "(of_nat ?i :: u32) \<noteq> lh_n s" using n by (simp add: LOGSIZE_def word_unat_eq_iff unat_of_nat)
    moreover have "lh_block s ! j = bn" using j by (simp add: tx_blocks_def)
    then have "(lh_block s)[?i := bn] = lh_block s" using list_update_id[of "lh_block s" j] j(2) by simp
    ultimately have c: "lh_block ?c = lh_block s" "lh_n ?c = lh_n s" by simp_all
    then have "lh_count ?c = ?n" by (simp add: lh_count_def)
    then show ?thesis unfolding c using True n by (simp add: tx_blocks_def)
  next
    case False
    then have i: "?i = ?n" using log_slot_out[of bn "tx_blocks s" 0] lt by simp
    have "lh_n ?c = of_nat (Suc ?n)" using n i by simp
    moreover from this have "lh_count ?c = Suc ?n" using n(2) by (intro lh_count_of_nat) (simp_all add: LOGSIZE_def)
    moreover have "take (Suc ?n) ((lh_block s)[?n := bn]) = tx_blocks s @ [bn]"
      using n(2) len by (simp add: take_Suc_conv_app_nth tx_blocks_def)
    ultimately show ?thesis using False n(2) i by simp
  qed
  moreover have "lh_count (lock_dropped L_log ?c) = lh_count ?c" by (simp add: lh_count_def)
  moreover have "length (lh_block ?c) = LOGSIZE" using len by simp
  moreover have "bufs ?c = bufs (upd_buf b (\<lambda>k. k\<lparr>b_dirty := True\<rparr>) s)" "ide ?c = ide s" "idequeue ?c = idequeue s"
    "havedisk1 ?c = havedisk1 s" "mem ?c = mem s" "log_dev ?c = log_dev s" "log_start ?c = log_start s"
    "log_outstanding ?c = log_outstanding s" "log_committing ?c = log_committing s" "lstate.more ?c = lstate.more s"
    by (simp_all add: upd_buf_def)
  ultimately show ?thesis
    by (intro exI[of _ "lock_dropped L_log ?c"] conjI) (simp_all only: dstate_lock_fields lstate_lock_fields
      lstate_more_fields lock_dropped_fields tx_blocks_def[of "lock_dropped L_log ?c"])
qed

text \<open>
  The way the file system changes a block: read it, change the buffer, log it, release it.
\<close>

definition logged_update :: "u32 \<Rightarrow> u32 \<Rightarrow> (byte list \<Rightarrow> byte list) \<Rightarrow> 'a lstate_scheme \<Rightarrow> (unit, 'a lstate_scheme) outcome" where
  "logged_update dev bn f s = bnd (bread dev bn s) (\<lambda>b s.
     bnd (log_write b (upd_buf b (\<lambda>k. k\<lparr>b_data := f (b_data k)\<rparr>) s)) (\<lambda>_ s. brelse b s))"

lemma bc_inv_same:
  assumes "bc_inv s" and "balanced s t" and "bufs t = bufs s" "ide t = ide s" "idequeue t = idequeue s" "havedisk1 t = havedisk1 s"
  shows "bc_inv t"
  using assms bc_ready_balanced[of s t] by (auto simp: bc_inv_def bc_ready_def)

lemma log_write_held:
  fixes s :: "'a lstate_scheme" and b :: nat
  assumes inv: "bc_inv s" and h: "held (bufs s) b = Some (unat (log_dev s), unat bn)"
    and free: "lock_free L_log s" and n: "lh_n s = of_nat (lh_count s)" "lh_count s < LOGSIZE"
    and len: "length (lh_block s) = LOGSIZE"
  obtains t where "log_write b s = Ret () t" "balanced s t" "bc_inv t" "held (bufs t) = held (bufs s)" "view_of t = view_of s"
    "on_disk (ide t) = on_disk (ide s)" "ide_hist (ide t) = ide_hist (ide s)" "mem t = mem s"
    "pinned (bufs t) = insert (unat (log_dev s), unat bn) (pinned (bufs s))"
    "log_dev t = log_dev s" "log_start t = log_start s" "log_outstanding t = log_outstanding s"
    "log_committing t = log_committing s" "lstate.more t = lstate.more s"
    "lh_n t = of_nat (lh_count t)" "length (lh_block t) = LOGSIZE" "lh_count t \<le> LOGSIZE"
    "tx_blocks t = (if bn \<in> set (tx_blocks s) then tx_blocks s else tx_blocks s @ [bn])"
proof -
  note hk = held_key[OF bc_inv_data(1)[OF inv] h]
  have "unat (b_blockno (bufs s ! b)) = unat bn" using hk(6) by (simp add: bkey_def)
  then have bn: "b_blockno (bufs s ! b) = bn" by (simp add: word_unat_eq_iff)
  have wf: "cpu_wf s" using bc_inv_data(2)[OF inv] by (simp add: bc_ready_def)
  obtain t where t: "log_write b s = Ret () t" "balanced s t" "bufs t = bufs (upd_buf b (\<lambda>k. k\<lparr>b_dirty := True\<rparr>) s)"
     "ide t = ide s" "idequeue t = idequeue s" "havedisk1 t = havedisk1 s" "mem t = mem s"
     "log_dev t = log_dev s" "log_start t = log_start s" "log_outstanding t = log_outstanding s"
     "log_committing t = log_committing s" "lstate.more t = lstate.more s"
     "lh_n t = of_nat (lh_count t)" "length (lh_block t) = LOGSIZE" "lh_count t \<le> LOGSIZE"
     "tx_blocks t = (if bn \<in> set (tx_blocks s) then tx_blocks s else tx_blocks s @ [bn])"
    using log_write_run[OF free wf n len, of b] unfolding bn by metis
  note p = pin_run[OF inv h]
  have "bc_inv t"
    by (rule bc_inv_same[OF p(1)]) (use t in \<open>simp_all add: balanced_def lock_free_def upd_buf_def\<close>)
  then show thesis using t p by (intro that[of t]) simp_all
qed

lemma length_tx_blocks: "log_ok s \<Longrightarrow> length (tx_blocks s) = lh_count s"
  by (simp add: tx_blocks_def log_ok_def)

lemma tx_blocks_home: "log_ok s \<Longrightarrow> b \<in> set (tx_blocks s) \<Longrightarrow> home_block (log_start s) b"
  by (auto simp: tx_blocks_def log_ok_def in_set_conv_nth)

lemma log_okI:
  assumes "log_dev s < 2" "unat (log_start s) + LOGSIZE < 1000" "length (lh_block s) = LOGSIZE" "lh_count s \<le> LOGSIZE"
    and "\<And>b. b \<in> set (tx_blocks s) \<Longrightarrow> home_block (log_start s) b"
  shows "log_ok s"
proof -
  have "lh_block s ! i \<in> set (tx_blocks s)" if "i < lh_count s" for i
    using that assms(3,4) by (auto simp: tx_blocks_def in_set_conv_nth)
  then show ?thesis using assms by (simp add: log_ok_def)
qed

lemma tx_open_pins: "tx_open s \<Longrightarrow> card (pinned (bufs s)) < NBUF \<and> finite (pinned (bufs s))"
  using length_tx_blocks[of s] card_image_le[of "set (tx_blocks s)" "\<lambda>b. (unat (log_dev s), unat b)"]
    card_length[of "tx_blocks s"] by (fastforce simp: tx_open_def)

lemma logged_update_run:
  fixes s :: "'a lstate_scheme" and bn :: u32 and f :: "byte list \<Rightarrow> byte list"
  assumes tx: "tx_open s" and home: "home_block (log_start s) bn"
    and f: "\<And>bs. length bs = BSIZE \<Longrightarrow> length (f bs) = BSIZE"
    and room: "bn \<in> set (tx_blocks s) \<or> Suc (lh_count s) < NBUF"
  obtains t where "logged_update (log_dev s) bn f s = Ret () t" "tx_open t"
    "view_of t = (view_of s)((unat (log_dev s), unat bn) := f (view_of s (unat (log_dev s), unat bn)))"
    "on_disk (ide t) = on_disk (ide s)" "ide_hist (ide t) = ide_hist (ide s)" "balanced s t" "mem t = mem s"
    "log_dev t = log_dev s" "log_start t = log_start s" "log_outstanding t = log_outstanding s"
    "log_committing t = log_committing s" "lstate.more t = lstate.more s"
    "tx_blocks t = (if bn \<in> set (tx_blocks s) then tx_blocks s else tx_blocks s @ [bn])"
proof -
  let ?q = "(unat (log_dev s), unat bn)"
  have o: "bc_inv s" "held (bufs s) = Map.empty" "log_ok s" "lh_n s = of_nat (lh_count s)" "lh_count s < NBUF"
    "distinct (tx_blocks s)" "pinned (bufs s) = (\<lambda>b. (unat (log_dev s), unat b)) ` set (tx_blocks s)"
    "get32 (on_disk (ide s) (head_key s)) 0 = 0" "lock_free L_log s"
    using tx by (simp_all add: tx_open_def)
  have dev: "log_dev s < 2" "bn < 1000" using o(3) home by (simp_all add: log_ok_def home_block_def)
  have nb: "NBUF = LOGSIZE" by (simp add: LOGSIZE_def NBUF_def)
  have len: "length (view_of s ?q) = BSIZE"
    using bc.sees_length[OF o(1), of ?q] dev by (simp add: word_less_nat_alt)
  obtain b s1 where 1: "bread (log_dev s) bn s = Ret b s1" "bc_inv s1" "held (bufs s1) = [b \<mapsto> ?q]" "view_of s1 = view_of s"
    "on_disk (ide s1) = on_disk (ide s)" "pinned (bufs s1) = pinned (bufs s)" "ide_hist (ide s1) = ide_hist (ide s)" "disk_frame s s1"
    using bc.rd_law[OF o(1) dev] tx_open_pins[OF tx] o(2) by auto
  note l1 = log_fields[OF 1(8)]
  let ?d = "f (b_data (bufs s1 ! b))"
  let ?p = "upd_buf b (\<lambda>k. k\<lparr>b_data := ?d\<rparr>) s1"
  have g: "b_data (bufs s1 ! b) = view_of s ?q" using bc.get_sees[OF 1(2), of b ?q] 1 by simp
  have up: "upd_buf b (\<lambda>k. k\<lparr>b_data := f (b_data k)\<rparr>) s1 = ?p" by (simp add: upd_buf_def)
  have p: "bc_inv ?p" "held (bufs ?p) = [b \<mapsto> ?q]" "view_of ?p = (view_of s)(?q := f (view_of s ?q))"
    "on_disk (ide ?p) = on_disk (ide s)" "pinned (bufs ?p) = pinned (bufs s)" "ide_hist (ide ?p) = ide_hist (ide s)" "disk_frame s1 ?p"
    using bc.put_law[OF 1(2), of b ?q ?d] len f 1 g by simp_all
  have fr: "disk_frame s ?p" using 1(8) p(7) by (rule bc.kept_trans)
  note lp = log_fields[OF fr]
  have bal: "balanced s ?p" "mem ?p = mem s" using fr by (simp_all add: disk_frame_def)
  have tb: "tx_blocks ?p = tx_blocks s" using lp by (simp add: tx_blocks_def)
  have lenb: "length (lh_block ?p) = LOGSIZE" using lp o(3) by (simp add: log_ok_def)
  have hp: "held (bufs ?p) b = Some (unat (log_dev ?p), unat bn)" using p(2) lp(3) by simp
  have fp: "lock_free L_log ?p" using balanced_lock_free[OF bal(1)] o(9) by simp
  have np: "lh_n ?p = of_nat (lh_count ?p)" "lh_count ?p < LOGSIZE" using lp o(4,5) nb by simp_all
  obtain u where u: "log_write b ?p = Ret () u" "balanced ?p u" "bc_inv u" "held (bufs u) = held (bufs ?p)"
    "view_of u = view_of ?p" "on_disk (ide u) = on_disk (ide ?p)" "ide_hist (ide u) = ide_hist (ide ?p)" "mem u = mem ?p"
    "pinned (bufs u) = insert (unat (log_dev ?p), unat bn) (pinned (bufs ?p))"
    "log_dev u = log_dev ?p" "log_start u = log_start ?p" "log_outstanding u = log_outstanding ?p"
    "log_committing u = log_committing ?p" "lstate.more u = lstate.more ?p"
    "lh_n u = of_nat (lh_count u)" "length (lh_block u) = LOGSIZE" "lh_count u \<le> LOGSIZE"
    "tx_blocks u = (if bn \<in> set (tx_blocks ?p) then tx_blocks ?p else tx_blocks ?p @ [bn])"
    by (rule log_write_held[OF p(1) hp fp np lenb])
  obtain t where t: "brelse b u = Ret () t" "bc_inv t" "held (bufs t) = (held (bufs u))(b := None)" "view_of t = view_of u"
    "on_disk (ide t) = on_disk (ide u)" "pinned (bufs t) = pinned (bufs u)" "ide_hist (ide t) = ide_hist (ide u)" "disk_frame u t"
    using bc.rel_law[OF u(3), of b ?q] u(4,9) p(2) lp(3) by auto
  note lt = log_fields[OF t(8)]
  have tbt: "tx_blocks t = (if bn \<in> set (tx_blocks s) then tx_blocks s else tx_blocks s @ [bn])"
    using lt u(18) tb by (simp add: tx_blocks_def)
  have ok: "log_ok t"
    by (rule log_okI) (use lt u lp o(3) tbt tx_blocks_home[OF o(3)] home in \<open>auto simp: log_ok_def split: if_splits\<close>)
  have cnt: "lh_count t < NBUF" using length_tx_blocks[OF ok] length_tx_blocks[OF o(3)] tbt o(5) room by (auto split: if_splits)
  have bt: "balanced s t" using balanced_trans[OF balanced_trans[OF bal(1) u(2)]] t(8) by (simp add: disk_frame_def)
  have "tx_open t" unfolding tx_open_def
    using t u p o lt lp tbt ok cnt balanced_lock_free[OF bt] by (auto simp: fun_eq_iff split: if_splits)
  then show thesis
    using that[of t] 1(1) up u t lt lp p bt tbt bal(2) by (auto simp: logged_update_def disk_frame_def)
qed

section \<open>Whole transactions\<close>

lemma tx_open_same:
  assumes "tx_open s" and "balanced s t" and "bufs t = bufs s" "ide t = ide s" "idequeue t = idequeue s" "havedisk1 t = havedisk1 s"
    and "log_dev t = log_dev s" "log_start t = log_start s" "lh_n t = lh_n s" "lh_block t = lh_block s"
  shows "tx_open t"
proof -
  have c: "lh_count t = lh_count s" using assms(9) by (simp add: lh_count_def)
  moreover have "bc_inv t" using assms bc_inv_same[of s t] by (simp add: tx_open_def)
  ultimately show ?thesis using assms balanced_lock_free[OF assms(2), of L_log]
    by (simp add: tx_open_def tx_blocks_def log_ok_def)
qed

text \<open>No operation is under way: the header in memory is empty.\<close>

definition log_quiet :: "'a lstate_scheme \<Rightarrow> bool" where
  "log_quiet s \<longleftrightarrow> tx_open s \<and> lh_n s = 0 \<and> log_outstanding s = 0 \<and> \<not> log_committing s"

lemma begin_op_run:
  fixes s :: "'a lstate_scheme"
  assumes q: "log_quiet s"
  obtains t where "begin_op s = Ret () t" "tx_open t" "tx_blocks t = []" "log_outstanding t = 1" "\<not> log_committing t"
    "view_of t = on_disk (ide s)" "ide t = ide s" "log_dev t = log_dev s" "log_start t = log_start s" "lstate.more t = lstate.more s"
proof -
  have tx: "tx_open s" and z: "lh_n s = 0" "log_outstanding s = 0" "\<not> log_committing s" using q by (simp_all add: log_quiet_def)
  have inv: "bc_inv s" "lock_free L_log s" using tx by (simp_all add: tx_open_def)
  have wf: "cpu_wf s" using bc_inv_data(2)[OF inv(1)] by (simp add: bc_ready_def)
  let ?a = "(lock_taken L_log s)\<lparr>log_outstanding := 1\<rparr>"
  let ?t = "lock_dropped L_log ?a"
  have w: "within L_log s ?a" by simp
  have "begin_op s = Ret () ?t"
    using within_release[OF w wf] z
    by (simp add: begin_op_def acquire_free[OF inv(2)] LOGSIZE_def MAXOPBLOCKS_def slt_def)
  moreover have bal: "balanced s ?t" by (rule within_balanced[OF w wf inv(2)])
  moreover have "tx_open ?t" by (rule tx_open_same[OF tx bal]) simp_all
  moreover have tb: "tx_blocks ?t = []" "tx_blocks s = []" using z by (simp_all add: tx_blocks_def lh_count_def)
  moreover have "view_of ?t = on_disk (ide s)"
    using tb(2) tx bc.idle_clean[OF inv(1)] by (intro ext) (simp add: tx_open_def)
  ultimately show thesis using z(3) by (intro that[of ?t]) simp_all
qed

lemma begin_end_section:
  fixes s :: "'a lstate_scheme"
  assumes tx: "tx_open s" and out: "log_outstanding s = 1" and nc: "\<not> log_committing s"
  obtains t where "end_op s = bnd (commit t) (\<lambda>_ s. bnd (acquire L_log s) (\<lambda>_ s.
      bnd (wakeup Ch_log (s\<lparr>log_committing := False\<rparr>)) (\<lambda>_ s. release L_log s)))"
    "tx_open t" "tx_blocks t = tx_blocks s" "lh_count t = lh_count s" "log_outstanding t = 0" "bufs t = bufs s" "ide t = ide s"
    "log_dev t = log_dev s" "log_start t = log_start s" "lstate.more t = lstate.more s" "lh_n t = lh_n s" "lh_block t = lh_block s"
proof -
  have inv: "bc_inv s" "lock_free L_log s" using tx by (simp_all add: tx_open_def)
  have wf: "cpu_wf s" using bc_inv_data(2)[OF inv(1)] by (simp add: bc_ready_def)
  let ?a = "(lock_taken L_log s)\<lparr>log_outstanding := 0, log_committing := True\<rparr>"
  let ?t = "lock_dropped L_log ?a"
  have w: "within L_log s ?a" by simp
  have bal: "balanced s ?t" by (rule within_balanced[OF w wf inv(2)])
  show thesis
  proof (rule that[of ?t])
    show "end_op s = bnd (commit ?t) (\<lambda>_ s. bnd (acquire L_log s) (\<lambda>_ s.
      bnd (wakeup Ch_log (s\<lparr>log_committing := False\<rparr>)) (\<lambda>_ s. release L_log s)))"
      using within_release[OF w wf] out nc by (simp add: end_op_def acquire_free[OF inv(2)])
    show "tx_open ?t" by (rule tx_open_same[OF tx bal]) simp_all
  qed (simp_all add: tx_blocks_def lh_count_def)
qed

lemma end_section_run:
  fixes s :: "'a lstate_scheme"
  assumes tx: "tx_open s" and z: "lh_n s = 0" "log_outstanding s = 0"
  obtains t where "bnd (acquire L_log s) (\<lambda>_ s.
      bnd (wakeup Ch_log (s\<lparr>log_committing := False\<rparr>)) (\<lambda>_ s. release L_log s)) = Ret () t"
    "log_quiet t" "ide t = ide s" "lstate.more t = lstate.more s" "log_dev t = log_dev s" "log_start t = log_start s"
proof -
  have inv: "bc_inv s" "lock_free L_log s" using tx by (simp_all add: tx_open_def)
  have wf: "cpu_wf s" "lock_free L_ptable s" using bc_inv_data(2)[OF inv(1)] by (simp_all add: bc_ready_def)
  let ?a = "(lock_taken L_log s)\<lparr>log_committing := False\<rparr>"
  let ?b = "woken Ch_log ?a"
  let ?t = "lock_dropped L_log ?b"
  have wa: "within L_log s ?a" by simp
  note wk = wakeup_woken[of ?a Ch_log]
  have pf: "lock_free L_ptable ?a" "cpu_wf ?a" using within_lock_free[OF wa] wf within_cpu(1)[OF wa wf(1)] by simp_all
  have w: "within L_log s ?b" using wa wk(2)[OF pf] by (rule within_trans)
  have bal: "balanced s ?t" by (rule within_balanced[OF w wf(1) inv(2)])
  have "tx_open ?t" by (rule tx_open_same[OF tx bal]) simp_all
  then have "log_quiet ?t" using z by (simp add: log_quiet_def)
  moreover have "bnd (acquire L_log s) (\<lambda>_ s.
      bnd (wakeup Ch_log (s\<lparr>log_committing := False\<rparr>)) (\<lambda>_ s. release L_log s)) = Ret () ?t"
    using within_release[OF w wf(1)] wk(1)[OF pf] by (simp add: acquire_free[OF inv(2)])
  ultimately show thesis by (intro that[of ?t]) simp_all
qed

text \<open>
  The states a crash can leave: a prefix of the block writes \<open>ws\<close> has reached the disk.
  \<open>atomic_writes\<close> says that recovery then finds the old contents or the new ones.
\<close>

definition atomic_writes :: "'a lstate_scheme \<Rightarrow> (nat \<times> nat \<times> byte list) list \<Rightarrow> blocks \<Rightarrow> 'b lstate_scheme \<Rightarrow> bool" where
  "atomic_writes s ws new u \<longleftrightarrow>
     (\<forall>k \<le> length ws. rebooted s (writes (take k ws) (on_disk (ide s))) u \<longrightarrow>
        (\<exists>v. recover_from_log u = Ret () v \<and>
           ((\<forall>q. data_block s q \<longrightarrow> on_disk (ide v) q = on_disk (ide s) q) \<or>
            (\<forall>q. data_block s q \<longrightarrow> on_disk (ide v) q = new q))))"

lemma commit_open:
  fixes s :: "'a lstate_scheme"
  assumes tx: "tx_open s"
  obtains t ws where "commit s = Ret () t" "tx_open t" "lh_n t = 0" "log_outstanding t = log_outstanding s"
    "log_dev t = log_dev s" "log_start t = log_start s" "lstate.more t = lstate.more s"
    "ide_hist (ide t) = ide_hist (ide s) @ ws" "\<And>q. data_block s q \<Longrightarrow> on_disk (ide t) q = view_of s q"
    "\<And>u :: 'b lstate_scheme. atomic_writes s ws (view_of s) u"
proof (cases "lh_count s = 0")
  case True
  have o: "bc_inv s" "held (bufs s) = Map.empty" "lh_n s = of_nat (lh_count s)" "log_ok s"
    "pinned (bufs s) = (\<lambda>b. (unat (log_dev s), unat b)) ` set (tx_blocks s)"
    "get32 (on_disk (ide s) (head_key s)) 0 = 0" using tx by (simp_all add: tx_open_def)
  have c: "commit s = Ret () s" "lh_n s = 0" using True o(3) by (simp_all add: commit_def slt_def)
  have v: "view_of s = on_disk (ide s)"
    using bc.idle_clean[OF o(1)] o(2,5) True by (intro ext) (simp add: tx_blocks_def)
  have "atomic_writes s [] (view_of s) u" for u :: "'b lstate_scheme"
    using recover_empty[where s = s and D = "on_disk (ide s)" and u = u, OF _ o(4,6)] by (auto simp: atomic_writes_def v)
  then show thesis using that[of s "[]"] c v tx by simp
next
  case False
  then have r: "tx_ready s" using tx by (intro tx_open_ready) simp_all
  obtain t z where t: "commit s = Ret () t" "bc.idle t" "pinned (bufs t) = {}" "lh_n t = 0" "disk_frame (s\<lparr>lh_n := 0\<rparr>) t"
    "get32 z 0 = 0" "on_disk (ide t) = writes (commit_writes s z) (on_disk (ide s))"
    "ide_hist (ide t) = ide_hist (ide s) @ commit_writes s z"
    using commit_run[OF r] by auto
  note f = log_fields[OF t(5), simplified]
  have c: "lh_count t = 0" using t(4) by (simp add: lh_count_def)
  have bal: "balanced s t" using t(5) by (simp add: disk_frame_def balanced_def lock_free_def)
  have "tx_open t"
    using tx t c f balanced_lock_free[OF bal] writes_commit(1)[OF r]
    by (simp add: tx_open_def bc.idle_def tx_blocks_def log_ok_def NBUF_def)
  moreover have "atomic_writes s (commit_writes s z) (view_of s) u" for u :: "'b lstate_scheme"
    using crash_states[OF r t(6)] by (auto simp: atomic_writes_def)
  ultimately show thesis
    using that[of t "commit_writes s z"] t f writes_commit(2)[OF r] by simp
qed

fun updates :: "u32 \<Rightarrow> (u32 \<times> (byte list \<Rightarrow> byte list)) list \<Rightarrow> 'a lstate_scheme \<Rightarrow> (unit, 'a lstate_scheme) outcome" where
  "updates dev [] s = Ret () s"
| "updates dev ((bn, f) # us) s = bnd (logged_update dev bn f s) (\<lambda>_ s. updates dev us s)"

fun updated :: "u32 \<Rightarrow> (u32 \<times> (byte list \<Rightarrow> byte list)) list \<Rightarrow> blocks \<Rightarrow> blocks" where
  "updated dev [] D = D"
| "updated dev ((bn, f) # us) D = updated dev us (D((unat dev, unat bn) := f (D (unat dev, unat bn))))"

definition transaction :: "(u32 \<times> (byte list \<Rightarrow> byte list)) list \<Rightarrow> 'a lstate_scheme \<Rightarrow> (unit, 'a lstate_scheme) outcome" where
  "transaction us s = bnd (begin_op s) (\<lambda>_ s. bnd (updates (log_dev s) us s) (\<lambda>_ s. end_op s))"

definition update_ok :: "u32 \<Rightarrow> u32 \<times> (byte list \<Rightarrow> byte list) \<Rightarrow> bool" where
  "update_ok st u \<longleftrightarrow> home_block st (fst u) \<and> (\<forall>bs. length bs = BSIZE \<longrightarrow> length (snd u bs) = BSIZE)"

lemma updates_run:
  fixes s :: "'a lstate_scheme"
  assumes "tx_open s" and "\<forall>u \<in> set us. update_ok (log_start s) u" and "lh_count s + length us < NBUF"
  obtains t where "updates (log_dev s) us s = Ret () t" "tx_open t" "view_of t = updated (log_dev s) us (view_of s)"
    "on_disk (ide t) = on_disk (ide s)" "ide_hist (ide t) = ide_hist (ide s)" "log_dev t = log_dev s" "log_start t = log_start s"
    "log_outstanding t = log_outstanding s" "log_committing t = log_committing s" "lstate.more t = lstate.more s"
  using assms
proof (induction us arbitrary: s thesis)
  case Nil
  show ?case by (rule Nil.prems(1)[of s]) (use Nil.prems(2) in simp_all)
next
  case (Cons x us)
  obtain bn f where x: "x = (bn, f)" by (cases x)
  have u: "home_block (log_start s) bn" "\<And>bs. length bs = BSIZE \<Longrightarrow> length (f bs) = BSIZE"
    using Cons.prems(3) x by (simp_all add: update_ok_def)
  have room: "bn \<in> set (tx_blocks s) \<or> Suc (lh_count s) < NBUF" using Cons.prems(4) by simp
  obtain t where t: "logged_update (log_dev s) bn f s = Ret () t" "tx_open t"
    "view_of t = (view_of s)((unat (log_dev s), unat bn) := f (view_of s (unat (log_dev s), unat bn)))"
    "on_disk (ide t) = on_disk (ide s)" "ide_hist (ide t) = ide_hist (ide s)"
    "log_dev t = log_dev s" "log_start t = log_start s" "log_outstanding t = log_outstanding s"
    "log_committing t = log_committing s" "lstate.more t = lstate.more s"
    "tx_blocks t = (if bn \<in> set (tx_blocks s) then tx_blocks s else tx_blocks s @ [bn])"
    by (rule logged_update_run[OF Cons.prems(2) u room])
  have "lh_count t \<le> Suc (lh_count s)"
    using length_tx_blocks[of s] length_tx_blocks[of t] t(2,11) Cons.prems(2) by (auto simp: tx_open_def split: if_splits)
  then have c: "lh_count t + length us < NBUF" using Cons.prems(4) by simp
  have ok: "\<forall>u \<in> set us. update_ok (log_start t) u" using Cons.prems(3) t(7) by simp
  show ?case
  proof (rule Cons.IH[OF _ t(2) ok c])
    fix v assume v: "updates (log_dev t) us t = Ret () v" "tx_open v" "view_of v = updated (log_dev t) us (view_of t)"
      "on_disk (ide v) = on_disk (ide t)" "ide_hist (ide v) = ide_hist (ide t)" "log_dev v = log_dev t" "log_start v = log_start t"
      "log_outstanding v = log_outstanding t" "log_committing v = log_committing t" "lstate.more v = lstate.more t"
    show ?case by (rule Cons.prems(1)[of v]) (use t v x in simp_all)
  qed
qed


text \<open>A machine with two empty disks, just after \<open>binit\<close>; the log has its area from block 900.\<close>

definition demo_log :: "blocks \<Rightarrow> lstate" where
  "demo_log D = binit (demo_lstate D)"

lemma demo_log_inv:
  assumes "\<And>q. fst q < 2 \<Longrightarrow> snd q < 1000 \<Longrightarrow> length (D q) = BSIZE"
  shows "bc_inv (demo_log D)" "held (bufs (demo_log D)) = Map.empty" "pinned (bufs (demo_log D)) = {}"
    "on_disk (ide (demo_log D)) = D" "lock_free l (demo_log D)" "ide_hist (ide (demo_log D)) = []"
    "log_start (demo_log D) = 900" "log_dev (demo_log D) = 1" "lh_n (demo_log D) = 0" "log_outstanding (demo_log D) = 0"
    "\<not> log_committing (demo_log D)" "lh_block (demo_log D) = replicate LOGSIZE 0"
proof -
  let ?s = "demo_lstate D"
  have e: "bufs ?s = bufs (demo_bufs D)" "ide ?s = ide (demo_bufs D)" "idequeue ?s = idequeue (demo_bufs D)"
    "havedisk1 ?s = havedisk1 (demo_bufs D)" "lock_free l ?s = lock_free l (demo_bufs D)" "cpu_wf ?s = cpu_wf (demo_bufs D)" for l
    by (simp_all add: demo_lstate_def dstate.defs lock_free_def cpu_wf_def)
  have m: "dstate.more ?s = lstate.fields 900 30 0 False 1 0 (replicate LOGSIZE 0)" by (simp add: demo_lstate_def dstate.defs)
  note b = binit_demo[of ?s, unfolded e demo_bufs_fields, OF refl refl demo_bufs_fields(4) refl demo_bufs_fields(7,8) assms, folded demo_log_def]
  show "bc_inv (demo_log D)" "held (bufs (demo_log D)) = Map.empty" "pinned (bufs (demo_log D)) = {}"
    "on_disk (ide (demo_log D)) = D" "lock_free l (demo_log D)" "ide_hist (ide (demo_log D)) = []"
    using b by (simp_all add: demo_bufs_fields)
  have "dstate.more (demo_log D) = lstate.fields 900 30 0 False 1 0 (replicate LOGSIZE 0)" using b m by simp
  then show "log_start (demo_log D) = 900" "log_dev (demo_log D) = 1" "lh_n (demo_log D) = 0" "log_outstanding (demo_log D) = 0"
    "\<not> log_committing (demo_log D)" "lh_block (demo_log D) = replicate LOGSIZE 0"
    by (cases "demo_log D"; simp add: lstate.defs)+
qed

abbreviation zero_disk :: blocks where
  "zero_disk \<equiv> (\<lambda>_. replicate BSIZE 0)"

lemma demo_log_quiet:
  assumes len: "\<And>q. fst q < 2 \<Longrightarrow> snd q < 1000 \<Longrightarrow> length (D q) = BSIZE" and z: "D (1, 900) = replicate BSIZE 0"
  shows "log_quiet (demo_log D)" "view_of (demo_log D) = D"
proof -
  note d = demo_log_inv[OF len, simplified]
  have c: "lh_count (demo_log D) = 0" by (simp add: lh_count_def d)
  have "get32 (D (1, 900)) 0 = 0" unfolding z by (simp add: get32_def BSIZE_def)
  then show "log_quiet (demo_log D)"
    by (simp add: log_quiet_def tx_open_def log_ok_def tx_blocks_def c d LOGSIZE_def NBUF_def)
  show "view_of (demo_log D) = D" using bc.idle_clean[OF d(1)] d by (intro ext) simp
qed

lemma demo_log_rebooted: "rebooted (demo_log zero_disk) zero_disk (demo_log zero_disk)"
  using demo_log_inv[of zero_disk, simplified] by (simp add: rebooted_def)


end
