(* ===== verification/Alloc.thy ===== *)
theory Alloc
  imports Inode Transaction
begin

text \<open>
  The block allocator inside a transaction.  \<open>balloc\<close> and \<open>bfree\<close> are run on states in which a
  transaction is open, on top of what \<open>Transaction\<close> shows for a logged update of a block.
\<close>

section \<open>Bits of a bitmap block\<close>

lemma bit_used_iff: "bit_used bs bi \<longleftrightarrow> bit (bs ! (bi div 8)) (bi mod 8)"
  by (simp add: bit_used_def and_exp_eq_0_iff_not_bit)

lemma same_bit: "(bi div 8 = bj div 8 \<and> bi mod 8 = bj mod 8) = (bi = bj)" for bi bj :: nat
  by (metis div_mult_mod_eq)

lemma set_used_bit:
  assumes "bi < 8 * length bs"
  shows "bit_used (set_used bi bs) bj \<longleftrightarrow> bj = bi \<or> bit_used bs bj"
proof -
  have "bi div 8 < length bs" "bi mod 8 < 8" using assms by (simp_all add: div_less_iff_less_mult mult.commute)
  then show ?thesis
    using same_bit[of bi bj] by (cases "bi div 8 = bj div 8") (auto simp: bit_used_iff set_used_def bit_simps)
qed

lemma set_unused_bit:
  assumes "bi < 8 * length bs"
  shows "bit_used (set_unused bi bs) bj \<longleftrightarrow> bj \<noteq> bi \<and> bit_used bs bj"
proof -
  have "bi div 8 < length bs" "bi mod 8 < 8" "bj mod 8 < 8" using assms by (simp_all add: div_less_iff_less_mult mult.commute)
  then show ?thesis
    using same_bit[of bi bj] by (cases "bi div 8 = bj div 8") (auto simp: bit_used_iff set_unused_def bit_simps)
qed

lemma set_unused_used:
  assumes "bi < 8 * length bs" and "\<not> bit_used bs bi"
  shows "set_unused bi (set_used bi bs) = bs"
proof (rule nth_equalityI)
  fix k assume "k < length (set_unused bi (set_used bi bs))"
  then have k: "k < length bs" by (simp add: set_used_def set_unused_def)
  show "set_unused bi (set_used bi bs) ! k = bs ! k"
  proof (cases "k = bi div 8")
    case True
    have "(bs ! k OR push_bit (bi mod 8) 1) AND NOT (push_bit (bi mod 8) 1) = bs ! k"
      using assms(2) unfolding True by (intro bit_word_eqI) (auto simp: bit_simps bit_used_iff)
    then show ?thesis using True k by (simp add: set_used_def set_unused_def)
  qed (simp add: set_used_def set_unused_def)
qed (simp add: set_used_def set_unused_def)

lemma length_set_used [simp]: "length (set_used bi bs) = length bs" "length (set_unused bi bs) = length bs"
  by (simp_all add: set_used_def set_unused_def)

text \<open>The scan finds the first clear bit below the limit.\<close>

lemma bit_scan_spec:
  assumes "bi + n \<le> 4096" and "unat lim \<le> 4096"
  shows "bit_scan n bi 0 lim bs = find (\<lambda>k. \<not> bit_used bs k) [bi..<min (bi + n) (unat lim)]"
  using assms
proof (induction n arbitrary: bi)
  case (Suc n)
  have lt: "(of_nat bi :: u32) < lim \<longleftrightarrow> bi < unat lim"
    using Suc.prems by (simp add: word_less_nat_alt unat_of_nat)
  show ?case
  proof (cases "bi < unat lim")
    case True
    then have "[bi..<min (bi + Suc n) (unat lim)] = bi # [Suc bi..<min (Suc bi + n) (unat lim)]"
      by (simp add: upt_conv_Cons)
    then show ?thesis using Suc True lt by simp
  qed (use lt in simp)
qed simp

section \<open>Steps of a transaction\<close>

text \<open>A step of an open transaction: it may change the cached blocks and the header in memory.\<close>

definition tx_step :: "'a lstate_scheme \<Rightarrow> 'a lstate_scheme \<Rightarrow> bool" where
  "tx_step s t \<longleftrightarrow> tx_open t \<and> on_disk (ide t) = on_disk (ide s) \<and> ide_hist (ide t) = ide_hist (ide s) \<and> balanced s t \<and>
     mem t = mem s \<and> log_dev t = log_dev s \<and> log_start t = log_start s \<and> log_outstanding t = log_outstanding s \<and>
     log_committing t = log_committing s \<and> lstate.more t = lstate.more s"

lemma tx_step_trans: "tx_step s t \<Longrightarrow> tx_step t u \<Longrightarrow> tx_step s u"
  by (auto simp: tx_step_def intro: balanced_trans)

lemma tx_open_idle: "tx_open s \<Longrightarrow> bc.idle s"
  using tx_open_pins[of s] by (simp add: tx_open_def bc.idle_def)

lemma tx_step_frame:
  assumes tx: "tx_open s" and "bc.idle t" "pinned (bufs t) = pinned (bufs s)" "on_disk (ide t) = on_disk (ide s)"
    "ide_hist (ide t) = ide_hist (ide s)" and fr: "disk_frame s t"
  shows "tx_step s t" "tx_blocks t = tx_blocks s"
proof -
  note l = log_fields[OF fr]
  have b: "balanced s t" "mem t = mem s" using fr by (simp_all add: disk_frame_def)
  show tb: "tx_blocks t = tx_blocks s" using l by (simp add: tx_blocks_def)
  have "log_ok t" using tx l by (simp add: tx_open_def log_ok_def)
  then have "tx_open t" using tx assms(2-4) l tb balanced_lock_free[OF b(1)] by (simp add: tx_open_def bc.idle_def)
  then show "tx_step s t" using assms l b by (simp add: tx_step_def)
qed

text \<open>The next block of a transaction: \<open>room_for\<close> says that the log has a slot for it.\<close>

definition room_for :: "u32 \<Rightarrow> 'a lstate_scheme \<Rightarrow> bool" where
  "room_for bn s \<longleftrightarrow> bn \<in> set (tx_blocks s) \<or> Suc (length (tx_blocks s)) < NBUF"

definition with_block :: "u32 \<Rightarrow> u32 list \<Rightarrow> u32 list" where
  "with_block bn bl = (if bn \<in> set bl then bl else bl @ [bn])"

lemma read_block:
  fixes s :: "'a lstate_scheme"
  assumes tx: "tx_open s" and q: "dev < 2" "bn < 1000"
  obtains b s1 t where "bread dev bn s = Ret b s1" "b_data (bufs s1 ! b) = view_of s (unat dev, unat bn)"
    "brelse b s1 = Ret () t" "tx_step s t" "view_of t = view_of s" "tx_blocks t = tx_blocks s" "lstate.more s1 = lstate.more s"
proof -
  have r: "card (pinned (bufs s)) < NBUF" using tx_open_pins[OF tx] by simp
  obtain b s1 t where p: "bread dev bn s = Ret b s1" "b_data (bufs s1 ! b) = view_of s (unat dev, unat bn)"
    "brelse b s1 = Ret () t" "bc.idle t" "view_of t = view_of s" "on_disk (ide t) = on_disk (ide s)"
    "pinned (bufs t) = pinned (bufs s)" "ide_hist (ide t) = ide_hist (ide s)" "disk_frame s t" "disk_frame s s1"
    by (rule bc.peek[OF tx_open_idle[OF tx] r q])
  show thesis by (rule that[OF p(1-3) tx_step_frame(1)[OF tx p(4,7,6,8,9)] p(5) tx_step_frame(2)[OF tx p(4,7,6,8,9)]
    log_fields(8)[OF p(10)]])
qed

lemma update_block:
  fixes s :: "'a lstate_scheme"
  assumes tx: "tx_open s" and home: "home_block (log_start s) bn" and room: "room_for bn s"
    and rd: "bread (log_dev s) bn s = Ret b s1" and f: "\<And>bs. length bs = BSIZE \<Longrightarrow> length (f bs) = BSIZE"
  obtains t where "bnd (log_write b (upd_data b f s1)) (\<lambda>_ s. brelse b s) = Ret () t" "tx_step s t"
    "view_of t = (view_of s)((unat (log_dev s), unat bn) := f (view_of s (unat (log_dev s), unat bn)))"
    "tx_blocks t = with_block bn (tx_blocks s)"
proof -
  have c: "length (tx_blocks s) = lh_count s" using tx length_tx_blocks by (auto simp: tx_open_def)
  then have room': "bn \<in> set (tx_blocks s) \<or> Suc (lh_count s) < NBUF" using room by (simp add: room_for_def)
  obtain t where t: "logged_update (log_dev s) bn f s = Ret () t" "tx_open t"
    "view_of t = (view_of s)((unat (log_dev s), unat bn) := f (view_of s (unat (log_dev s), unat bn)))"
    "on_disk (ide t) = on_disk (ide s)" "ide_hist (ide t) = ide_hist (ide s)" "balanced s t" "mem t = mem s"
    "log_dev t = log_dev s" "log_start t = log_start s" "log_outstanding t = log_outstanding s"
    "log_committing t = log_committing s" "lstate.more t = lstate.more s"
    "tx_blocks t = (if bn \<in> set (tx_blocks s) then tx_blocks s else tx_blocks s @ [bn])"
    by (rule logged_update_run[OF tx home f room'])
  show thesis
    by (rule that[of t]) (use t rd in \<open>simp_all add: logged_update_def upd_data_def tx_step_def with_block_def\<close>)
qed

lemma readsb_run:
  fixes s :: "'a lstate_scheme"
  assumes tx: "tx_open s" and dev: "dev < 2"
  obtains t where "readsb dev s = Ret (superblock_of (view_of s (unat dev, 1))) t" "tx_step s t" "view_of t = view_of s"
    "tx_blocks t = tx_blocks s"
proof -
  obtain b s1 t where p: "bread dev 1 s = Ret b s1" "b_data (bufs s1 ! b) = view_of s (unat dev, unat (1 :: u32))"
    "brelse b s1 = Ret () t" "tx_step s t" "view_of t = view_of s" "tx_blocks t = tx_blocks s"
    by (rule read_block[OF tx dev, of 1]) simp_all
  show thesis by (rule that[of t]) (use p in \<open>simp_all add: readsb_def\<close>)
qed

section \<open>Allocating and freeing blocks\<close>

text \<open>
  A file system with one bitmap block, as \<open>mkfs\<close> makes it: at most 1000 blocks, and every
  block that is not a home block (those of the log) is marked as used.
\<close>

definition fs_sb :: "'a lstate_scheme \<Rightarrow> superblock" where
  "fs_sb s = superblock_of (view_of s (unat (log_dev s), 1))"

definition bitmap_block :: "'a lstate_scheme \<Rightarrow> u32" where
  "bitmap_block s = BBLOCK 0 (sb_ninodes (fs_sb s))"

definition bitmap :: "'a lstate_scheme \<Rightarrow> byte list" where
  "bitmap s = view_of s (unat (log_dev s), unat (bitmap_block s))"

definition fs_ok :: "'a lstate_scheme \<Rightarrow> bool" where
  "fs_ok s \<longleftrightarrow> sb_size (fs_sb s) \<le> 1000 \<and> home_block (log_start s) (bitmap_block s) \<and>
     (\<forall>b < unat (sb_size (fs_sb s)). \<not> bit_used (bitmap s) b \<longrightarrow> home_block (log_start s) (of_nat b))"

definition free_block :: "'a lstate_scheme \<Rightarrow> nat option" where
  "free_block s = find (\<lambda>k. \<not> bit_used (bitmap s) k) [0..<unat (sb_size (fs_sb s))]"

lemma bzero_run:
  fixes s :: "'a lstate_scheme"
  assumes tx: "tx_open s" and home: "home_block (log_start s) bn" and room: "room_for bn s"
  obtains t where "bzero (log_dev s) bn s = Ret () t" "tx_step s t"
    "view_of t = (view_of s)((unat (log_dev s), unat bn) := replicate BSIZE 0)" "tx_blocks t = with_block bn (tx_blocks s)"
proof -
  have q: "log_dev s < 2" "bn < 1000" using tx home by (simp_all add: tx_open_def log_ok_def home_block_def)
  obtain b s1 where r: "bread (log_dev s) bn s = Ret b s1" using read_block[OF tx q] by metis
  obtain t where t: "bnd (log_write b (upd_data b (\<lambda>_. replicate BSIZE 0) s1)) (\<lambda>_ s. brelse b s) = Ret () t" "tx_step s t"
    "view_of t = (view_of s)((unat (log_dev s), unat bn) := replicate BSIZE 0)" "tx_blocks t = with_block bn (tx_blocks s)"
    by (rule update_block[OF tx home room r, where f = "\<lambda>_. replicate BSIZE 0"]) simp_all
  show thesis by (rule that[of t]) (use t r in \<open>simp_all add: bzero_def\<close>)
qed

lemma length_with_block: "length (with_block b bl) \<le> Suc (length bl)"
  by (simp add: with_block_def)

lemma balloc_run:
  fixes s :: "'a lstate_scheme"
  assumes tx: "tx_open s" and fs: "fs_ok s" and room: "length (tx_blocks s) + 2 < NBUF"
  shows "case free_block s of None \<Rightarrow> balloc (log_dev s) s = Panic ''balloc: out of blocks''
    | Some k \<Rightarrow> \<exists>t. balloc (log_dev s) s = Ret (of_nat k) t \<and> tx_step s t \<and>
        view_of t = (view_of s)((unat (log_dev s), unat (bitmap_block s)) := set_used k (bitmap s),
          (unat (log_dev s), k) := replicate BSIZE 0) \<and>
        tx_blocks t = with_block (of_nat k) (with_block (bitmap_block s) (tx_blocks s))"
proof -
  let ?sb = "fs_sb s" and ?dev = "log_dev s" and ?bb = "bitmap_block s"
  have sz: "unat (sb_size ?sb) \<le> 1000" and hb: "home_block (log_start s) ?bb"
    using fs by (simp_all add: fs_ok_def word_le_nat_alt)
  have dev: "?dev < 2" using tx by (simp add: tx_open_def log_ok_def)
  obtain s1 where s1: "readsb ?dev s = Ret ?sb s1" "tx_step s s1" "view_of s1 = view_of s" "tx_blocks s1 = tx_blocks s"
    using readsb_run[OF tx dev] unfolding fs_sb_def by metis
  have e1: "tx_open s1" "log_dev s1 = ?dev" "log_start s1 = log_start s" using s1(2) by (simp_all add: tx_step_def)
  have fuel: "unat (sb_size ?sb) div BPB = 0" using sz by (simp add: BPB_def)
  have bal: "balloc ?dev s = balloc_loop (Suc (Suc 0)) 0 ?dev ?sb s1" unfolding balloc_def s1(1) by (simp add: fuel del: balloc_loop.simps)
  have bbn: "?bb < 1000" using hb by (simp add: home_block_def)
  obtain b s2 s3 where r: "bread ?dev ?bb s1 = Ret b s2" "b_data (bufs s2 ! b) = bitmap s" "brelse b s2 = Ret () s3"
    using read_block[OF e1(1) dev bbn] unfolding bitmap_def s1(3) by metis
  have scan: "bit_scan BPB 0 0 (sb_size ?sb) (bitmap s) = free_block s"
    using bit_scan_spec[of 0 BPB "sb_size ?sb" "bitmap s"] sz by (simp add: BPB_def free_block_def min_def)
  show ?thesis
  proof (cases "free_block s")
    case None
    have "\<not> (of_nat BPB :: u32) < sb_size ?sb" using sz by (simp add: word_less_nat_alt BPB_def)
    moreover have "balloc_loop (Suc (Suc 0)) 0 ?dev ?sb s1 =
        (if \<not> 0 < sb_size ?sb then Panic ''balloc: out of blocks'' else balloc_loop (Suc 0) (of_nat BPB) ?dev ?sb s3)"
      using r scan None by (simp add: bitmap_block_def del: balloc_loop.simps(2)) (simp add: balloc_loop.simps(2)[of "Suc 0"])
    ultimately show ?thesis using None bal by simp
  next
    case (Some k)
    then have k: "k < unat (sb_size ?sb)" "\<not> bit_used (bitmap s) k" by (auto simp: free_block_def find_Some_iff)
    have uk: "unat (of_nat k :: u32) = k" using k(1) sz by (simp add: unat_of_nat)
    have pos: "0 < sb_size ?sb" using k(1) by (simp add: word_less_nat_alt)
    have room1: "room_for ?bb s1" using room s1(4) by (simp add: room_for_def)
    have hb1: "home_block (log_start s1) ?bb" using hb e1 by simp
    have r1: "bread (log_dev s1) ?bb s1 = Ret b s2" using r(1) e1(2) by simp
    obtain t1 where t1: "bnd (log_write b (upd_data b (set_used k) s2)) (\<lambda>_ s. brelse b s) = Ret () t1" "tx_step s1 t1"
      "view_of t1 = (view_of s)((unat ?dev, unat ?bb) := set_used k (bitmap s))" "tx_blocks t1 = with_block ?bb (tx_blocks s)"
      using update_block[OF e1(1) hb1 room1 r1, where f = "set_used k"] s1(3,4) e1 by (auto simp: bitmap_def)
    have e2: "tx_open t1" "log_dev t1 = ?dev" "log_start t1 = log_start s" using t1(2) e1 by (simp_all add: tx_step_def)
    have hk: "home_block (log_start t1) (of_nat k)" using fs k e2(3) by (simp add: fs_ok_def)
    have room2: "room_for (of_nat k) t1"
      using room t1(4) length_with_block[of ?bb "tx_blocks s"] by (simp add: room_for_def)
    obtain t where t: "bzero (log_dev t1) (of_nat k) t1 = Ret () t" "tx_step t1 t"
      "view_of t = (view_of t1)((unat (log_dev t1), unat (of_nat k :: u32)) := replicate BSIZE 0)"
      "tx_blocks t = with_block (of_nat k) (tx_blocks t1)"
      by (rule bzero_run[OF e2(1) hk room2])
    obtain x where x: "log_write b (upd_data b (set_used k) s2) = Ret () x" "brelse b x = Ret () t1"
      using t1(1) by (cases "log_write b (upd_data b (set_used k) s2)") auto
    have "balloc ?dev s = Ret (of_nat k) t"
      unfolding bal using r(1,2) scan Some pos x t(1) e2(2) by (simp add: bitmap_block_def)
    moreover have "tx_step s t" using s1(2) t1(2) t(2) by (blast intro: tx_step_trans)
    ultimately show ?thesis using Some t1(3,4) t(3,4) uk e2(2) by auto
  qed
qed

lemma BBLOCK_small:
  assumes "b < 4096"
  shows "BBLOCK b n = BBLOCK 0 n"
proof -
  have "b div of_nat BPB = 0" using assms by (simp add: BPB_def word_less_nat_alt word_unat_eq_iff unat_div)
  then show ?thesis by (simp add: BBLOCK_def)
qed

lemma bfree_run:
  fixes s :: "'a lstate_scheme"
  assumes tx: "tx_open s" and hb: "home_block (log_start s) (bitmap_block s)" and room: "room_for (bitmap_block s) s" and k: "k < 1000"
  shows "if bit_used (bitmap s) k
    then \<exists>t. bfree (log_dev s) (of_nat k) s = Ret () t \<and> tx_step s t \<and>
        view_of t = (view_of s)((unat (log_dev s), unat (bitmap_block s)) := set_unused k (bitmap s)) \<and>
        tx_blocks t = with_block (bitmap_block s) (tx_blocks s)
    else bfree (log_dev s) (of_nat k) s = Panic ''freeing free block''"
proof -
  let ?dev = "log_dev s" and ?bb = "bitmap_block s"
  have dev: "?dev < 2" "?bb < 1000" using tx hb by (simp_all add: tx_open_def log_ok_def home_block_def)
  obtain s1 where s1: "readsb ?dev s = Ret (fs_sb s) s1" "tx_step s s1" "view_of s1 = view_of s" "tx_blocks s1 = tx_blocks s"
    using readsb_run[OF tx dev(1)] unfolding fs_sb_def by metis
  have e1: "tx_open s1" "log_dev s1 = ?dev" "log_start s1 = log_start s" using s1(2) by (simp_all add: tx_step_def)
  have "(of_nat k :: u32) < 4096" using k by (simp add: word_less_nat_alt unat_of_nat)
  then have blk: "BBLOCK (of_nat k) (sb_ninodes (fs_sb s)) = ?bb" unfolding bitmap_block_def by (rule BBLOCK_small)
  have bi: "unat (of_nat k :: u32) mod BPB = k" using k by (simp add: unat_of_nat BPB_def)
  obtain b s2 where r: "bread ?dev ?bb s1 = Ret b s2" "b_data (bufs s2 ! b) = bitmap s"
    using read_block[OF e1(1) dev] unfolding bitmap_def s1(3) by metis
  have r1: "bread (log_dev s1) ?bb s1 = Ret b s2" and h1: "home_block (log_start s1) ?bb" and m1: "room_for ?bb s1"
    using r(1) e1 hb room s1(4) by (simp_all add: room_for_def)
  have step: "bfree ?dev (of_nat k) s = (if \<not> bit_used (bitmap s) k then Panic ''freeing free block''
      else bnd (log_write b (upd_data b (set_unused k) s2)) (\<lambda>_ s. brelse b s))"
    using s1(1) r blk bi by (simp add: bfree_def)
  obtain t where t: "bnd (log_write b (upd_data b (set_unused k) s2)) (\<lambda>_ s. brelse b s) = Ret () t" "tx_step s1 t"
    "view_of t = (view_of s)((unat ?dev, unat ?bb) := set_unused k (bitmap s))" "tx_blocks t = with_block ?bb (tx_blocks s)"
    using update_block[OF e1(1) h1 m1 r1, where f = "set_unused k"] s1(3,4) e1 by (auto simp: bitmap_def)
  have "tx_step s t" using s1(2) t(2) by (rule tx_step_trans)
  then show ?thesis using step t by auto
qed

text \<open>The superblock and the bitmap are themselves marked as used.\<close>

definition meta_used :: "'a lstate_scheme \<Rightarrow> bool" where
  "meta_used s \<longleftrightarrow> bit_used (bitmap s) 1 \<and> bit_used (bitmap s) (unat (bitmap_block s)) \<and> bitmap_block s \<noteq> 1"



text \<open>A file system of 1000 blocks in which only block 496 is free.\<close>

definition demo_bitmap :: "byte list" where
  "demo_bitmap = set_unused 496 (replicate BSIZE 255)"

definition demo_disk :: blocks where
  "demo_disk = (\<lambda>_. replicate BSIZE 0)
     ((1, 1) := bytes32 1000 @ bytes32 941 @ bytes32 200 @ bytes32 30 @ replicate 496 0, (1, 28) := demo_bitmap)"

lemma demo_bit: "j < 4096 \<Longrightarrow> bit_used demo_bitmap j \<longleftrightarrow> j \<noteq> 496"
proof -
  assume "j < 4096"
  then have d: "j div 8 < 512" "j mod 8 < 8" by (simp_all add: div_less_iff_less_mult)
  have "bit (255 :: byte) n" if "n < 8" for n
  proof -
    have e: "(255 :: byte) = mask 8" by (simp add: mask_eq_exp_minus_1)
    show ?thesis unfolding e bit_mask_iff using that by simp
  qed
  then have "bit_used (replicate BSIZE 255) j" using d by (simp add: bit_used_iff BSIZE_def)
  then show ?thesis using set_unused_bit[of 496 "replicate BSIZE 255" j] by (simp add: demo_bitmap_def BSIZE_def)
qed

lemma demo_alloc:
  "tx_open (demo_log demo_disk)" "fs_ok (demo_log demo_disk)" "meta_used (demo_log demo_disk)" "tx_blocks (demo_log demo_disk) = []"
  "log_dev (demo_log demo_disk) = 1" "free_block (demo_log demo_disk) = Some 496" "\<not> bit_used (bitmap (demo_log demo_disk)) 496"
proof -
  let ?s = "demo_log demo_disk"
  have len: "length (demo_disk q) = BSIZE" for q by (simp add: demo_disk_def demo_bitmap_def BSIZE_def)
  have z: "demo_disk (1, 900) = replicate BSIZE 0" by (simp add: demo_disk_def)
  note d = demo_log_inv[of demo_disk, OF len]
  note q = demo_log_quiet[of demo_disk, OF len z]
  show tx: "tx_open ?s" and dev: "log_dev ?s = 1" using q(1) d(8) by (simp_all add: log_quiet_def)
  show "tx_blocks ?s = []" by (simp add: tx_blocks_def lh_count_def d)
  have "fs_sb ?s = superblock_of (demo_disk (1, 1))" by (simp add: fs_sb_def q(2) dev)
  moreover have "sb_size (superblock_of (demo_disk (1, 1))) = 1000" "sb_ninodes (superblock_of (demo_disk (1, 1))) = 200"
    by (simp_all add: demo_disk_def superblock_of_def get32_def bytes32_def)
  ultimately have sb: "sb_size (fs_sb ?s) = 1000" "sb_ninodes (fs_sb ?s) = 200" by simp_all
  have bb: "bitmap_block ?s = 28" by (simp add: bitmap_block_def sb BBLOCK_def BPB_def IPB_def)
  have "bitmap ?s = demo_disk (1, 28)" by (simp add: bitmap_def bb dev q(2))
  then have bm: "bitmap ?s = demo_bitmap" by (simp add: demo_disk_def)
  show "meta_used ?s" by (simp add: meta_used_def bb bm demo_bit)
  have "home_block 900 (of_nat b)" if "b < 1000" "\<not> bit_used demo_bitmap b" for b
    using that demo_bit[of b] by (simp add: home_block_def)
  then show "fs_ok ?s" using d(7) by (simp add: fs_ok_def sb bb bm home_block_def)
  show "free_block ?s = Some 496"
    by (auto simp: free_block_def sb bm find_Some_iff demo_bit intro!: exI[of _ 496])
  show "\<not> bit_used (bitmap ?s) 496" by (simp add: bm demo_bit)
qed



end
