(* ===== verification/Icache.thy ===== *)
theory Icache
  imports Alloc
begin

text \<open>
  The inode cache: an inode written by \<open>iupdate\<close> is read back by \<open>ilock\<close>, and \<open>iget\<close>
  keeps at most one slot for an inode.
\<close>

section \<open>Frame lemmas\<close>

lemma upd_inode_fields [simp]:
  "inodes (upd_inode i f s) = (inodes s)[i := f (inodes s ! i)]" "bufs (upd_inode i f s) = bufs s" "ide (upd_inode i f s) = ide s"
  "mem (upd_inode i f s) = mem s" "ptable (upd_inode i f s) = ptable s" "log_dev (upd_inode i f s) = log_dev s"
  "log_start (upd_inode i f s) = log_start s" "lh_n (upd_inode i f s) = lh_n s" "lh_block (upd_inode i f s) = lh_block s"
  "idequeue (upd_inode i f s) = idequeue s" "havedisk1 (upd_inode i f s) = havedisk1 s"
  "balanced u (upd_inode i f s) = balanced u s" "within l v (upd_inode i f s) = within l v s"
  "lock_free l (upd_inode i f s) = lock_free l s" "cpu_wf (upd_inode i f s) = cpu_wf s" "bc_inv (upd_inode i f s) = bc_inv s"
  by (simp_all add: upd_inode_def balanced_def within_def lock_free_def cpu_wf_def bc_inv_def bc_ready_def ide_ready_def)

lemma tx_upd_inode [simp]:
  "tx_open (upd_inode i f s) = tx_open s" "tx_blocks (upd_inode i f s) = tx_blocks s" "room_for b (upd_inode i f s) = room_for b s"
proof -
  have c: "lh_count (upd_inode i f s) = lh_count s" by (simp add: lh_count_def)
  then show tb: "tx_blocks (upd_inode i f s) = tx_blocks s" by (simp add: tx_blocks_def)
  then show "room_for b (upd_inode i f s) = room_for b s" by (simp add: room_for_def)
  show "tx_open (upd_inode i f s) = tx_open s" using c tb by (simp add: tx_open_def log_ok_def)
qed

lemma istate_lock_fields [simp]:
  "inodes (lock_taken l s) = inodes s" "inodes (lock_dropped l s) = inodes s" for s :: "'a istate_scheme"
  by (simp_all add: lock_unfolds)

lemma more_inodes: "lstate.more t = lstate.more s \<Longrightarrow> inodes t = inodes s" for s t :: "'a istate_scheme"
  by (cases s; cases t) simp

section \<open>Writing and reading inodes\<close>

definition inode_key :: "u32 \<Rightarrow> u32 \<Rightarrow> key" where
  "inode_key dev inum = (unat dev, unat (IBLOCK inum))"

lemma ioff_fits: "ioff inum + DINODE \<le> BSIZE"
proof -
  have "unat inum mod 8 < 8" by simp
  then show ?thesis by (simp add: ioff_def DINODE_def IPB_def BSIZE_def)
qed

lemma iupdate_run:
  fixes s :: "'a istate_scheme" and i :: nat
  defines "ip \<equiv> inodes s ! i"
  assumes tx: "tx_open s" and dev: "i_dev ip = log_dev s" and home: "home_block (log_start s) (IBLOCK (i_inum ip))"
    and room: "room_for (IBLOCK (i_inum ip)) s" and len: "length (i_addrs ip) = NDIRECT + 1"
  obtains t where "iupdate i s = Ret () t" "tx_step s t"
    "view_of t = (view_of s)(inode_key (i_dev ip) (i_inum ip) :=
       put_dinode (i_inum ip) (dinode_of ip) (view_of s (inode_key (i_dev ip) (i_inum ip))))"
proof -
  have q: "log_dev s < 2" "IBLOCK (i_inum ip) < 1000" using tx home by (simp_all add: tx_open_def log_ok_def home_block_def)
  obtain b s1 where r: "bread (log_dev s) (IBLOCK (i_inum ip)) s = Ret b s1" "lstate.more s1 = lstate.more s"
    using read_block[OF tx q] by metis
  let ?f = "put_dinode (i_inum ip) (dinode_of ip)"
  have lf: "length (?f bs) = BSIZE" if "length bs = BSIZE" for bs
    using that len ioff_fits[of "i_inum ip"] by (simp add: put_dinode_def dinode_of_def)
  obtain t where t: "bnd (log_write b (upd_data b ?f s1)) (\<lambda>_ s. brelse b s) = Ret () t" "tx_step s t"
    "view_of t = (view_of s)((unat (log_dev s), unat (IBLOCK (i_inum ip))) := ?f (view_of s (unat (log_dev s), unat (IBLOCK (i_inum ip)))))"
    by (rule update_block[where f = ?f, OF tx home room r(1) lf])
  have "inodes s1 ! i = ip" using more_inodes[OF r(2)] by (simp add: ip_def)
  then have "iupdate i s = Ret () t" using r(1) t(1) dev by (simp add: iupdate_def flip: ip_def)
  then show thesis using that[of t] t dev by (simp add: inode_key_def)
qed

lemma ilock_run:
  fixes s :: "'a istate_scheme" and i :: nat
  defines "ip \<equiv> inodes s ! i"
  defines "d \<equiv> dinode_at (view_of s (inode_key (i_dev ip) (i_inum ip))) (ioff (i_inum ip))"
  assumes tx: "tx_open s" and q: "i_dev ip < 2" "IBLOCK (i_inum ip) < 1000" and i: "i < length (inodes s)"
    and ref: "\<not> slt (i_ref ip) 1" and st: "\<not> i_busy ip" "\<not> i_valid ip" and ty: "di_type d \<noteq> 0" and free: "lock_free L_icache s"
  shows "\<exists>t. ilock (Some i) s = Ret () t \<and> tx_open t \<and> view_of t = view_of s \<and>
     inodes t = (inodes s)[i := (load_dinode d (ip\<lparr>i_busy := True\<rparr>))\<lparr>i_valid := True\<rparr>]"
proof -
  have inv: "bc_inv s" using tx by (simp add: tx_open_def)
  have wf: "cpu_wf s" using bc_inv_data(2)[OF inv] by (simp add: bc_ready_def)
  let ?a = "upd_inode i (\<lambda>ip. ip\<lparr>i_busy := True\<rparr>) (lock_taken L_icache s)"
  let ?s = "lock_dropped L_icache ?a"
  have w: "within L_icache s ?a" by simp
  have bal: "balanced s ?s" by (rule within_balanced[OF w wf free])
  have txs: "tx_open ?s" by (rule tx_open_same[OF tx bal]) simp_all
  have o: "bc_inv ?s" "held (bufs ?s) = Map.empty" using txs by (simp_all add: tx_open_def)
  let ?q = "inode_key (i_dev ip) (i_inum ip)"
  obtain b s1 where 1: "bread (i_dev ip) (IBLOCK (i_inum ip)) ?s = Ret b s1" "bc_inv s1" "held (bufs s1) = [b \<mapsto> ?q]"
    "view_of s1 = view_of s" "on_disk (ide s1) = on_disk (ide s)" "pinned (bufs s1) = pinned (bufs s)"
    "ide_hist (ide s1) = ide_hist (ide s)" "disk_frame ?s s1"
    using bc.rd_law[OF o(1) q] tx_open_pins[OF txs] o(2) by (auto simp: inode_key_def)
  have g: "b_data (bufs s1 ! b) = view_of s ?q" using bc.get_sees[OF 1(2), of b ?q] 1 by simp
  have m1: "inodes s1 = inodes ?s" using more_inodes[OF log_fields(8)[OF 1(8)]] .
  let ?u = "upd_inode i (load_dinode d) s1"
  have safe: "?q \<in> pinned (bufs ?u) \<or> view_of ?u ?q = on_disk (ide ?u) ?q"
    using bc.idle_clean[OF o(1), of ?q] o(2) 1(4-6) by auto
  obtain t where t: "brelse b ?u = Ret () t" "bc_inv t" "held (bufs t) = Map.empty" "view_of t = view_of s"
    "on_disk (ide t) = on_disk (ide s)" "pinned (bufs t) = pinned (bufs s)" "ide_hist (ide t) = ide_hist (ide s)" "disk_frame ?u t"
    using bc.rel_law[OF _ _ safe, of b] 1 by auto
  have fin: "finite (pinned (bufs s))" using tx_open_pins[OF tx] by simp
  have mt: "inodes t = inodes ?u" using more_inodes[OF log_fields(8)[OF t(8)]] .
  let ?v = "upd_inode i (\<lambda>ip. ip\<lparr>i_valid := True\<rparr>) t"
  note lt = log_fields[OF t(8), simplified] and l1 = log_fields[OF 1(8), simplified]
  have "balanced ?s ?u" using 1(8) by (simp add: disk_frame_def)
  moreover have "balanced ?u t" using t(8) by (simp add: disk_frame_def)
  ultimately have b2: "balanced ?s t" by (rule balanced_trans)
  have lf: "log_dev t = log_dev ?s" "log_start t = log_start ?s" "lh_n t = lh_n ?s" "lh_block t = lh_block ?s"
    using lt l1 by simp_all
  then have c: "lh_count t = lh_count ?s" by (simp add: lh_count_def)
  have "tx_open t"
    using txs t lf c balanced_lock_free[OF b2] by (simp add: tx_open_def log_ok_def tx_blocks_def)
  have iv: "inodes ?v = (inodes s)[i := (load_dinode d (ip\<lparr>i_busy := True\<rparr>))\<lparr>i_valid := True\<rparr>]"
    using mt m1 i by (simp add: ip_def load_dinode_def)
  have "i_type (inodes ?v ! i) \<noteq> 0" using iv i ty by (simp add: load_dinode_def)
  moreover have "inodes ?s ! i = ip\<lparr>i_busy := True\<rparr>" using i by (simp add: ip_def)
  ultimately have "ilock (Some i) s = Ret () ?v"
    using ref st 1(1) g t(1) within_release[OF w wf] unfolding d_def ip_def
    by (simp add: ilock_def acquire_free[OF free])
  then show ?thesis using \<open>tx_open t\<close> t(4) iv by auto
qed

lemma ioff_apart:
  assumes "IBLOCK m = IBLOCK n" and "m \<noteq> n"
  shows "ioff m + DINODE \<le> ioff n \<or> ioff n + DINODE \<le> ioff m"
proof -
  have "m div 8 = n div 8" using assms(1) by (simp add: IBLOCK_def IPB_def)
  then have "unat (m div 8) = unat (n div 8)" by simp
  then have "unat m div 8 = unat n div 8" by (simp add: unat_div)
  then have "unat m mod 8 \<noteq> unat n mod 8" using assms(2) by (metis div_mult_mod_eq word_unat_eq_iff)
  then show ?thesis by (auto simp: ioff_def DINODE_def IPB_def)
qed


lemma tx_extend [simp]:
  "tx_open (lstate.extend s x) = tx_open s" "tx_blocks (lstate.extend s x) = tx_blocks s" "log_dev (lstate.extend s x) = log_dev s"
  "log_start (lstate.extend s x) = log_start s" "lock_free l (lstate.extend s x) = lock_free l s"
  "cpu_wf (lstate.extend s x) = cpu_wf s"
  by (simp_all add: lstate.defs tx_open_def log_ok_def lh_count_def tx_blocks_def bc_inv_def bc_ready_def ide_ready_def
      lock_free_def cpu_wf_def)

text \<open>A machine with an empty disk in which slot 0 of the inode cache holds inode 7 of device 1.\<close>

definition demo_inode :: inode where
  "demo_inode = zero_inode\<lparr>i_dev := 1, i_inum := 7, i_ref := 1, i_type := 2, i_nlink := 1, i_size := 5\<rparr>"

definition demo_icache :: istate where
  "demo_icache = lstate.extend (demo_log zero_disk) (istate.fields [demo_inode, zero_inode] (replicate NDEV No_dev))"

lemma demo_icache_fields:
  "inodes demo_icache = [demo_inode, zero_inode]" "tx_open demo_icache" "log_dev demo_icache = 1" "log_start demo_icache = 900"
  "tx_blocks demo_icache = []" "lock_free L_icache demo_icache" "cpu_wf demo_icache"
proof -
  note d = demo_log_inv[of zero_disk, simplified]
  have q: "log_quiet (demo_log zero_disk)" by (rule demo_log_quiet) simp_all
  then show "tx_open demo_icache" by (simp add: demo_icache_def log_quiet_def)
  show "inodes demo_icache = [demo_inode, zero_inode]" by (simp add: demo_icache_def lstate.defs istate.defs)
  show "log_dev demo_icache = 1" "log_start demo_icache = 900" by (simp_all add: demo_icache_def d)
  show "tx_blocks demo_icache = []" by (simp add: demo_icache_def) (simp add: tx_blocks_def lh_count_def d)
  show "lock_free L_icache demo_icache" "cpu_wf demo_icache"
    using bc_inv_data(2)[OF d(1)] d(5) by (simp_all add: demo_icache_def bc_ready_def)
qed


section \<open>One slot for an inode\<close>

definition caches :: "u32 \<Rightarrow> u32 \<Rightarrow> inode \<Rightarrow> bool" where
  "caches dev inum ip \<longleftrightarrow> slt 0 (i_ref ip) \<and> i_dev ip = dev \<and> i_inum ip = inum"

definition icache_ok :: "inode list \<Rightarrow> bool" where
  "icache_ok ips \<longleftrightarrow> (\<forall>dev inum. \<forall>i < length ips. \<forall>j < length ips.
     caches dev inum (ips ! i) \<and> caches dev inum (ips ! j) \<longrightarrow> i = j)"

lemma iget_scan_hit:
  "iget_scan dev inum k e ips = Inl j \<Longrightarrow> k \<le> j \<and> j < k + length ips \<and> caches dev inum (ips ! (j - k))"
proof (induction ips arbitrary: k e)
  case (Cons ip ips)
  then show ?case
    by (cases "caches dev inum ip") (force simp: caches_def nth_Cons' split: if_splits)+
qed simp

lemma iget_scan_miss:
  "iget_scan dev inum k e ips = Inr f \<Longrightarrow> (\<forall>ip \<in> set ips. \<not> caches dev inum ip) \<and>
     (case e of Some x \<Rightarrow> f = e
      | None \<Rightarrow> (case f of None \<Rightarrow> \<forall>ip \<in> set ips. i_ref ip \<noteq> 0
                | Some j \<Rightarrow> k \<le> j \<and> j < k + length ips \<and> i_ref (ips ! (j - k)) = 0 \<and> (\<forall>m < j - k. i_ref (ips ! m) \<noteq> 0)))"
proof (induction ips arbitrary: k e)
  case (Cons ip ips)
  have c: "\<not> caches dev inum ip" using Cons.prems by (auto simp: caches_def split: if_splits)
  note IH = Cons.IH[of "Suc k" "if e = None \<and> i_ref ip = 0 then Some k else e"]
  show ?case
  proof (cases "e = None \<and> i_ref ip \<noteq> 0")
    case True
    then show ?thesis using c Cons.prems IH
      by (auto simp: caches_def nth_Cons' Suc_le_eq less_Suc_eq_0_disj split: option.splits if_splits)
  next
    case False
    then show ?thesis using c Cons.prems IH by (auto simp: caches_def split: option.splits if_splits)
  qed
qed (auto split: option.splits)

lemma icache_ok_update:
  assumes "icache_ok ips" and "\<And>j. j < length ips \<Longrightarrow> j \<noteq> i \<Longrightarrow> \<not> caches (i_dev ip) (i_inum ip) (ips ! j)"
  shows "icache_ok (ips[i := ip])"
proof -
  have ip: "i_dev ip = dev" "i_inum ip = inum" if "caches dev inum ip" for dev inum using that by (simp_all add: caches_def)
  have "a = b" if a: "a < length ips" "caches dev inum (ips[i := ip] ! a)" and b: "b < length ips" "caches dev inum (ips[i := ip] ! b)"
    for dev inum a b
    using a b ip[of dev inum] assms(2)[of a] assms(2)[of b] assms(1)[unfolded icache_ok_def, rule_format, of a b dev inum]
    by (cases "a = i"; cases "b = i") simp_all
  then show ?thesis unfolding icache_ok_def length_list_update by blast
qed

text \<open>C31: The inode cache has one slot for an inode.  If no two slots in use are for the
  same inode, then \<open>iget\<close> returns a slot that it alone changes and after which the same
  holds: the slot that caches the inode, with one more reference, or else the first free
  slot, with one reference, neither busy nor valid.  It panics only when no slot caches the inode
  and none is free.\<close>
theorem iget_one_slot:
  fixes s :: "'a istate_scheme"
  assumes free: "lock_free L_icache s" and wf: "cpu_wf s" and ok: "icache_ok (inodes s)"
  shows "if (\<exists>ip \<in> set (inodes s). caches dev inum ip \<or> i_ref ip = 0)
    then \<exists>i t ip. iget dev inum s = Ret i t \<and> i < length (inodes s) \<and> inodes t = (inodes s)[i := ip] \<and> icache_ok (inodes t) \<and>
           balanced s t \<and> i_dev ip = dev \<and> i_inum ip = inum \<and>
           (if \<exists>ip \<in> set (inodes s). caches dev inum ip
            then caches dev inum (inodes s ! i) \<and> ip = (inodes s ! i)\<lparr>i_ref := i_ref (inodes s ! i) + 1\<rparr>
            else i_ref (inodes s ! i) = 0 \<and> (\<forall>j < i. i_ref (inodes s ! j) \<noteq> 0) \<and> i_ref ip = 1 \<and> \<not> i_busy ip \<and> \<not> i_valid ip)
    else iget dev inum s = Panic ''iget: no inodes''"
proof -
  let ?ips = "inodes s" and ?a = "lock_taken L_icache s"
  have r: "release L_icache (upd_inode i f ?a) = Ret () (lock_dropped L_icache (upd_inode i f ?a))"
    "balanced s (lock_dropped L_icache (upd_inode i f ?a))" for i f
  proof -
    have w: "within L_icache s (upd_inode i f ?a)" by simp
    show "release L_icache (upd_inode i f ?a) = Ret () (lock_dropped L_icache (upd_inode i f ?a))" by (rule within_release[OF w wf])
    show "balanced s (lock_dropped L_icache (upd_inode i f ?a))" by (rule within_balanced[OF w wf free])
  qed
  show ?thesis
  proof (cases "iget_scan dev inum 0 None ?ips")
    case (Inl i)
    note h = iget_scan_hit[OF Inl]
    let ?ip = "(?ips ! i)\<lparr>i_ref := i_ref (?ips ! i) + 1\<rparr>"
    have c: "caches dev inum (?ips ! i)" "i < length ?ips" using h by simp_all
    then have x: "\<exists>ip \<in> set ?ips. caches dev inum ip" using nth_mem by blast
    have ip: "i_dev ?ip = dev" "i_inum ?ip = inum" using c by (simp_all add: caches_def)
    have "\<not> caches dev inum (?ips ! j)" if "j < length ?ips" "j \<noteq> i" for j
      using ok[unfolded icache_ok_def, rule_format, of i j dev inum] c that by blast
    then have "icache_ok (?ips[i := ?ip])" by (intro icache_ok_update[OF ok]) (simp add: ip)
    moreover have "iget dev inum s = Ret i (lock_dropped L_icache (upd_inode i (\<lambda>ip. ip\<lparr>i_ref := i_ref ip + 1\<rparr>) ?a))"
      by (simp add: iget_def acquire_free[OF free] Inl r)
    moreover have g: "(\<exists>ip \<in> set ?ips. caches dev inum ip \<or> i_ref ip = 0) = True" "(\<exists>ip \<in> set ?ips. caches dev inum ip) = True"
      using x by blast+
    ultimately show ?thesis
      unfolding g if_True using c ip r(2)[of i "\<lambda>ip. ip\<lparr>i_ref := i_ref ip + 1\<rparr>"]
      by (intro exI[of _ i] exI[of _ "lock_dropped L_icache (upd_inode i (\<lambda>ip. ip\<lparr>i_ref := i_ref ip + 1\<rparr>) ?a)"] exI[of _ ?ip])
        simp
  next
    case (Inr e)
    note m = iget_scan_miss[OF Inr]
    show ?thesis
    proof (cases e)
      case None
      then show ?thesis using m by (auto simp: iget_def acquire_free[OF free] Inr)
    next
      case (Some i)
      let ?f = "\<lambda>ip. ip\<lparr>i_dev := dev, i_inum := inum, i_ref := 1, i_busy := False, i_valid := False\<rparr>"
      have c: "i < length ?ips" "i_ref (?ips ! i) = 0" "\<forall>j < i. i_ref (?ips ! j) \<noteq> 0" using m Some by simp_all
      then have x: "\<not> (\<exists>ip \<in> set ?ips. caches dev inum ip)" "\<exists>ip \<in> set ?ips. i_ref ip = 0" using m nth_mem by blast+
      have "icache_ok (?ips[i := ?f (?ips ! i)])" using x(1) by (intro icache_ok_update[OF ok]) simp
      moreover have "iget dev inum s = Ret i (lock_dropped L_icache (upd_inode i ?f ?a))"
        by (simp add: iget_def acquire_free[OF free] Inr Some r)
      moreover have g: "(\<exists>ip \<in> set ?ips. caches dev inum ip \<or> i_ref ip = 0) = True" "(\<exists>ip \<in> set ?ips. caches dev inum ip) = False"
        using x by blast+
      ultimately show ?thesis
        unfolding g if_True if_False using c r(2)[of i ?f]
        by (intro exI[of _ i] exI[of _ "lock_dropped L_icache (upd_inode i ?f ?a)"] exI[of _ "?f (?ips ! i)"]) simp
    qed
  qed
qed

theorem iget_one_slot_witness:
  "icache_ok (inodes demo_icache) \<and> (\<exists>t. iget 1 7 demo_icache = Ret 0 t \<and> i_ref (inodes t ! 0) = 2)"
proof -
  have ok: "icache_ok (inodes demo_icache)"
    by (auto simp: icache_ok_def demo_icache_fields caches_def less_Suc_eq demo_inode_def zero_inode_def)
  have c: "caches 1 7 demo_inode" "\<not> caches 1 7 zero_inode" "i_ref demo_inode = 1"
    by (simp_all add: caches_def demo_inode_def zero_inode_def slt_def)
  show ?thesis
    using iget_one_slot[OF demo_icache_fields(6,7) ok, of 1 7] ok c
    by (auto simp: demo_icache_fields less_Suc_eq)
qed

end
