(* ===== verification/Ulib.thy ===== *)
theory Ulib
  imports Cstring Cprintf
begin

text \<open>
  The C library of the user programs: the string functions and \<open>atoi\<close> of \<open>ulib.c\<close> and the
  formatted output of \<open>printf.c\<close>.  \<open>putc\<close> writes one byte to a file, so the output of
  \<open>printf\<close> is the list of bytes it writes.  A decimal number that \<open>printf\<close> has written is
  read back by \<open>atoi\<close>.
\<close>

section \<open>Strings and memory\<close>

partial_function (option) strcpy :: "memory \<Rightarrow> addr \<Rightarrow> addr \<Rightarrow> memory option" where
  "strcpy m s t =
     (let m' = m(s := m t) in
      if m t \<noteq> 0 then strcpy m' (s + 1) (t + 1) else Some m')"

partial_function (option) strcmp :: "memory \<Rightarrow> addr \<Rightarrow> addr \<Rightarrow> int option" where
  "strcmp m p q =
     (if m p \<noteq> 0 \<and> m p = m q then strcmp m (p + 1) (q + 1) else Some (uint (m p) - uint (m q)))"

definition memset_u :: "memory \<Rightarrow> addr \<Rightarrow> u32 \<Rightarrow> u32 \<Rightarrow> memory" where
  "memset_u m dst c n = stosb m dst (ucast c) (unat n)"

text \<open>Unlike the kernel's function this one always copies upwards.\<close>

definition memmove_u :: "memory \<Rightarrow> addr \<Rightarrow> addr \<Rightarrow> u32 \<Rightarrow> memory" where
  "memmove_u m dst src n = copy_fwd m dst src (nat (sint n))"

text \<open>
  \<open>gets\<close>: \<open>rd\<close> is \<open>read(0, &c, 1)\<close>, with no byte at the end of the input or after an error.  The
  result is what the buffer holds before the terminator.
\<close>

fun gets_loop :: "('f \<Rightarrow> byte option \<times> 'f) \<Rightarrow> nat \<Rightarrow> 'f \<Rightarrow> byte list \<times> 'f" where
  "gets_loop rd 0 f = ([], f)"
| "gets_loop rd (Suc k) f =
     (case rd f of
        (None, f) \<Rightarrow> ([], f)
      | (Some c, f) \<Rightarrow>
          if c = 10 \<or> c = 13 then ([c], f)
          else let (cs, f) = gets_loop rd k f in (c # cs, f))"

definition gets :: "('f \<Rightarrow> byte option \<times> 'f) \<Rightarrow> u32 \<Rightarrow> 'f \<Rightarrow> byte list \<times> 'f" where
  "gets rd mx f = gets_loop rd (nat (sint mx) - 1) f"

text \<open>\<open>strchr\<close> as an offset.\<close>

fun strchr :: "byte list \<Rightarrow> byte \<Rightarrow> nat option" where
  "strchr [] c = None"
| "strchr (x # xs) c = (if x = 0 then None else if x = c then Some 0 else map_option Suc (strchr xs c))"

lemma strchr_bound: "strchr p c = Some i \<Longrightarrow> i < length p"
  by (induction p c arbitrary: i rule: strchr.induct) (auto split: if_splits)

section \<open>Numbers\<close>

fun atoi_loop :: "u32 \<Rightarrow> byte list \<Rightarrow> u32" where
  "atoi_loop n [] = n"
| "atoi_loop n (c # cs) = (if 48 \<le> c \<and> c \<le> 57 then atoi_loop (n * 10 + ucast c - 48) cs else n)"

definition atoi :: "byte list \<Rightarrow> u32" where
  "atoi cs = atoi_loop 0 cs"

definition digit_u :: "nat \<Rightarrow> byte" where
  "digit_u d = (if d < 10 then 48 + of_nat d else 65 + of_nat (d - 10))"

definition printint_u :: "u32 \<Rightarrow> nat \<Rightarrow> bool \<Rightarrow> byte list" where
  "printint_u xx base sign =
     (let neg = (sign \<and> slt xx 0);
          x = (if neg then - xx else xx);
          buf = map digit_u (digits_of base (unat x));
          buf = (if neg then buf @ [45] else buf)
      in rev buf)"

section \<open>Formatted output\<close>

text \<open>
  The loop of \<open>printf\<close>; the flag is \<open>state == '%'\<close>.  \<open>None\<close>: an argument that is missing or of
  the wrong kind, where the C program reads whatever the stack holds.
\<close>

definition emit :: "byte list \<Rightarrow> byte list option \<Rightarrow> byte list option" where
  "emit bs r = map_option ((@) bs) r"

fun printf_loop :: "byte list \<Rightarrow> bool \<Rightarrow> cparg list \<Rightarrow> byte list option" where
  "printf_loop [] st args = Some []"
| "printf_loop (c # cs) False args =
     (if c = 37 then printf_loop cs True args else emit [c] (printf_loop cs False args))"
| "printf_loop (c # cs) True args =
     (if c = 100 then
        (case args of A_int n # args \<Rightarrow> emit (printint_u n 10 True) (printf_loop cs False args) | _ \<Rightarrow> None)
      else if c = 120 \<or> c = 112 then
        (case args of A_int n # args \<Rightarrow> emit (printint_u n 16 False) (printf_loop cs False args) | _ \<Rightarrow> None)
      else if c = 115 then
        (case args of
           A_str None # args \<Rightarrow> emit [40, 110, 117, 108, 108, 41] (printf_loop cs False args)
         | A_str (Some bs) # args \<Rightarrow> emit bs (printf_loop cs False args)
         | _ \<Rightarrow> None)
      else if c = 99 then
        (case args of A_int n # args \<Rightarrow> emit [ucast n] (printf_loop cs False args) | _ \<Rightarrow> None)
      else if c = 37 then emit [c] (printf_loop cs False args)
      else emit [37, c] (printf_loop cs False args))"

definition printf :: "byte list \<Rightarrow> cparg list \<Rightarrow> byte list option" where
  "printf fmt args = printf_loop fmt False args"

section \<open>Reading back a number\<close>

lemma digits_of_less: "1 < base \<Longrightarrow> d \<in> set (digits_of base x) \<Longrightarrow> d < base"
proof (induction base x rule: digits_of.induct)
  case (1 base x)
  then show ?case by (subst (asm) (2) digits_of.simps) (auto split: if_splits)
qed

lemma ucast_digit:
  assumes "d < 10"
  shows "ucast (digit_u d) = (48 + of_nat d :: u32)" and "48 \<le> digit_u d \<and> digit_u d \<le> 57"
proof -
  have "d = 0 \<or> d = 1 \<or> d = 2 \<or> d = 3 \<or> d = 4 \<or> d = 5 \<or> d = 6 \<or> d = 7 \<or> d = 8 \<or> d = 9"
    using assms by presburger
  then have "ucast (digit_u d) = (48 + of_nat d :: u32) \<and> 48 \<le> digit_u d \<and> digit_u d \<le> 57"
    by (elim disjE) (simp_all add: digit_u_def)
  then show "ucast (digit_u d) = (48 + of_nat d :: u32)" and "48 \<le> digit_u d \<and> digit_u d \<le> 57" by simp_all
qed

lemma atoi_loop_append:
  "\<forall>d \<in> set ds. d < 10 \<Longrightarrow>
   atoi_loop n (map digit_u ds @ cs) = atoi_loop (foldl (\<lambda>n d. n * 10 + of_nat d) n ds) cs"
  by (induction ds arbitrary: n) (auto simp: ucast_digit)

lemma foldl_digits:
  "foldl (\<lambda>n d. n * 10 + of_nat d) (0 :: u32) (rev (digits_of 10 x)) = of_nat x"
proof (induction "10 :: nat" x rule: digits_of.induct)
  case (1 x)
  show ?case
  proof (cases "x div 10 = 0")
    case True
    then show ?thesis by (subst digits_of.simps) simp
  next
    case False
    have "of_nat (x div 10) * 10 + of_nat (x mod 10) = (of_nat (x div 10 * 10 + x mod 10) :: u32)"
      by (simp only: of_nat_add of_nat_mult of_nat_numeral)
    then show ?thesis using 1 False by (subst digits_of.simps) simp
  qed
qed

lemma atoi_digits: "atoi (map digit_u (rev (digits_of 10 x))) = of_nat x"
  using atoi_loop_append[of "rev (digits_of 10 x)" 0 "[]"] digits_of_less[of 10] by (simp add: atoi_def foldl_digits)

text \<open>C38: A number survives printing and parsing.  For every \<open>int\<close>, \<open>printf\<close> with the format
  \<open>%d\<close> writes a numeral that \<open>atoi\<close> reads back as the number; a negative number, the most negative
  one included, is written as a minus sign and the numeral of its magnitude.\<close>
theorem printf_atoi_round_trip:
  "\<exists>ds. printf [37, 100] [A_int n] = Some (if slt n 0 then 45 # ds else ds) \<and>
     (\<forall>c \<in> set ds. 48 \<le> c \<and> c \<le> 57) \<and> (if slt n 0 then - atoi ds else atoi ds) = n"
proof -
  let ?x = "if slt n 0 then - n else n"
  let ?ds = "map digit_u (rev (digits_of 10 (unat ?x)))"
  have "printf [37, 100] [A_int n] = Some (if slt n 0 then 45 # ?ds else ?ds)"
    by (simp add: printf_def emit_def printint_u_def rev_map)
  moreover have "\<forall>c \<in> set ?ds. 48 \<le> c \<and> c \<le> 57" using digits_of_less[of 10] ucast_digit(2) by auto
  moreover have "(if slt n 0 then - atoi ?ds else atoi ?ds) = n" by (simp add: atoi_digits)
  ultimately show ?thesis by blast
qed

theorem printf_atoi_round_trip_witness:
  "\<exists>ds. printf [37, 100] [A_int 0xFFFFFFF9] = Some (45 # ds) \<and> atoi ds = 7"
proof -
  have "slt 0xFFFFFFF9 0" by (simp add: slt_def)
  then obtain ds where d: "printf [37, 100] [A_int 0xFFFFFFF9] = Some (45 # ds)" "- atoi ds = 0xFFFFFFF9"
    using printf_atoi_round_trip[of "0xFFFFFFF9"] by auto
  then have "atoi ds = - 0xFFFFFFF9" by (metis minus_minus)
  then show ?thesis using d(1) by simp
qed

end
