(* ===== verification/Grep.thy ===== *)
theory Grep
  imports Ulib
begin

text \<open>
  The program \<open>grep.c\<close>: the regular expression matcher and the loop that filters the lines
  of a file.  A C string is the list of its bytes before the terminator, and a pointer into a
  string is the rest of the string from there.  The matcher is proved equal to the
  meaning of its patterns; the loop is proved to print the matching lines of a regular
  file.
\<close>

section \<open>The matcher\<close>

text \<open>\<open>p[i]\<close>, with the terminator just after the last byte.\<close>

definition at :: "byte list \<Rightarrow> nat \<Rightarrow> byte" where
  "at p i = (if i < length p then p ! i else 0)"

lemma at_simps [simp]: "at [] i = 0" "at (x # xs) 0 = x" "at (x # xs) (Suc i) = at xs i"
  by (simp_all add: at_def)

lemma at_nonzero: "at p i \<noteq> 0 \<Longrightarrow> i < length p"
  by (simp add: at_def split: if_splits)

function matchhere :: "byte list \<Rightarrow> byte list \<Rightarrow> bool"
  and matchstar :: "byte \<Rightarrow> byte list \<Rightarrow> byte list \<Rightarrow> bool" where
  "matchhere re tx =
     (if at re 0 = 0 then True
      else if at re 1 = 42 then matchstar (at re 0) (drop 2 re) tx
      else if at re 0 = 36 \<and> at re 1 = 0 then at tx 0 = 0
      else if at tx 0 \<noteq> 0 \<and> (at re 0 = 46 \<or> at re 0 = at tx 0) then matchhere (drop 1 re) (drop 1 tx)
      else False)"
| "matchstar c re tx =
     (if matchhere re tx then True
      else if at tx 0 \<noteq> 0 \<and> (at tx 0 = c \<or> c = 46) then matchstar c re (drop 1 tx)
      else False)"
  by pat_completeness auto
termination
  by (relation "measure (\<lambda>x. case x of Inl (re, tx) \<Rightarrow> 2 * (length re + length tx)
        | Inr (c, re, tx) \<Rightarrow> Suc (2 * (length re + length tx)))")
    (auto simp: at_def neq_Nil_conv split: if_splits)

declare matchhere.simps [simp del] matchstar.simps [simp del]

text \<open>The loop of \<open>match\<close>, which also looks at the empty string.\<close>

primrec match_from :: "byte list \<Rightarrow> byte list \<Rightarrow> bool" where
  "match_from re [] = matchhere re []"
| "match_from re (x # tx) = (if matchhere re (x # tx) then True else match_from re tx)"

definition match :: "byte list \<Rightarrow> byte list \<Rightarrow> bool" where
  "match re tx = (if at re 0 = 94 then matchhere (drop 1 re) tx else match_from re tx)"

section \<open>The meaning of a pattern\<close>

text \<open>
  A pattern is a sequence of items: a character, a character with a star, or the
  end of the text.  A period stands for any character; a dollar sign means the end only as
  the last character of the pattern, and a star first in a pattern stands for itself.
\<close>

datatype item = One byte | Star byte | End

fun items :: "byte list \<Rightarrow> item list" where
  "items [] = []"
| "items [c] = (if c = 36 then [End] else [One c])"
| "items (c # d # re) = (if d = 42 then Star c # items re else One c # items (d # re))"

definition fits :: "byte \<Rightarrow> byte \<Rightarrow> bool" where
  "fits c x \<longleftrightarrow> c = 46 \<or> c = x"

text \<open>\<open>matches is w r\<close>: the items match the text \<open>w\<close> when the text \<open>r\<close> follows.\<close>

inductive matches :: "item list \<Rightarrow> byte list \<Rightarrow> byte list \<Rightarrow> bool" where
  nil: "matches [] [] r"
| one: "fits c x \<Longrightarrow> matches is w r \<Longrightarrow> matches (One c # is) (x # w) r"
| star: "\<forall>x \<in> set v. fits c x \<Longrightarrow> matches is w r \<Longrightarrow> matches (Star c # is) (v @ w) r"
| end_of_text: "matches [End] [] []"

inductive_simps matches_simps [simp]:
  "matches [] w r" "matches (One c # is) w r" "matches (Star c # is) w r" "matches [End] w r"

definition prefix_matches :: "item list \<Rightarrow> byte list \<Rightarrow> bool" where
  "prefix_matches is tx \<longleftrightarrow> (\<exists>w r. tx = w @ r \<and> matches is w r)"

lemma prefix_matches_simps:
  "prefix_matches [] tx"
  "prefix_matches [End] tx \<longleftrightarrow> tx = []"
  "prefix_matches (One c # is) tx \<longleftrightarrow> (\<exists>x t. tx = x # t \<and> fits c x \<and> prefix_matches is t)"
  "prefix_matches (Star c # is) tx \<longleftrightarrow> (\<exists>v t. tx = v @ t \<and> (\<forall>x \<in> set v. fits c x) \<and> prefix_matches is t)"
proof -
  show "prefix_matches (Star c # is) tx \<longleftrightarrow> (\<exists>v t. tx = v @ t \<and> (\<forall>x \<in> set v. fits c x) \<and> prefix_matches is t)"
    (is "?l \<longleftrightarrow> ?r")
  proof
    assume ?l
    then obtain v w r where "tx = v @ w @ r" "\<forall>x \<in> set v. fits c x" "matches is w r" by (auto simp: prefix_matches_def)
    then show ?r unfolding prefix_matches_def by blast
  next
    assume ?r
    then obtain v w r where "tx = (v @ w) @ r" "\<forall>x \<in> set v. fits c x" "matches is w r" by (auto simp: prefix_matches_def)
    then show ?l unfolding prefix_matches_def by (blast intro: matches.star)
  qed
  show "prefix_matches (One c # is) tx \<longleftrightarrow> (\<exists>x t. tx = x # t \<and> fits c x \<and> prefix_matches is t)" (is "?l \<longleftrightarrow> ?r")
  proof
    assume ?l
    then obtain x w r where "tx = x # w @ r" "fits c x" "matches is w r" by (auto simp: prefix_matches_def)
    then show ?r unfolding prefix_matches_def by blast
  next
    assume ?r
    then obtain x w r where "tx = (x # w) @ r" "fits c x" "matches is w r" by (auto simp: prefix_matches_def)
    then show ?l unfolding prefix_matches_def by (blast intro: matches.one)
  qed
qed (auto simp: prefix_matches_def)

lemma star_unfold:
  "prefix_matches (Star c # is) tx \<longleftrightarrow> prefix_matches is tx \<or>
     (\<exists>x t. tx = x # t \<and> fits c x \<and> prefix_matches (Star c # is) t)" (is "?l \<longleftrightarrow> ?r")
proof
  assume ?l
  then obtain v t where v: "tx = v @ t" "\<forall>x \<in> set v. fits c x" "prefix_matches is t"
    by (auto simp: prefix_matches_simps)
  then show ?r by (cases v) (auto simp: prefix_matches_simps)
next
  assume ?r
  then show ?l
  proof
    assume "prefix_matches is tx"
    then show ?l by (auto simp: prefix_matches_simps intro: exI[of _ "[]"])
  next
    assume "\<exists>x t. tx = x # t \<and> fits c x \<and> prefix_matches (Star c # is) t"
    then obtain x v t where "tx = (x # v) @ t" "\<forall>y \<in> set (x # v). fits c y" "prefix_matches is t"
      by (auto simp: prefix_matches_simps)
    then show ?l by (auto simp only: prefix_matches_simps)
  qed
qed

lemma matchhere_matches:
  "0 \<notin> set re \<Longrightarrow> 0 \<notin> set tx \<Longrightarrow> matchhere re tx = prefix_matches (items re) tx"
  "0 \<notin> set re' \<Longrightarrow> 0 \<notin> set tx' \<Longrightarrow> matchstar c re' tx' = prefix_matches (Star c # items re') tx'"
proof (induction re tx and c re' tx' rule: matchhere_matchstar.induct)
  case (1 re tx)
  show ?case
  proof (cases re rule: items.cases)
    case 1
    then show ?thesis by (simp add: matchhere.simps prefix_matches_simps)
  next
    case (2 c)
    then show ?thesis using 1 by (cases tx) (auto simp: matchhere.simps[of "[c]"] prefix_matches_simps fits_def)
  next
    case (3 c d re')
    then show ?thesis
      using 1 by (cases tx) (auto simp: matchhere.simps[of "c # d # re'"] prefix_matches_simps(1,2,3) fits_def)
  qed
next
  case (2 c re tx)
  have u: "matchstar c re tx \<longleftrightarrow> matchhere re tx \<or> at tx 0 \<noteq> 0 \<and> (at tx 0 = c \<or> c = 46) \<and> matchstar c re (drop 1 tx)"
    by (subst matchstar.simps) simp
  have "matchstar c re (drop 1 tx) = prefix_matches (Star c # items re) (drop 1 tx)"
    if "\<not> matchhere re tx" "at tx 0 \<noteq> 0" "at tx 0 = c \<or> c = 46"
    using 2 that in_set_dropD[of 0 1 tx] by blast
  then show ?case
    using 2 u star_unfold[of c "items re" tx] by (cases tx) (auto simp: fits_def)
qed

lemma match_from_matches:
  assumes "0 \<notin> set re"
  shows "0 \<notin> set tx \<Longrightarrow> match_from re tx \<longleftrightarrow> (\<exists>u t. tx = u @ t \<and> prefix_matches (items re) t)"
proof (induction tx)
  case (Cons x tx)
  have "(\<exists>u t. x # tx = u @ t \<and> P t) \<longleftrightarrow> P (x # tx) \<or> (\<exists>u t. tx = u @ t \<and> P t)" for P :: "byte list \<Rightarrow> bool"
    by (metis append_Cons append_Nil append_eq_Cons_conv)
  then show ?case using Cons assms by (simp add: matchhere_matches)
qed (simp add: matchhere_matches assms)

text \<open>C36: The matcher decides the meaning of its patterns.  For a pattern that begins with a caret
  \<open>match\<close> is true exactly if the rest of the pattern matches at the beginning of the
  text, and for any other pattern exactly if the pattern matches somewhere in the text.\<close>
theorem match_language:
  assumes "0 \<notin> set re" and "0 \<notin> set tx"
  shows "match re tx \<longleftrightarrow>
    (if \<exists>p. re = 94 # p then \<exists>w r. tx = w @ r \<and> matches (items (tl re)) w r
     else \<exists>u w r. tx = u @ w @ r \<and> matches (items re) w r)"
proof (cases "\<exists>p. re = 94 # p")
  case True
  then have "match re tx = prefix_matches (items (tl re)) tx" using assms by (auto simp: match_def matchhere_matches)
  then show ?thesis using True by (simp add: prefix_matches_def)
next
  case False
  then have "at re 0 \<noteq> 94" by (cases re) auto
  then show ?thesis using False assms match_from_matches[of re tx] by (auto simp: match_def prefix_matches_def)
qed

theorem match_language_witness:
  "match [97, 42, 36] [98, 97] \<and> matches (items [97, 42, 36]) [97] []"
proof -
  have m: "matches (items [97, 42, 36]) [97] []" by (force simp: fits_def)
  then have "\<exists>u w r. [98, 97] = u @ w @ r \<and> matches (items [97, 42, 36]) w r"
    by (metis append_Cons append_Nil)
  then have "match [97, 42, 36] [98, 97]"
    using match_language[of "[97, 42, 36]" "[98, 97]"] by (simp del: matches_simps items.simps)
  then show ?thesis using m by simp
qed

section \<open>The lines of a file\<close>

text \<open>
  The inner loop of \<open>grep\<close> on the text from \<open>p\<close> to the end of the buffer; it returns the text
  after the last line feed and what has been written.
\<close>

function grep_lines :: "byte list \<Rightarrow> byte list \<Rightarrow> byte list \<Rightarrow> byte list \<times> byte list" where
  "grep_lines pat p out =
     (case strchr p 10 of
        None \<Rightarrow> (p, out)
      | Some i \<Rightarrow> grep_lines pat (drop (Suc i) p) (if match pat (take i p) then out @ take (Suc i) p else out))"
  by pat_completeness auto
termination
  by (relation "measure (\<lambda>(pat, p, out). length p)") (auto dest: strchr_bound)

declare grep_lines.simps [simp del]

text \<open>
  The outer loop.  \<open>rd\<close> is the system call \<open>read\<close> on the file: it gives at most as many bytes as
  it is asked for, none at the end of the file or after an error.  The buffer
  has 1024 bytes, the first \<open>m\<close> of them are \<open>pend\<close>, and one is kept for the terminator.
\<close>

partial_function (option) grep_loop ::
    "(nat \<Rightarrow> 'f \<Rightarrow> byte list \<times> 'f) \<Rightarrow> byte list \<Rightarrow> byte list \<Rightarrow> 'f \<Rightarrow> byte list \<Rightarrow> (byte list \<times> 'f) option" where
  "grep_loop rd pat pend f out =
     (let (c, f) = rd (1024 - length pend - 1) f in
      if c = [] then Some (out, f)
      else let b = pend @ c; (p, out) = grep_lines pat b out
           in grep_loop rd pat (if length p = length b then [] else p) f out)"

definition grep :: "(nat \<Rightarrow> 'f \<Rightarrow> byte list \<times> 'f) \<Rightarrow> byte list \<Rightarrow> 'f \<Rightarrow> (byte list \<times> 'f) option" where
  "grep rd pat f = grep_loop rd pat [] f []"

text \<open>Reading a regular file: the next bytes of the contents that are left.\<close>

definition file_read :: "nat \<Rightarrow> byte list \<Rightarrow> byte list \<times> byte list" where
  "file_read n f = (take n f, drop n f)"

definition unlines :: "byte list list \<Rightarrow> byte list" where
  "unlines ls = concat (map (\<lambda>l. l @ [10]) ls)"

lemma unlines_simps [simp]: "unlines [] = []" "unlines (l # ls) = l @ 10 # unlines ls" "unlines (ls @ ls') = unlines ls @ unlines ls'"
  by (simp_all add: unlines_def)

lemma strchr_line: "10 \<notin> set l \<Longrightarrow> 0 \<notin> set l \<Longrightarrow> strchr (l @ 10 # r) 10 = Some (length l)"
  by (induction l) auto

lemma strchr_none: "10 \<notin> set l \<Longrightarrow> strchr l 10 = None"
  by (induction l) auto

lemma grep_lines_unlines:
  assumes "\<forall>l \<in> set ls. 10 \<notin> set l \<and> 0 \<notin> set l" and "10 \<notin> set t"
  shows "grep_lines pat (unlines ls @ t) out = (t, out @ unlines (filter (match pat) ls))"
  using assms
proof (induction ls arbitrary: out)
  case Nil
  then show ?case by (simp add: grep_lines.simps strchr_none)
next
  case (Cons l ls)
  then show ?case by (subst grep_lines.simps) (simp add: strchr_line)
qed

lemma split_lines:
  assumes "b @ f = unlines ls @ t" and "10 \<notin> set t" and "\<forall>l \<in> set ls. 10 \<notin> set l"
  shows "\<exists>ls1 ls2 r. ls = ls1 @ ls2 \<and> b = unlines ls1 @ r \<and> 10 \<notin> set r \<and> r @ f = unlines ls2 @ t"
  using assms
proof (induction ls arbitrary: b)
  case Nil
  then have "10 \<notin> set (b @ f)" by simp
  then show ?case using Nil by fastforce
next
  case (Cons l ls)
  show ?case
  proof (cases "length b \<le> length l")
    case True
    then have "b = take (length b) l" using Cons.prems(1) by (simp add: append_eq_append_conv_if split: if_splits)
    then have "set b \<subseteq> set l" by (metis set_take_subset)
    then have "10 \<notin> set b" using Cons.prems(3) by auto
    then show ?thesis using Cons.prems(1) by (metis append_Nil unlines_simps(1))
  next
    case False
    then obtain b' where b': "b = l @ 10 # b'" "b' @ f = unlines ls @ t"
      using Cons.prems(1) by (auto simp: append_eq_append_conv2 append_eq_Cons_conv)
    then obtain ls1 ls2 r where "ls = ls1 @ ls2" "b' = unlines ls1 @ r" "10 \<notin> set r" "r @ f = unlines ls2 @ t"
      using Cons.IH[of b'] Cons.prems by auto
    then show ?thesis using b' by (metis append.assoc append_Cons unlines_simps(2))
  qed
qed

lemma grep_loop_file:
  assumes "pend @ f = unlines ls @ t" and "10 \<notin> set pend" and "length pend < 1023" and "10 \<notin> set t"
    and "\<forall>l \<in> set ls. 10 \<notin> set l \<and> 0 \<notin> set l \<and> length l < 1023"
  shows "grep_loop file_read pat pend f out = Some (out @ unlines (filter (match pat) ls), [])"
  using assms
proof (induction f arbitrary: pend ls t out rule: length_induct)
  case (1 f)
  show ?case
  proof (cases "f = []")
    case True
    then have "ls = []" using 1(2,3) by (cases ls) auto
    then show ?thesis using True by (subst grep_loop.simps) (simp add: file_read_def)
  next
    case False
    let ?k = "1024 - length pend - 1"
    let ?c = "take ?k f" and ?f = "drop ?k f"
    have k: "0 < ?k" using 1(4) by simp
    obtain ls1 ls2 r where s: "ls = ls1 @ ls2" "pend @ ?c = unlines ls1 @ r" "10 \<notin> set r" "r @ ?f = unlines ls2 @ t"
      using split_lines[of "pend @ ?c" ?f ls t] 1(2,5,6) by auto
    have g: "grep_lines pat (pend @ ?c) out = (r, out @ unlines (filter (match pat) ls1))"
      unfolding s(2) using 1(6) s(1,3) by (intro grep_lines_unlines) auto
    have u: "grep_loop file_read pat pend f out =
        grep_loop file_read pat (if length r = length (pend @ ?c) then [] else r) ?f (out @ unlines (filter (match pat) ls1))"
      using False k g by (subst grep_loop.simps) (simp add: file_read_def Let_def)
    have "0 < length f" using False by simp
    then have sh: "length ?f < length f" using k unfolding length_drop by (rule diff_less[rotated])
    have lb: "length (pend @ ?c) \<le> 1023" using 1(4) by simp
    show ?thesis
    proof (cases "length r = length (pend @ ?c)")
      case False
      then have "length r < 1023" using s(2) lb by (metis le_antisym length_append le_add2 linorder_not_less order_trans)
      then show ?thesis using 1(1)[rule_format, OF sh, of r ls2 t] s 1(5,6) u False by simp
    next
      case True
      then have l1: "ls1 = []" using s(2) by (cases ls1) (auto dest: arg_cong[of _ _ length])
      have l2: "ls2 = []"
      proof (rule ccontr)
        assume "ls2 \<noteq> []"
        then obtain l ls' where l: "ls2 = l # ls'" by (cases ls2) auto
        have "length r \<le> length l"
          using s(3,4) unfolding l by (auto simp: append_eq_append_conv2 append_eq_Cons_conv)
        moreover have "length l < 1023" using 1(6) s(1) l by simp
        ultimately have "?f = []" using True by simp
        then show False using s(3,4) unfolding l by auto
      qed
      have "10 \<notin> set ?f" using s(4) l2 1(5) by (metis UnCI append_Nil set_append unlines_simps(1))
      then show ?thesis using 1(1)[rule_format, OF sh, of "[]" "[]" ?f] s(1) u True l1 l2 by simp
    qed
  qed
qed

text \<open>C37: On a regular file \<open>grep\<close> returns, and it has written exactly the complete lines that match,
  in order, when no line has a zero byte or more than 1022 characters.  A last line
  without a line feed is not written.\<close>
theorem grep_regular_file:
  assumes "\<forall>l \<in> set ls. 10 \<notin> set l \<and> 0 \<notin> set l \<and> length l < 1023" and "10 \<notin> set t"
  shows "grep file_read pat (unlines ls @ t) = Some (unlines (filter (match pat) ls), [])"
  using grep_loop_file[of "[]" "unlines ls @ t" ls t pat "[]"] assms by (simp add: grep_def)

theorem grep_regular_file_witness:
  "grep file_read [98] [97, 10, 98, 99, 10, 98] = Some ([98, 99, 10], [])"
proof -
  have "match [98] [98, 99]" "\<not> match [98] [97]"
    by (simp_all add: match_def matchhere.simps)
  then show ?thesis using grep_regular_file[of "[[97], [98, 99]]" "[98]" "[98]"] by simp
qed

end
