(* ===== verification/Sh.thy ===== *)
theory Sh
  imports Ulib Sysfile
begin

text \<open>
  The shell \<open>sh.c\<close>.  The parser works on the line that was read, a list of bytes without zero;
  a pointer into the line is the rest of the line from there, so \<open>s < es\<close> says that
  the rest is not empty, and \<open>*s\<close> at the end of the line is the terminator.  Commands are
  trees; the constructors of \<open>struct cmd\<close> allocate with \<open>malloc\<close>, which is taken to succeed
  here.  \<open>parseexec\<close> goes on filling the argument vector of the node that redirections
  already enclose; the model collects both and builds the tree at the end.  The
  parser's mutual recursion has fuel, and it is shown that four units for each byte and four more are
  always enough.
\<close>

section \<open>Tokens\<close>

definition whitespace :: "byte list" where "whitespace = [32, 9, 13, 10, 11]"

definition symbols :: "byte list" where "symbols = [60, 124, 62, 38, 59, 40, 41]"

definition white :: "byte \<Rightarrow> bool" where "white c \<longleftrightarrow> strchr whitespace c \<noteq> None"

definition symbol :: "byte \<Rightarrow> bool" where "symbol c \<longleftrightarrow> strchr symbols c \<noteq> None"

abbreviation plain :: "byte \<Rightarrow> bool" where "plain c \<equiv> \<not> white c \<and> \<not> symbol c"

definition skip_white :: "byte list \<Rightarrow> byte list" where
  "skip_white s = dropWhile white s"

text \<open>
  The \<open>switch\<close> of \<open>gettoken\<close>: the kind of the token at \<open>s\<close> and its end.  \<open>gettoken\<close> returns the
  kind, the two ends and the rest of the line.
\<close>

fun token_at :: "byte list \<Rightarrow> byte \<times> byte list" where
  "token_at [] = (0, [])"
| "token_at (c # r) =
     (if c = 124 \<or> c = 40 \<or> c = 41 \<or> c = 59 \<or> c = 38 \<or> c = 60 then (c, r)
      else if c = 62 then (if r \<noteq> [] \<and> hd r = 62 then (43, tl r) else (c, r))
      else (97, dropWhile plain (c # r)))"

definition gettoken :: "byte list \<Rightarrow> byte \<times> (byte list \<times> byte list) \<times> byte list" where
  "gettoken s =
     (let s = skip_white s; (ret, e) = token_at s
      in (ret, (s, e), skip_white e))"

definition peek :: "byte list \<Rightarrow> byte list \<Rightarrow> bool \<times> byte list" where
  "peek toks s =
     (let s = skip_white s in (s \<noteq> [] \<and> strchr toks (hd s) \<noteq> None, s))"

section \<open>Commands\<close>

datatype 'w cmd =
    EXEC "'w list"
  | REDIR "'w cmd" 'w u32 u32
  | PIPE "'w cmd" "'w cmd"
  | LIST "'w cmd" "'w cmd"
  | BACK "'w cmd"

definition MAXARGS :: nat where "MAXARGS = 10"

type_synonym token = "byte list \<times> byte list"

text \<open>The text of a token.\<close>

definition word_of :: "token \<Rightarrow> byte list" where
  "word_of t = take (length (fst t) - length (snd t)) (fst t)"

section \<open>Parsing\<close>

text \<open>A parser returns a result and the rest of the line, or ends the shell by \<open>panic\<close>.\<close>

datatype 'a parsed = Parsed 'a "byte list" | Syntax string | Fuel_out

fun pbind :: "'a parsed \<Rightarrow> ('a \<Rightarrow> byte list \<Rightarrow> 'b parsed) \<Rightarrow> 'b parsed" where
  "pbind (Parsed a s) f = f a s"
| "pbind (Syntax msg) f = Syntax msg"
| "pbind Fuel_out f = Fuel_out"

text \<open>The file, the mode and the descriptor of a redirection.\<close>

type_synonym redir = "token \<times> u32 \<times> u32"

definition redircmd :: "token cmd \<Rightarrow> redir \<Rightarrow> token cmd" where
  "redircmd c r = REDIR c (fst r) (fst (snd r)) (snd (snd r))"

lemma white_iff: "white c \<longleftrightarrow> c = 32 \<or> c = 9 \<or> c = 13 \<or> c = 10 \<or> c = 11"
  by (simp add: white_def whitespace_def)

lemma symbol_iff: "symbol c \<longleftrightarrow> c = 60 \<or> c = 124 \<or> c = 62 \<or> c = 38 \<or> c = 59 \<or> c = 40 \<or> c = 41"
  by (simp add: symbol_def symbols_def)

lemma length_skip_white: "length (skip_white s) \<le> length s"
  unfolding skip_white_def by (rule length_dropWhile_le)

lemma skip_white_hd: "skip_white s = c # r \<Longrightarrow> \<not> white c"
  unfolding skip_white_def by (metis hd_dropWhile list.distinct(1) list.sel(1))

lemma token_at_plain: "plain c \<Longrightarrow> token_at (c # r) = (97, dropWhile plain r)"
  by (simp add: symbol_iff)

lemma token_at_shorter: "\<not> white c \<Longrightarrow> length (snd (token_at (c # r))) \<le> length r"
proof (cases "symbol c")
  case False
  assume "\<not> white c"
  then show ?thesis using False token_at_plain[of c r] length_dropWhile_le[of plain r] by simp
next
  case True
  then show ?thesis by (auto simp: symbol_iff)
qed

lemma gettoken_shorter:
  assumes "gettoken s = (tok, t, s')"
  shows "length s' \<le> length s" and "tok \<noteq> 0 \<Longrightarrow> length s' < length s"
proof -
  have e: "s' = skip_white (snd (token_at (skip_white s)))" "tok = fst (token_at (skip_white s))"
    using assms by (auto simp: gettoken_def Let_def split: prod.splits)
  have l: "length s' \<le> length (snd (token_at (skip_white s)))" using e(1) length_skip_white by simp
  have "length s' \<le> length s \<and> (tok \<noteq> 0 \<longrightarrow> length s' < length s)"
  proof (cases "skip_white s")
    case Nil
    then show ?thesis using e(2) l by simp
  next
    case (Cons c r)
    then have "length (snd (token_at (skip_white s))) \<le> length r" "length (c # r) \<le> length s"
      using token_at_shorter[OF skip_white_hd[OF Cons], of r] length_skip_white[of s] by simp_all
    then show ?thesis using l by simp
  qed
  then show "length s' \<le> length s" and "tok \<noteq> 0 \<Longrightarrow> length s' < length s" by simp_all
qed

lemma peek_shorter: "peek toks s = (b, s') \<Longrightarrow> length s' \<le> length s"
  using length_skip_white[of s] by (auto simp: peek_def Let_def)

lemma peek_True:
  assumes "peek toks s = (True, s1)"
  obtains c r where "s1 = c # r" "\<not> white c" "skip_white s1 = s1" "strchr toks c \<noteq> None" "length s1 \<le> length s"
proof -
  obtain c r where "s1 = c # r" "s1 = skip_white s" "strchr toks c \<noteq> None"
    using assms by (cases s1) (auto simp: peek_def Let_def)
  moreover from this have "\<not> white c" using skip_white_hd[of s c r] by simp
  ultimately show thesis using that[of c r] length_skip_white[of s] by (simp add: skip_white_def)
qed

lemma gettoken_consumes:
  assumes "peek toks s = (True, s1)" and "gettoken s1 = (tok, t, s2)"
  shows "length s2 < length s1" and "length s2 < length s"
proof -
  obtain c r where c: "s1 = c # r" "\<not> white c" "skip_white s1 = s1" "length s1 \<le> length s" using assms(1) by (rule peek_True)
  have "s2 = skip_white (snd (token_at s1))" using assms(2) c(3) by (auto simp: gettoken_def split: prod.splits)
  then show "length s2 < length s1" using token_at_shorter[OF c(2), of r] length_skip_white[of "snd (token_at s1)"] c(1) by simp
  then show "length s2 < length s" using c(4) by simp
qed

text \<open>The loop of \<open>parseredirs\<close>; modes and descriptors as in the source.\<close>

function redirs_loop :: "redir list \<Rightarrow> byte list \<Rightarrow> redir list parsed" where
  "redirs_loop rs s =
     (let (pk, s) = peek [60, 62] s in
      if \<not> pk then Parsed rs s
      else let (tok, _, s) = gettoken s; (kind, t, s') = gettoken s in
        if kind \<noteq> 97 then Syntax ''missing file for redirection''
        else redirs_loop (rs @ [(if tok = 60 then (t, 0, 0) else (t, 0x201, 1))]) s')"
  by pat_completeness auto
termination
proof (relation "measure (\<lambda>(rs, s). length s)", simp)
  fix rs :: "redir list" and s x pk s1 y tok z t1 s2 w kind v t s'
  assume "x = peek [60, 62] s" "(pk, s1) = x" "y = gettoken s1" "(tok, z) = y" "(t1, s2) = z" "w = gettoken s2" "(kind, v) = w"
    "(t, s') = v" "\<not> kind \<noteq> (97 :: byte)"
  then have "length s1 \<le> length s" "length s2 \<le> length s1" "length s' < length s2"
    using peek_shorter[of _ s pk s1] gettoken_shorter(1)[of s1 tok t1 s2] gettoken_shorter(2)[of s2 kind t s'] by simp_all
  then show "((rs @ [if tok = 60 then (t, 0, 0) else (t, 513, 1)], s'), rs, s) \<in> measure (\<lambda>(rs, s). length s)" by simp
qed

declare redirs_loop.simps [simp del]

definition parseredirs :: "token cmd \<Rightarrow> byte list \<Rightarrow> token cmd parsed" where
  "parseredirs c s = pbind (redirs_loop [] s) (\<lambda>rs s. Parsed (foldl redircmd c rs) s)"

lemma redirs_loop_shorter: "redirs_loop rs s = Parsed rs' s' \<Longrightarrow> length s' \<le> length s"
proof (induction rs s rule: redirs_loop.induct)
  case (1 rs s)
  obtain pk s1 where p: "peek [60, 62] s = (pk, s1)" by (cases "peek [60, 62] s") auto
  obtain tok t1 s2 where g: "gettoken s1 = (tok, t1, s2)" by (cases "gettoken s1") auto
  obtain kind t s3 where k: "gettoken s2 = (kind, t, s3)" by (cases "gettoken s2") auto
  have l: "length s1 \<le> length s" "length s2 \<le> length s1" "length s3 \<le> length s2"
    using peek_shorter[OF p] gettoken_shorter(1)[OF g] gettoken_shorter(1)[OF k] by simp_all
  have u: "redirs_loop rs s = (if \<not> pk then Parsed rs s1 else if kind \<noteq> 97 then Syntax ''missing file for redirection''
      else redirs_loop (rs @ [(if tok = 60 then (t, 0, 0) else (t, 0x201, 1))]) s3)"
    by (subst redirs_loop.simps) (simp add: p g k)
  show ?case
  proof (cases "pk \<and> kind = 97")
    case True
    then have "length s' \<le> length s3"
      using 1(1)[OF p[symmetric] refl _ g[symmetric] refl refl k[symmetric] refl refl] 1(2) u by simp
    then show ?thesis using l by simp
  next
    case False
    then show ?thesis using 1(2) u l by (simp split: if_splits)
  qed
qed

lemma pbind_cong [fundef_cong]:
  "p = p' \<Longrightarrow> (\<And>a s. p' = Parsed a s \<Longrightarrow> f a s = g a s) \<Longrightarrow> pbind p f = pbind p' g"
  by (cases p') auto

text \<open>The loop of \<open>parseexec\<close>: arguments and the redirections between them.\<close>

function args_loop :: "redir list \<Rightarrow> token list \<Rightarrow> byte list \<Rightarrow> (redir list \<times> token list) parsed" where
  "args_loop rs args s =
     (let (pk, s) = peek [124, 41, 38, 59] s in
      if pk then Parsed (rs, args) s
      else let (tok, t, s) = gettoken s in
        if tok = 0 then Parsed (rs, args) s
        else if tok \<noteq> 97 then Syntax ''syntax''
        else let args = args @ [t] in
          if MAXARGS \<le> length args then Syntax ''too many args''
          else pbind (redirs_loop rs s) (\<lambda>rs s. args_loop rs args s))"
  by pat_completeness auto
termination
proof (relation "measure (\<lambda>(rs, args, s). length s)", simp)
  fix rs rs' :: "redir list" and args args' :: "token list" and s x pk s1 y tok z t s2 s3
  assume "x = peek [124, 41, 38, 59] s" "(pk, s1) = x" "y = gettoken s1" "(tok, z) = y" "(t, s2) = z" "tok \<noteq> 0"
    "redirs_loop rs s2 = Parsed rs' s3"
  then have "length s1 \<le> length s" "length s2 < length s1" "length s3 \<le> length s2"
    using peek_shorter[of _ s pk s1] gettoken_shorter(2)[of s1 tok t s2] redirs_loop_shorter by simp_all
  then show "((rs', args', s3), rs, args, s) \<in> measure (\<lambda>(rs, args, s). length s)" by simp
qed

declare args_loop.simps [simp del]

text \<open>The loop of \<open>parseline\<close> over ampersands.\<close>

function back_loop :: "token cmd \<Rightarrow> byte list \<Rightarrow> token cmd \<times> byte list" where
  "back_loop c s =
     (let (pk, s) = peek [38] s in
      if \<not> pk then (c, s) else let (_, _, s) = gettoken s in back_loop (BACK c) s)"
  by pat_completeness auto
termination
proof (relation "measure (\<lambda>(c, s). length s)", simp)
  fix c :: "token cmd" and s x pk s1 y tok z t s2
  assume a: "x = peek [38] s" "(pk, s1) = x" "\<not> \<not> pk" "y = gettoken s1" "(tok, z) = y" "(t, s2) = z"
  then have "length s2 < length s" using gettoken_consumes(2)[of _ s s1 tok t s2] by simp
  then show "((BACK c, s2), c, s) \<in> measure (\<lambda>(c, s). length s)" by simp
qed

declare back_loop.simps [simp del]

text \<open>The recursive part of the grammar.\<close>

fun parseline :: "nat \<Rightarrow> byte list \<Rightarrow> token cmd parsed"
  and parsepipe :: "nat \<Rightarrow> byte list \<Rightarrow> token cmd parsed"
  and parseexec :: "nat \<Rightarrow> byte list \<Rightarrow> token cmd parsed"
  and parseblock :: "nat \<Rightarrow> byte list \<Rightarrow> token cmd parsed" where
  "parseline 0 s = Fuel_out"
| "parseline (Suc n) s = pbind (parsepipe n s) (\<lambda>c s.
     let (c, s) = back_loop c s; (pk, s) = peek [59] s in
     if pk then let (_, _, s) = gettoken s in pbind (parseline n s) (\<lambda>d s. Parsed (LIST c d) s)
     else Parsed c s)"
| "parsepipe 0 s = Fuel_out"
| "parsepipe (Suc n) s = pbind (parseexec n s) (\<lambda>c s.
     let (pk, s) = peek [124] s in
     if pk then let (_, _, s) = gettoken s in pbind (parsepipe n s) (\<lambda>d s. Parsed (PIPE c d) s)
     else Parsed c s)"
| "parseexec 0 s = Fuel_out"
| "parseexec (Suc n) s =
     (let (pk, s) = peek [40] s in
      if pk then parseblock n s
      else pbind (redirs_loop [] s) (\<lambda>rs s.
        pbind (args_loop rs [] s) (\<lambda>(rs, args) s. Parsed (foldl redircmd (EXEC args) rs) s)))"
| "parseblock 0 s = Fuel_out"
| "parseblock (Suc n) s =
     (let (pk, s) = peek [40] s in
      if \<not> pk then Syntax ''parseblock''
      else let (_, _, s) = gettoken s in pbind (parseline n s) (\<lambda>c s.
        let (pk, s) = peek [41] s in
        if \<not> pk then Syntax ''syntax - missing )''
        else let (_, _, s) = gettoken s in parseredirs c s))"

text \<open>
  \<open>nulterminate\<close> stores a zero at the end of every word; \<open>n\<close> is the length of the line, so that a
  pointer \<open>e\<close> is the index \<open>n - length e\<close> of the buffer.
\<close>

fun nulterminate :: "nat \<Rightarrow> token cmd \<Rightarrow> byte list \<Rightarrow> byte list" where
  "nulterminate n (EXEC ts) b = fold (\<lambda>t b. b[n - length (snd t) := 0]) ts b"
| "nulterminate n (REDIR c t mode fd) b = (nulterminate n c b)[n - length (snd t) := 0]"
| "nulterminate n (PIPE c d) b = nulterminate n d (nulterminate n c b)"
| "nulterminate n (LIST c d) b = nulterminate n d (nulterminate n c b)"
| "nulterminate n (BACK c) b = nulterminate n c b"

text \<open>\<open>parsecmd\<close> returns the command and leaves the buffer with its words terminated.\<close>

definition parsecmd :: "byte list \<Rightarrow> (token cmd \<times> byte list) parsed" where
  "parsecmd b = pbind (parseline (4 * length b + 4) b) (\<lambda>c s.
     let (_, s) = peek [] s in
     if s \<noteq> [] then Syntax ''syntax''
     else Parsed (c, nulterminate (length b) c (b @ [0])) s)"

section \<open>What the parser returns\<close>

text \<open>
  A token of the line \<open>b\<close>: a maximal run of plain characters.  \<open>good b P s r\<close> says of the result \<open>r\<close>
  of a parser at \<open>s\<close> that there was enough fuel, that the rest is a rest of the line, no longer
  than \<open>s\<close>, and that the value satisfies \<open>P\<close>.
\<close>

definition rest_of :: "byte list \<Rightarrow> byte list \<Rightarrow> bool" where
  "rest_of b s \<longleftrightarrow> (\<exists>u. b = u @ s)"

definition tok_ok :: "byte list \<Rightarrow> token \<Rightarrow> bool" where
  "tok_ok b t \<longleftrightarrow> rest_of b (fst t) \<and> (\<exists>w. fst t = w @ snd t \<and> w \<noteq> [] \<and> list_all plain w) \<and>
     (\<forall>c r. snd t = c # r \<longrightarrow> \<not> plain c)"

fun good :: "byte list \<Rightarrow> ('a \<Rightarrow> bool) \<Rightarrow> byte list \<Rightarrow> 'a parsed \<Rightarrow> bool" where
  "good b P s (Parsed a s') \<longleftrightarrow> rest_of b s' \<and> length s' \<le> length s \<and> P a"
| "good b P s (Syntax msg) \<longleftrightarrow> True"
| "good b P s Fuel_out \<longleftrightarrow> False"

lemma good_pbind:
  assumes "good b P s r" and "\<And>a s'. P a \<Longrightarrow> rest_of b s' \<Longrightarrow> length s' \<le> length s \<Longrightarrow> good b Q s (f a s')"
  shows "good b Q s (pbind r f)"
  using assms by (cases r) auto

lemma good_weaken: "good b P s' r \<Longrightarrow> length s' \<le> length s \<Longrightarrow> good b P s r"
  by (cases r) auto

lemma rest_of_dropWhile: "rest_of b s \<Longrightarrow> rest_of b (dropWhile P s)"
  unfolding rest_of_def by (metis append.assoc takeWhile_dropWhile_id)

lemma rest_of_tl: "rest_of b (c # s) \<Longrightarrow> rest_of b s"
  unfolding rest_of_def by (metis append.assoc append_Cons append_Nil)

lemma rest_of_peek: "peek toks s = (pk, s') \<Longrightarrow> rest_of b s \<Longrightarrow> rest_of b s'"
  by (auto simp: peek_def Let_def skip_white_def rest_of_dropWhile)

lemma token_at_rest:
  assumes "rest_of b s" shows "rest_of b (snd (token_at s))"
proof (cases s)
  case (Cons c r)
  then have r: "rest_of b r" using assms rest_of_tl by simp
  moreover have "rest_of b (tl r)" if "r \<noteq> []" using that r rest_of_tl[of b "hd r" "tl r"] by simp
  ultimately show ?thesis using Cons assms rest_of_dropWhile[of b s plain] by auto
qed (use assms in simp)

lemma token_at_word:
  assumes "fst (token_at s) = 97" and "rest_of b s" and "\<And>c r. s = c # r \<Longrightarrow> \<not> white c"
  shows "tok_ok b (s, snd (token_at s))"
proof (cases s)
  case (Cons c r)
  then have c: "plain c" using assms(1,3) by (auto simp: symbol_iff split: if_splits)
  then have e: "snd (token_at s) = dropWhile plain s" using Cons token_at_plain[of c r] by simp
  have "takeWhile plain s \<noteq> []" "list_all plain (takeWhile plain s)" using c Cons by (auto simp: list_all_iff dest: set_takeWhileD)
  moreover have "\<not> plain d" if "dropWhile plain s = d # u" for d u using that by (metis hd_dropWhile list.distinct(1) list.sel(1))
  moreover have "s = takeWhile plain s @ dropWhile plain s" by simp
  ultimately have "\<exists>w. s = w @ dropWhile plain s \<and> w \<noteq> [] \<and> list_all plain w" by blast
  then show ?thesis unfolding tok_ok_def e fst_conv snd_conv using assms(2) \<open>\<And>d u. dropWhile plain s = d # u \<Longrightarrow> \<not> plain d\<close> by blast
qed (use assms(1) in simp)

lemma rest_of_gettoken:
  assumes "gettoken s = (tok, t, s')" and "rest_of b s"
  shows "rest_of b s'" and "tok = 97 \<Longrightarrow> tok_ok b t"
proof -
  have e: "s' = skip_white (snd (token_at (skip_white s)))" "tok = fst (token_at (skip_white s))"
    "t = (skip_white s, snd (token_at (skip_white s)))"
    using assms(1) by (auto simp: gettoken_def Let_def split: prod.splits)
  have r: "rest_of b (skip_white s)" using assms(2) by (simp add: skip_white_def rest_of_dropWhile)
  show "rest_of b s'" using token_at_rest[OF r] e(1) by (simp add: skip_white_def rest_of_dropWhile)
  show "tok_ok b t" if "tok = 97" using token_at_word[OF _ r skip_white_hd] that e by simp
qed

abbreviation rs_ok :: "byte list \<Rightarrow> redir list \<Rightarrow> bool" where
  "rs_ok b rs \<equiv> \<forall>r \<in> set rs. tok_ok b (fst r)"

lemma redirs_loop_good: "rest_of b s \<Longrightarrow> rs_ok b rs \<Longrightarrow> good b (rs_ok b) s (redirs_loop rs s)"
proof (induction rs s rule: redirs_loop.induct)
  case (1 rs s)
  obtain pk s1 where p: "peek [60, 62] s = (pk, s1)" by (cases "peek [60, 62] s") auto
  obtain tok t1 s2 where g: "gettoken s1 = (tok, t1, s2)" by (cases "gettoken s1") auto
  obtain kind t s3 where k: "gettoken s2 = (kind, t, s3)" by (cases "gettoken s2") auto
  have l: "length s1 \<le> length s" "length s3 \<le> length s"
    using peek_shorter[OF p] gettoken_shorter(1)[OF g] gettoken_shorter(1)[OF k] by simp_all
  have r: "rest_of b s1" "rest_of b s2" "rest_of b s3"
    using rest_of_peek[OF p 1(2)] rest_of_gettoken(1)[OF g] rest_of_gettoken(1)[OF k] by simp_all
  have u: "redirs_loop rs s = (if \<not> pk then Parsed rs s1 else if kind \<noteq> 97 then Syntax ''missing file for redirection''
      else redirs_loop (rs @ [(if tok = 60 then (t, 0, 0) else (t, 0x201, 1))]) s3)"
    by (subst redirs_loop.simps) (simp add: p g k)
  show ?case
  proof (cases "pk \<and> kind = 97")
    case True
    then have "good b (rs_ok b) s3 (redirs_loop rs s)"
      using 1(1)[OF p[symmetric] refl _ g[symmetric] refl refl k[symmetric] refl refl] 1(3) u r rest_of_gettoken(2)[OF k] by simp
    then show ?thesis using l good_weaken by blast
  next
    case False
    then show ?thesis using 1(3) u l r by simp
  qed
qed

lemma args_loop_good:
  "rest_of b s \<Longrightarrow> rs_ok b rs \<Longrightarrow> \<forall>t \<in> set args. tok_ok b t \<Longrightarrow>
   good b (\<lambda>(rs, args). rs_ok b rs \<and> (\<forall>t \<in> set args. tok_ok b t)) s (args_loop rs args s)"
proof (induction rs args s rule: args_loop.induct)
  case (1 rs args s)
  obtain pk s1 where p: "peek [124, 41, 38, 59] s = (pk, s1)" by (cases "peek [124, 41, 38, 59] s") auto
  obtain tok t s2 where g: "gettoken s1 = (tok, t, s2)" by (cases "gettoken s1") auto
  have l: "length s1 \<le> length s" "length s2 \<le> length s" using peek_shorter[OF p] gettoken_shorter(1)[OF g] by simp_all
  have r: "rest_of b s1" "rest_of b s2" using rest_of_peek[OF p 1(2)] rest_of_gettoken(1)[OF g] by simp_all
  have u: "args_loop rs args s = (if pk then Parsed (rs, args) s1 else if tok = 0 then Parsed (rs, args) s2
      else if tok \<noteq> 97 then Syntax ''syntax'' else if MAXARGS \<le> length (args @ [t]) then Syntax ''too many args''
      else pbind (redirs_loop rs s2) (\<lambda>rs s. args_loop rs (args @ [t]) s))"
    by (subst args_loop.simps) (simp add: p g)
  show ?case
  proof (cases "pk \<or> tok \<noteq> 97 \<or> MAXARGS \<le> length (args @ [t])")
    case True
    then show ?thesis using 1(3,4) l r unfolding u by auto
  next
    case False
    note rd = redirs_loop_good[OF r(2) 1(3)]
    show ?thesis
    proof (cases "redirs_loop rs s2")
      case (Parsed rs' s')
      have "good b (\<lambda>(rs, args). rs_ok b rs \<and> (\<forall>t \<in> set args. tok_ok b t)) s' (args_loop rs' (args @ [t]) s')"
        using False rd Parsed rest_of_gettoken(2)[OF g r(1)] 1(4)
        by (intro 1(1)[OF p[symmetric] refl _ g[symmetric] refl refl _ _ refl _ Parsed]) auto
      then show ?thesis using False u Parsed rd l good_weaken[of b _ s' _ s] by simp
    qed (use False u rd in simp_all)
  qed
qed

abbreviation cmd_ok :: "byte list \<Rightarrow> token cmd \<Rightarrow> bool" where
  "cmd_ok b c \<equiv> \<forall>t \<in> set_cmd c. tok_ok b t"

lemma back_loop_good:
  "back_loop c s = (c', s') \<Longrightarrow> rest_of b s \<Longrightarrow> rest_of b s' \<and> length s' \<le> length s \<and> set_cmd c' = set_cmd c"
proof (induction c s rule: back_loop.induct)
  case (1 c s)
  obtain pk s1 where p: "peek [38] s = (pk, s1)" by (cases "peek [38] s") auto
  obtain tok t s2 where g: "gettoken s1 = (tok, t, s2)" by (cases "gettoken s1") auto
  have u: "back_loop c s = (if \<not> pk then (c, s1) else back_loop (BACK c) s2)"
    by (subst back_loop.simps) (simp add: p g)
  have l: "length s1 \<le> length s" "length s2 \<le> length s1" using peek_shorter[OF p] gettoken_shorter(1)[OF g] by simp_all
  have r: "rest_of b s1" "rest_of b s2" using rest_of_peek[OF p 1(3)] rest_of_gettoken(1)[OF g] by simp_all
  show ?case
  proof (cases pk)
    case True
    then show ?thesis using 1(1)[OF p[symmetric] refl _ g[symmetric] refl refl] 1(2) u l r by simp
  next
    case False
    then show ?thesis using 1(2) u l r by simp
  qed
qed

lemma set_foldl_redircmd: "set_cmd (foldl redircmd c rs) = set_cmd c \<union> fst ` set rs"
  by (induction rs arbitrary: c) (auto simp: redircmd_def)

lemma parseredirs_good: "rest_of b s \<Longrightarrow> cmd_ok b c \<Longrightarrow> good b (cmd_ok b) s (parseredirs c s)"
  unfolding parseredirs_def by (rule good_pbind[OF redirs_loop_good]) (auto simp: set_foldl_redircmd)

lemma parseexec_good:
  assumes s: "rest_of b s" and blk: "\<And>s'. rest_of b s' \<Longrightarrow> length s' \<le> length s \<Longrightarrow> good b (cmd_ok b) s' (parseblock n s')"
  shows "good b (cmd_ok b) s (parseexec (Suc n) s)"
proof -
  obtain pk s1 where p: "peek [40] s = (pk, s1)" by (cases "peek [40] s") auto
  have l: "length s1 \<le> length s" using peek_shorter[OF p] .
  have r: "rest_of b s1" using rest_of_peek[OF p s] .
  have "good b (cmd_ok b) s1 (parseexec (Suc n) s)"
  proof (cases pk)
    case True
    then show ?thesis using blk[OF r l] p by simp
  next
    case False
    have "good b (cmd_ok b) s1 (pbind (redirs_loop [] s1) (\<lambda>rs s.
        pbind (args_loop rs [] s) (\<lambda>(rs, args) s. Parsed (foldl redircmd (EXEC args) rs) s)))"
    proof (rule good_pbind[OF redirs_loop_good[OF r]])
      fix rs s' assume a: "rs_ok b rs" "rest_of b s'" "length s' \<le> length s1"
      have "good b (cmd_ok b) s' (pbind (args_loop rs [] s') (\<lambda>(rs, args) s. Parsed (foldl redircmd (EXEC args) rs) s))"
        by (rule good_pbind[OF args_loop_good[OF a(2,1)]]) (fastforce simp: set_foldl_redircmd)+
      then show "good b (cmd_ok b) s1 (pbind (args_loop rs [] s') (\<lambda>(rs, args) s. Parsed (foldl redircmd (EXEC args) rs) s))"
        using a(3) good_weaken by blast
    qed simp
    then show ?thesis using False p by simp
  qed
  then show ?thesis using l good_weaken by blast
qed

lemma parseblock_good:
  assumes s: "rest_of b s" and line: "\<And>s'. rest_of b s' \<Longrightarrow> length s' < length s \<Longrightarrow> good b (cmd_ok b) s' (parseline n s')"
  shows "good b (cmd_ok b) s (parseblock (Suc n) s)"
proof -
  obtain pk s1 where p: "peek [40] s = (pk, s1)" by (cases "peek [40] s") auto
  obtain tok t s2 where g: "gettoken s1 = (tok, t, s2)" by (cases "gettoken s1") auto
  have r: "rest_of b s2" using rest_of_peek[OF p s] rest_of_gettoken(1)[OF g] by simp
  show ?thesis
  proof (cases pk)
    case True
    then have l: "length s2 < length s" using gettoken_consumes(2) p g by simp
    have "good b (cmd_ok b) s2 (pbind (parseline n s2) (\<lambda>c s.
        let (pk, s) = peek [41] s in
        if \<not> pk then Syntax ''syntax - missing )'' else let (_, _, s) = gettoken s in parseredirs c s))"
    proof (rule good_pbind[OF line[OF r l]])
      fix c s3 assume a: "cmd_ok b c" "rest_of b s3" "length s3 \<le> length s2"
      obtain pk' s4 where p': "peek [41] s3 = (pk', s4)" by (cases "peek [41] s3") auto
      obtain tok' t' s5 where g': "gettoken s4 = (tok', t', s5)" by (cases "gettoken s4") auto
      have "rest_of b s5" "length s5 \<le> length s3"
        using rest_of_peek[OF p' a(2)] rest_of_gettoken(1)[OF g'] peek_shorter[OF p'] gettoken_shorter(1)[OF g'] by simp_all
      then have "good b (cmd_ok b) s2 (parseredirs c s5)"
        using good_weaken[OF parseredirs_good[OF _ a(1)], of s5 s2] a(3) by simp
      then show "good b (cmd_ok b) s2 (let (pk, s) = peek [41] s3 in
        if \<not> pk then Syntax ''syntax - missing )'' else let (_, _, s) = gettoken s in parseredirs c s)"
        by (simp add: p' g')
    qed
    then show ?thesis using True p g l good_weaken[of b _ s2 _ s] by simp
  qed (use p in simp)
qed

lemma parsepipe_good:
  assumes s: "rest_of b s" and ex: "\<And>s'. rest_of b s' \<Longrightarrow> length s' \<le> length s \<Longrightarrow> good b (cmd_ok b) s' (parseexec n s')"
    and pipe: "\<And>s'. rest_of b s' \<Longrightarrow> length s' < length s \<Longrightarrow> good b (cmd_ok b) s' (parsepipe n s')"
  shows "good b (cmd_ok b) s (parsepipe (Suc n) s)"
  unfolding parsepipe.simps
proof (rule good_pbind[OF ex[OF s order_refl]])
  fix c s1 assume a: "cmd_ok b c" "rest_of b s1" "length s1 \<le> length s"
  obtain pk s2 where p: "peek [124] s1 = (pk, s2)" by (cases "peek [124] s1") auto
  obtain tok t s3 where g: "gettoken s2 = (tok, t, s3)" by (cases "gettoken s2") auto
  have r: "rest_of b s2" "rest_of b s3" using rest_of_peek[OF p a(2)] rest_of_gettoken(1)[OF g] by simp_all
  have "good b (cmd_ok b) s (pbind (parsepipe n s3) (\<lambda>d s. Parsed (PIPE c d) s))" if pk
  proof -
    have l: "length s3 < length s" using gettoken_consumes(2)[of "[124]" s1 s2 tok t s3] p g that a(3) by simp
    have "good b (cmd_ok b) s3 (pbind (parsepipe n s3) (\<lambda>d s. Parsed (PIPE c d) s))"
      by (rule good_pbind[OF pipe[OF r(2) l]]) (use a(1) in auto)
    then show ?thesis using l good_weaken[of b _ s3 _ s] by simp
  qed
  then show "good b (cmd_ok b) s (let (pk, s) = peek [124] s1 in
     if pk then let (_, _, s) = gettoken s in pbind (parsepipe n s) (\<lambda>d s. Parsed (PIPE c d) s) else Parsed c s)"
    using a r peek_shorter[OF p] by (simp add: p g)
qed

lemma parseline_good:
  assumes s: "rest_of b s" and pipe: "\<And>s'. rest_of b s' \<Longrightarrow> length s' \<le> length s \<Longrightarrow> good b (cmd_ok b) s' (parsepipe n s')"
    and line: "\<And>s'. rest_of b s' \<Longrightarrow> length s' < length s \<Longrightarrow> good b (cmd_ok b) s' (parseline n s')"
  shows "good b (cmd_ok b) s (parseline (Suc n) s)"
  unfolding parseline.simps
proof (rule good_pbind[OF pipe[OF s order_refl]])
  fix c s0 assume a: "cmd_ok b c" "rest_of b s0" "length s0 \<le> length s"
  obtain c1 s1 where bl: "back_loop c s0 = (c1, s1)" by (cases "back_loop c s0") auto
  note b1 = back_loop_good[OF bl a(2)]
  obtain pk s2 where p: "peek [59] s1 = (pk, s2)" by (cases "peek [59] s1") auto
  obtain tok t s3 where g: "gettoken s2 = (tok, t, s3)" by (cases "gettoken s2") auto
  have r: "rest_of b s2" "rest_of b s3" using rest_of_peek[OF p] b1 rest_of_gettoken(1)[OF g] by simp_all
  have "good b (cmd_ok b) s (pbind (parseline n s3) (\<lambda>d s. Parsed (LIST c1 d) s))" if pk
  proof -
    have l: "length s3 < length s" using gettoken_consumes(2)[of "[59]" s1 s2 tok t s3] p g that a(3) b1 by simp
    have "good b (cmd_ok b) s3 (pbind (parseline n s3) (\<lambda>d s. Parsed (LIST c1 d) s))"
      by (rule good_pbind[OF line[OF r(2) l]]) (use a(1) b1 in auto)
    then show ?thesis using l good_weaken[of b _ s3 _ s] by simp
  qed
  then show "good b (cmd_ok b) s (let (c, s) = back_loop c s0; (pk, s) = peek [59] s in
     if pk then let (_, _, s) = gettoken s in pbind (parseline n s) (\<lambda>d s. Parsed (LIST c d) s) else Parsed c s)"
    using a b1 r peek_shorter[OF p] by (simp add: bl p g)
qed

lemma parse_good:
  "rest_of b s \<Longrightarrow> (4 * length s + 4 \<le> n \<longrightarrow> good b (cmd_ok b) s (parseline n s)) \<and>
     (4 * length s + 3 \<le> n \<longrightarrow> good b (cmd_ok b) s (parsepipe n s)) \<and>
     (4 * length s + 2 \<le> n \<longrightarrow> good b (cmd_ok b) s (parseexec n s)) \<and>
     (4 * length s + 1 \<le> n \<longrightarrow> good b (cmd_ok b) s (parseblock n s))"
proof (induction n arbitrary: s)
  case (Suc n)
  have line: "good b (cmd_ok b) s (parseline (Suc n) s)" if "4 * length s + 4 \<le> Suc n"
    using that by (intro parseline_good[OF Suc.prems]) (use Suc.IH in auto)
  have pipe: "good b (cmd_ok b) s (parsepipe (Suc n) s)" if "4 * length s + 3 \<le> Suc n"
    using that by (intro parsepipe_good[OF Suc.prems]) (use Suc.IH in auto)
  have ex: "good b (cmd_ok b) s (parseexec (Suc n) s)" if "4 * length s + 2 \<le> Suc n"
    using that by (intro parseexec_good[OF Suc.prems]) (use Suc.IH in auto)
  have "good b (cmd_ok b) s (parseblock (Suc n) s)" if "4 * length s + 1 \<le> Suc n"
    using that by (intro parseblock_good[OF Suc.prems]) (use Suc.IH in auto)
  then show ?case using line pipe ex by blast
qed simp

lemma parseline_line_good: "good b (cmd_ok b) b (parseline (4 * length b + 4) b)"
  using parse_good[of b b] by (simp add: rest_of_def)

text \<open>C34: The shell's parser ends on every line.  Its recursion never runs out of the fuel that is
  proportional to the length of the line, so \<open>parsecmd\<close> returns a command or stops with one of the
  syntax messages.\<close>
theorem parsecmd_returns:
  "(\<exists>c buf. parsecmd b = Parsed (c, buf) []) \<or>
   (\<exists>msg. parsecmd b = Syntax msg)"
proof (cases "parseline (4 * length b + 4) b")
  case (Parsed c s)
  then show ?thesis by (auto simp: parsecmd_def split: prod.splits)
next
  case (Syntax msg)
  then show ?thesis by (simp add: parsecmd_def)
next
  case Fuel_out
  then show ?thesis using parseline_line_good[of b] by simp
qed

lemma fold_update_nth:
  "length (fold (\<lambda>t b. b[f t := 0]) ts buf) = length buf \<and>
   (i < length buf \<longrightarrow> fold (\<lambda>t b. b[f t := 0]) ts buf ! i = (if i \<in> f ` set ts then 0 else buf ! i))"
  by (induction ts arbitrary: buf) (auto simp: nth_list_update)

lemma nulterminate_length [simp]: "length (nulterminate n c buf) = length buf"
proof (induction c arbitrary: buf)
  case (EXEC ts)
  then show ?case using fold_update_nth[of "\<lambda>t. n - length (snd t)" ts buf] by simp
qed simp_all

lemma nulterminate_nth:
  "i < length buf \<Longrightarrow> nulterminate n c buf ! i = (if i \<in> (\<lambda>t. n - length (snd t)) ` set_cmd c then 0 else buf ! i)"
proof (induction c arbitrary: buf)
  case (EXEC ts)
  then show ?case using fold_update_nth[of "\<lambda>t. n - length (snd t)" ts buf i] by simp
next
  case (REDIR c t mode fd)
  then show ?case by (cases "i = n - length (snd t)") simp_all
qed auto

text \<open>The C string at a pointer into the terminated line.\<close>

definition cstring_at :: "byte list \<Rightarrow> nat \<Rightarrow> byte list" where
  "cstring_at buf i = takeWhile (\<lambda>c. c \<noteq> 0) (drop i buf)"

lemma terminated_word:
  assumes b: "0 \<notin> set b" and ok: "cmd_ok b c" and t: "t \<in> set_cmd c"
  shows "cstring_at (nulterminate (length b) c (b @ [0])) (length b - length (fst t)) = word_of t"
proof -
  let ?buf = "nulterminate (length b) c (b @ [0])"
  have ends: "i = length b \<or> \<not> plain (b ! i)" if e: "i \<in> (\<lambda>t. length b - length (snd t)) ` set_cmd c" for i
  proof -
    obtain t' where t': "t' \<in> set_cmd c" "i = length b - length (snd t')" using e by auto
    then obtain u w where "b = u @ w @ snd t'" "\<forall>d r. snd t' = d # r \<longrightarrow> \<not> plain d"
      using ok by (fastforce simp: tok_ok_def rest_of_def)
    then show ?thesis using t'(2) by (cases "snd t'") (auto simp: nth_append)
  qed
  obtain u w where w: "b = u @ fst t" "fst t = w @ snd t" "list_all plain w" using ok t by (auto simp: tok_ok_def rest_of_def)
  have i: "length b - length (fst t) = length u" "length b - length (snd t) = length u + length w" using w(1,2) by auto
  have in_w: "?buf ! (length u + k) = w ! k \<and> w ! k \<noteq> 0" if "k < length w" for k
  proof -
    have "b ! (length u + k) = w ! k" using w(1,2) that by (simp add: nth_append)
    moreover have "length u + k < length b" using w(1,2) that by simp
    moreover have "plain (w ! k)" using w(3) that by (simp add: list_all_length)
    ultimately show ?thesis
      using nulterminate_nth[of "length u + k" "b @ [0]" "length b" c] ends[of "length u + k"] b nth_mem[of "length u + k" b]
      by (auto simp: nth_append)
  qed
  have at_end: "?buf ! (length u + length w) = 0" and len: "length u + length w < length ?buf"
    using nulterminate_nth[of "length u + length w" "b @ [0]" "length b" c] t i(2) w(1,2) by (auto simp: image_iff)
  have "cstring_at ?buf (length u) = take (length w) (drop (length u) ?buf)"
    unfolding cstring_at_def using in_w at_end len by (intro takeWhile_eq_take_P_nth) auto
  also have "\<dots> = w" using in_w len by (intro nth_equalityI) auto
  also have "w = word_of t" using w(2) by (simp add: word_of_def)
  finally show ?thesis by (simp add: i)
qed

text \<open>C33: The words of a command.  When \<open>parsecmd\<close> accepts a line, every argument and
  every file name of the command is a nonempty run of plain characters of the
  line, ended by a blank, a symbol or the end of the line, and after \<open>nulterminate\<close> it is
  exactly the C string that the pointer in the command refers to: the zeros stored for
  one word never cut another.\<close>
theorem parsecmd_words:
  assumes "0 \<notin> set b" and "parsecmd b = Parsed (c, buf) s" and "t \<in> set_cmd c"
  shows "cstring_at buf (length b - length (fst t)) = word_of t \<and> word_of t \<noteq> [] \<and> list_all plain (word_of t) \<and>
     (\<exists>u. b = u @ word_of t @ snd t \<and> (\<forall>d r. snd t = d # r \<longrightarrow> \<not> plain d))"
proof -
  obtain s' where p: "parseline (4 * length b + 4) b = Parsed c s'" "buf = nulterminate (length b) c (b @ [0])"
    using assms(2) by (cases "parseline (4 * length b + 4) b") (auto simp: parsecmd_def split: prod.splits if_splits)
  then have ok: "cmd_ok b c" using parseline_line_good[of b] by simp
  then obtain u w where "b = u @ fst t" "fst t = w @ snd t" "w \<noteq> []" "list_all plain w" "\<forall>d r. snd t = d # r \<longrightarrow> \<not> plain d"
    using assms(3) by (fastforce simp: tok_ok_def rest_of_def)
  moreover from this have "word_of t = w" by (simp add: word_of_def)
  ultimately show ?thesis using terminated_word[OF assms(1) ok assms(3)] p(2) by auto
qed

lemma demo_parse:
  "parsecmd [108, 115, 62, 102] = Parsed (REDIR (EXEC [([108, 115, 62, 102], [62, 102])]) ([102], []) 0x201 1, [108, 115, 0, 102, 0]) []"
  by code_simp

theorem parsecmd_words_witness:
  "cstring_at [108, 115, 0, 102, 0] 0 = [108, 115] \<and> cstring_at [108, 115, 0, 102, 0] 3 = [102]"
  using parsecmd_words[OF _ demo_parse, of "([108, 115, 62, 102], [62, 102])"]
    parsecmd_words[OF _ demo_parse, of "([102], [])"] by (simp add: word_of_def numeral_3_eq_3)

end
