(* ===== verification/Unparse.thy ===== *)
theory Unparse
  imports Sh
begin

text \<open>
  The shell's grammar against a printer: a command that is printed is parsed back.
\<close>

section \<open>Printing and parsing\<close>

text \<open>A printer for commands that puts parentheses around every part, and the commands it can print.\<close>

fun unparse :: "byte list cmd \<Rightarrow> byte list" where
  "unparse (EXEC ws) = concat (map (\<lambda>w. w @ [32]) ws)"
| "unparse (REDIR c w mode fd) = 40 # unparse c @ 41 # (if fd = 0 then 60 else 62) # w"
| "unparse (PIPE c d) = 40 # unparse c @ [41, 124, 40] @ unparse d @ [41]"
| "unparse (LIST c d) = 40 # unparse c @ [41, 59, 40] @ unparse d @ [41]"
| "unparse (BACK c) = 40 # unparse c @ [41, 38]"

definition word :: "byte list \<Rightarrow> bool" where
  "word w \<longleftrightarrow> w \<noteq> [] \<and> list_all plain w"

fun printable :: "byte list cmd \<Rightarrow> bool" where
  "printable (EXEC ws) \<longleftrightarrow> length ws < MAXARGS \<and> list_all word ws"
| "printable (REDIR c w mode fd) \<longleftrightarrow> printable c \<and> word w \<and> (mode = 0 \<and> fd = 0 \<or> mode = 0x201 \<and> fd = 1)"
| "printable (PIPE c d) \<longleftrightarrow> printable c \<and> printable d"
| "printable (LIST c d) \<longleftrightarrow> printable c \<and> printable d"
| "printable (BACK c) \<longleftrightarrow> printable c"

lemma skip_white_id: "s = [] \<or> \<not> white (hd s) \<Longrightarrow> skip_white s = s"
  by (cases s) (auto simp: skip_white_def)

lemma peek_id: "\<not> white c \<Longrightarrow> peek toks (c # r) = (strchr toks c \<noteq> None, c # r)" "peek toks [] = (False, [])"
  by (simp_all add: peek_def skip_white_def)

lemma plain_not_in: "plain c \<Longrightarrow> set toks \<subseteq> set symbols \<Longrightarrow> strchr toks c = None"
proof (induction toks)
  case (Cons x toks)
  then have "symbol x" by (auto simp: symbols_def symbol_iff)
  then have "x \<noteq> c" using Cons.prems(1) by auto
  then show ?case using Cons by simp
qed simp

lemma gettoken_word:
  assumes "word w" and "e = [] \<or> \<not> plain (hd e)"
  shows "gettoken (w @ e) = (97, (w @ e, e), skip_white e)"
proof -
  obtain c w' where w: "w = c # w'" "plain c" "list_all plain w'" using assms(1) by (cases w) (auto simp: word_def)
  have "dropWhile plain (w' @ e) = e" using w(3) assms(2) by (induction w') (cases e, auto)+
  then have "token_at (w @ e) = (97, e)" using token_at_plain[OF w(2), of "w' @ e"] w(1) by simp
  moreover have "skip_white (w @ e) = w @ e" using w by (intro skip_white_id) simp
  ultimately show ?thesis by (simp add: gettoken_def)
qed

lemma gettoken_symbol:
  "c = 124 \<or> c = 40 \<or> c = 41 \<or> c = 59 \<or> c = 38 \<or> c = 60 \<Longrightarrow> gettoken (c # r) = (c, (c # r, r), skip_white r)"
  "r = [] \<or> hd r \<noteq> 62 \<Longrightarrow> gettoken (62 # r) = (62, (62 # r, r), skip_white r)"
  using skip_white_id[of "c # r"] skip_white_id[of "62 # r"] by (auto simp: gettoken_def white_iff)

text \<open>What may follow a command in parentheses, and a command inside parentheses.\<close>

definition follow :: "byte list \<Rightarrow> bool" where
  "follow r \<longleftrightarrow> r = [] \<or> hd r = 41 \<or> hd r = 124 \<or> hd r = 59 \<or> hd r = 38"

definition stop :: "byte list \<Rightarrow> bool" where
  "stop r \<longleftrightarrow> r = [] \<or> hd r = 41"

lemma follow_facts:
  assumes "follow r"
  shows "skip_white r = r" "redirs_loop rs r = Parsed rs r" "r = [] \<or> \<not> plain (hd r)"
proof -
  show "r = [] \<or> \<not> plain (hd r)" using assms by (auto simp: follow_def symbol_iff)
  show "skip_white r = r" using assms by (intro skip_white_id) (auto simp: follow_def white_iff)
  have "peek [60, 62] r = (False, r)"
    using assms by (cases r) (auto simp: follow_def peek_id white_iff)
  then show "redirs_loop rs r = Parsed rs r" by (subst redirs_loop.simps) simp
qed

lemma stop_facts:
  assumes "stop r"
  shows "follow r" "back_loop c r = (c, r)" "peek [59] r = (False, r)" "peek [124] r = (False, r)"
    "\<exists>tok t. peek [124, 41, 38, 59] r = (True, r) \<or> peek [124, 41, 38, 59] r = (False, r) \<and> gettoken r = (0, t, r)"
proof -
  show "follow r" using assms by (auto simp: stop_def follow_def)
  show p: "peek [59] r = (False, r)" "peek [124] r = (False, r)" using assms by (cases r; auto simp: stop_def peek_id white_iff)+
  have "peek [38] r = (False, r)" using assms by (cases r) (auto simp: stop_def peek_id white_iff)
  then show "back_loop c r = (c, r)" by (subst back_loop.simps) simp
  show "\<exists>tok t. peek [124, 41, 38, 59] r = (True, r) \<or> peek [124, 41, 38, 59] r = (False, r) \<and> gettoken r = (0, t, r)"
    using assms by (cases r) (auto simp: stop_def peek_id white_iff gettoken_def skip_white_def)
qed

lemma word_head: "word w \<Longrightarrow> \<exists>c w'. w = c # w' \<and> plain c"
  by (cases w) (auto simp: word_def)

lemma redirs_word: "word w \<Longrightarrow> redirs_loop rs (w @ r) = Parsed rs (w @ r)"
proof -
  assume "word w"
  then obtain c w' where w: "w = c # w'" "plain c" using word_head by blast
  then have "peek [60, 62] (w @ r) = (False, w @ r)" using plain_not_in[of c "[60, 62]"] by (simp add: peek_id symbols_def)
  then show ?thesis by (subst redirs_loop.simps) simp
qed

lemma args_words:
  assumes "stop r" and "list_all word ws" and "length args + length ws < MAXARGS"
  shows "\<exists>ts. args_loop rs args (concat (map (\<lambda>w. w @ [32]) ws) @ r) = Parsed (rs, args @ ts) r \<and> map word_of ts = ws"
  using assms(2,3)
proof (induction ws arbitrary: args)
  case Nil
  then show ?case using stop_facts(5)[OF assms(1)] by (subst args_loop.simps) auto
next
  case (Cons w ws)
  let ?r = "concat (map (\<lambda>w. w @ [32]) ws) @ r"
  have w: "word w" using Cons.prems by simp
  then obtain c w' where c: "w = c # w'" "plain c" using word_head by blast
  have p: "peek [124, 41, 38, 59] (w @ 32 # ?r) = (False, w @ 32 # ?r)"
    using c plain_not_in[of c "[124, 41, 38, 59]"] by (simp add: peek_id symbols_def)
  have sk: "skip_white (32 # ?r) = ?r \<and> redirs_loop rs ?r = Parsed rs ?r"
  proof (cases ws)
    case Nil
    then show ?thesis using follow_facts[OF stop_facts(1)[OF assms(1)]] by (simp add: skip_white_def white_iff)
  next
    case (Cons v vs)
    then have v: "word v" using Cons.prems by simp
    then have "skip_white ?r = ?r" using word_head[OF v] Cons by (intro skip_white_id) auto
    then show ?thesis using redirs_word[OF v] Cons by (simp add: skip_white_def white_iff)
  qed
  have g: "gettoken (w @ 32 # ?r) = (97, (w @ 32 # ?r, 32 # ?r), ?r)"
    using gettoken_word[OF w, of "32 # ?r"] sk by (simp add: white_iff)
  obtain ts where ts: "args_loop rs (args @ [(w @ 32 # ?r, 32 # ?r)]) ?r = Parsed (rs, (args @ [(w @ 32 # ?r, 32 # ?r)]) @ ts) r"
      "map word_of ts = ws"
    using Cons.IH[of "args @ [(w @ 32 # ?r, 32 # ?r)]"] Cons.prems by auto
  have "args_loop rs args (w @ 32 # ?r) = Parsed (rs, args @ (w @ 32 # ?r, 32 # ?r) # ts) r"
    using Cons.prems(2) ts(1) by (subst args_loop.simps) (simp add: p g sk)
  moreover have "word_of (w @ 32 # ?r, 32 # ?r) = w" by (simp add: word_of_def)
  ultimately show ?case using ts(2) by (intro exI[of _ "(w @ 32 # ?r, 32 # ?r) # ts"]) simp
qed

text \<open>\<open>reads n c\<close>: a parser returns, at the given rest, a tree that says the same as \<open>c\<close>.\<close>

definition reads :: "token cmd parsed \<Rightarrow> byte list cmd \<Rightarrow> byte list \<Rightarrow> bool" where
  "reads p c r \<longleftrightarrow> (\<exists>d. p = Parsed d r \<and> map_cmd word_of d = c)"

lemma unparse_head: "printable c \<Longrightarrow> stop r \<Longrightarrow> skip_white (unparse c @ r) = unparse c @ r"
proof (cases c)
  case (EXEC ws)
  assume a: "printable c" "stop r"
  then show ?thesis
    using EXEC follow_facts(1)[OF stop_facts(1)[OF a(2)]] by (cases ws) (auto intro!: skip_white_id dest!: word_head)
qed (auto intro!: skip_white_id simp: white_iff)

lemma reads_block:
  assumes c: "printable c" and line: "reads (parseline n (unparse c @ 41 # r)) c (41 # r)"
  shows "\<exists>d. map_cmd word_of d = c \<and> parseexec (Suc (Suc n)) (40 # unparse c @ 41 # r) = parseredirs d (skip_white r)"
proof -
  obtain d where d: "parseline n (unparse c @ 41 # r) = Parsed d (41 # r)" "map_cmd word_of d = c" using line by (auto simp: reads_def)
  have p: "peek [40] (40 # s) = (True, 40 # s)" "peek [41] (41 # s) = (True, 41 # s)" for s by (simp_all add: peek_id white_iff)
  have g: "gettoken (40 # unparse c @ 41 # r) = (40, (40 # unparse c @ 41 # r, unparse c @ 41 # r), unparse c @ 41 # r)"
    using gettoken_symbol(1)[of 40 "unparse c @ 41 # r"] unparse_head[OF c, of "41 # r"] by (simp add: stop_def)
  have "parseexec (Suc (Suc n)) (40 # unparse c @ 41 # r) = parseredirs d (skip_white r)"
    using d(1) gettoken_symbol(1)[of 41 r] by (simp add: p g)
  then show ?thesis using d(2) by blast
qed

lemma reads_exec:
  assumes "printable c" and "reads (parseline n (unparse c @ 41 # r)) c (41 # r)" and "follow r"
  shows "reads (parseexec (Suc (Suc n)) (40 # unparse c @ 41 # r)) c r"
  using reads_block[OF assms(1,2)] follow_facts[OF assms(3)] by (auto simp: reads_def parseredirs_def)

lemma reads_finish:
  assumes "reads (parseexec n s) c r" and "stop r"
  shows "reads (parsepipe (Suc n) s) c r" and "reads (parseline (Suc (Suc n)) s) c r"
  using assms(1) stop_facts(2-4)[OF assms(2)] by (auto simp: reads_def)

lemma reads_args:
  assumes "stop r" and "printable (EXEC ws)"
  shows "reads (parseexec (Suc n) (unparse (EXEC ws) @ r)) (EXEC ws) r"
proof -
  let ?s = "unparse (EXEC ws) @ r"
  obtain ts where ts: "args_loop [] [] ?s = Parsed ([], ts) r" "map word_of ts = ws"
    using args_words[OF assms(1), of ws "[]" "[]"] assms(2) by auto
  have "peek [40] ?s = (False, ?s) \<and> redirs_loop [] ?s = Parsed [] ?s"
  proof (cases ws)
    case Nil
    then show ?thesis
      using follow_facts(2)[OF stop_facts(1)[OF assms(1)], of "[]"] assms(1) by (cases r) (auto simp: stop_def peek_id white_iff)
  next
    case (Cons w ws')
    then have w: "word w" using assms(2) by simp
    then obtain c w' where c: "w = c # w'" "plain c" using word_head by blast
    then have "peek [40] ?s = (False, ?s)" using Cons plain_not_in[of c "[40]"] by (simp add: peek_id symbols_def)
    then show ?thesis using Cons redirs_word[OF w, of "[]"] by simp
  qed
  then show ?thesis using ts by (simp add: reads_def)
qed

lemma reads_redir:
  assumes c: "printable (REDIR c w mode fd)" and r: "stop r"
    and line: "reads (parseline n (unparse c @ 41 # (if fd = 0 then 60 else 62) # w @ r)) c (41 # (if fd = 0 then 60 else 62) # w @ r)"
  shows "reads (parseexec (Suc (Suc n)) (unparse (REDIR c w mode fd) @ r)) (REDIR c w mode fd) r"
proof -
  let ?y = "if fd = 0 then 60 else 62 :: byte"
  let ?s = "?y # w @ r"
  have w: "word w" "mode = 0 \<and> fd = 0 \<or> mode = 0x201 \<and> fd = 1" "printable c" using c by simp_all
  have f: "follow r" using stop_facts(1)[OF r] .
  obtain d where d: "map_cmd word_of d = c" "parseexec (Suc (Suc n)) (40 # unparse c @ 41 # ?s) = parseredirs d (skip_white ?s)"
    using reads_block[OF w(3) line] by blast
  have sk: "skip_white ?s = ?s" "skip_white (w @ r) = w @ r"
    using word_head[OF w(1)] by (auto intro!: skip_white_id simp: white_iff)
  have "hd (w @ r) \<noteq> 62" using word_head[OF w(1)] by (auto simp: symbol_iff)
  then have g: "gettoken ?s = (?y, (?s, w @ r), w @ r)"
    using gettoken_symbol(1)[of 60 "w @ r"] gettoken_symbol(2)[of "w @ r"] sk(2) by simp
  have k: "gettoken (w @ r) = (97, (w @ r, r), r)" using gettoken_word[OF w(1) follow_facts(3)[OF f]] follow_facts(1)[OF f] by simp
  have p: "peek [60, 62] ?s = (True, ?s)" by (simp add: peek_id white_iff)
  have "redirs_loop [] ?s = Parsed [((w @ r, r), mode, fd)] r"
    using w(2) follow_facts(2)[OF f] by (subst redirs_loop.simps) (auto simp: p g k)
  then have "parseredirs d ?s = Parsed (REDIR d (w @ r, r) mode fd) r" by (simp add: parseredirs_def redircmd_def)
  then show ?thesis using d sk(1) by (simp add: reads_def word_of_def)
qed

lemma fuel_Suc: "5 \<le> n \<Longrightarrow> \<exists>m. n = Suc (Suc (Suc (Suc (Suc m))))"
  by (intro exI[of _ "n - 5"]) simp

lemma reads_pipe:
  assumes c: "printable c" "reads (parseline (Suc n) (unparse c @ 41 # 124 # 40 # unparse d @ 41 # r)) c (41 # 124 # 40 # unparse d @ 41 # r)"
    and d: "printable d" "reads (parseline n (unparse d @ 41 # r)) d (41 # r)" and r: "stop r"
  shows "reads (parsepipe (Suc (Suc (Suc (Suc n)))) (unparse (PIPE c d) @ r)) (PIPE c d) r"
proof -
  let ?s = "40 # unparse d @ 41 # r"
  obtain c' where c': "parseexec (Suc (Suc (Suc n))) (40 # unparse c @ 41 # 124 # ?s) = Parsed c' (124 # ?s)" "map_cmd word_of c' = c"
    using reads_exec[OF c] by (auto simp: reads_def follow_def)
  obtain d' where d': "parsepipe (Suc (Suc (Suc n))) ?s = Parsed d' r" "map_cmd word_of d' = d"
    using reads_finish(1)[OF reads_exec[OF d stop_facts(1)[OF r]] r] by (auto simp: reads_def)
  have "peek [124] (124 # ?s) = (True, 124 # ?s)" by (simp add: peek_id white_iff)
  moreover have "gettoken (124 # ?s) = (124, (124 # ?s, ?s), ?s)"
    using gettoken_symbol(1)[of 124 ?s] skip_white_id[of ?s] by (simp add: white_iff)
  ultimately show ?thesis using c' d' by (simp add: reads_def)
qed

lemma reads_list:
  assumes c: "printable c" "reads (parseline (Suc n) (unparse c @ 41 # 59 # 40 # unparse d @ 41 # r)) c (41 # 59 # 40 # unparse d @ 41 # r)"
    and d: "printable d" "reads (parseline n (unparse d @ 41 # r)) d (41 # r)" and r: "stop r"
  shows "reads (parseline (Suc (Suc (Suc (Suc (Suc n))))) (unparse (LIST c d) @ r)) (LIST c d) r"
proof -
  let ?s = "40 # unparse d @ 41 # r"
  obtain c' where c': "parseexec (Suc (Suc (Suc n))) (40 # unparse c @ 41 # 59 # ?s) = Parsed c' (59 # ?s)" "map_cmd word_of c' = c"
    using reads_exec[OF c] by (auto simp: reads_def follow_def)
  obtain d' where d': "parseline (Suc (Suc (Suc (Suc n)))) ?s = Parsed d' r" "map_cmd word_of d' = d"
    using reads_finish(2)[OF reads_exec[OF d stop_facts(1)[OF r]] r] by (auto simp: reads_def)
  have p: "peek [124] (59 # ?s) = (False, 59 # ?s)" "peek [38] (59 # ?s) = (False, 59 # ?s)" "peek [59] (59 # ?s) = (True, 59 # ?s)"
    by (simp_all add: peek_id white_iff)
  have "back_loop c' (59 # ?s) = (c', 59 # ?s)" by (subst back_loop.simps) (simp add: p)
  moreover have "parsepipe (Suc (Suc (Suc (Suc n)))) (40 # unparse c @ 41 # 59 # ?s) = Parsed c' (59 # ?s)" using c'(1) p(1) by simp
  moreover have "gettoken (59 # ?s) = (59, (59 # ?s, ?s), ?s)"
    using gettoken_symbol(1)[of 59 ?s] skip_white_id[of ?s] by (simp add: white_iff)
  ultimately show ?thesis
    using c' d' p(3) unfolding unparse.simps parseline.simps(2)[of "Suc (Suc (Suc (Suc n)))"] reads_def by simp
qed

lemma reads_back:
  assumes c: "printable c" "reads (parseline n (unparse c @ 41 # 38 # r)) c (41 # 38 # r)" and r: "stop r"
  shows "reads (parseline (Suc (Suc (Suc (Suc n)))) (unparse (BACK c) @ r)) (BACK c) r"
proof -
  obtain c' where c': "parseexec (Suc (Suc n)) (40 # unparse c @ 41 # 38 # r) = Parsed c' (38 # r)" "map_cmd word_of c' = c"
    using reads_exec[OF c] by (auto simp: reads_def follow_def)
  have p: "peek [124] (38 # r) = (False, 38 # r)" "peek [38] (38 # r) = (True, 38 # r)" by (simp_all add: peek_id white_iff)
  have g: "gettoken (38 # r) = (38, (38 # r, r), r)"
    using gettoken_symbol(1)[of 38 r] follow_facts(1)[OF stop_facts(1)[OF r]] by simp
  have "back_loop c' (38 # r) = (BACK c', r)" using stop_facts(2)[OF r] by (subst back_loop.simps) (simp add: p g)
  moreover have "parsepipe (Suc (Suc (Suc n))) (40 # unparse c @ 41 # 38 # r) = Parsed c' (38 # r)" using c'(1) p(1) by simp
  ultimately show ?thesis
    using c'(2) stop_facts(3)[OF r] unfolding unparse.simps parseline.simps(2)[of "Suc (Suc (Suc n))"] reads_def by simp
qed

lemma reads_line:
  "printable c \<Longrightarrow> stop r \<Longrightarrow> 4 * length (unparse c @ r) + 4 \<le> n \<Longrightarrow> reads (parseline n (unparse c @ r)) c r"
proof (induction c arbitrary: r n)
  case (EXEC ws)
  have "3 \<le> n" using EXEC.prems(3) by simp
  then have "n = Suc (Suc (Suc (n - 3)))" by simp
  then show ?case using reads_finish(2)[OF reads_args[OF EXEC.prems(2,1)] EXEC.prems(2), of "n - 3"] by simp
next
  case (REDIR c w mode fd)
  have "5 \<le> n" using REDIR.prems(3) by simp
  then obtain m where n: "n = Suc (Suc (Suc (Suc (Suc m))))" using fuel_Suc by blast
  have "reads (parseline (Suc m) (unparse c @ 41 # (if fd = 0 then 60 else 62) # w @ r)) c (41 # (if fd = 0 then 60 else 62) # w @ r)"
    using REDIR.prems by (intro REDIR.IH) (simp_all add: n stop_def)
  then show ?case unfolding n by (intro reads_finish(2) reads_redir REDIR.prems)
next
  case (PIPE c d)
  have "5 \<le> n" using PIPE.prems(3) by simp
  then obtain m where n: "n = Suc (Suc (Suc (Suc (Suc m))))" using fuel_Suc by blast
  have cd: "reads (parseline (Suc m) (unparse c @ 41 # 124 # 40 # unparse d @ 41 # r)) c (41 # 124 # 40 # unparse d @ 41 # r)"
    "reads (parseline m (unparse d @ 41 # r)) d (41 # r)"
    using PIPE.prems by (intro PIPE.IH; simp add: n stop_def)+
  have "reads (parsepipe (Suc (Suc (Suc (Suc m)))) (unparse (PIPE c d) @ r)) (PIPE c d) r"
    using PIPE.prems by (intro reads_pipe cd) simp_all
  then show ?case unfolding n parseline.simps using stop_facts(2,3)[OF PIPE.prems(2)] by (auto simp: reads_def)
next
  case (LIST c d)
  have "5 \<le> n" using LIST.prems(3) by simp
  then obtain m where n: "n = Suc (Suc (Suc (Suc (Suc m))))" using fuel_Suc by blast
  have cd: "reads (parseline (Suc m) (unparse c @ 41 # 59 # 40 # unparse d @ 41 # r)) c (41 # 59 # 40 # unparse d @ 41 # r)"
    "reads (parseline m (unparse d @ 41 # r)) d (41 # r)"
    using LIST.prems by (intro LIST.IH; simp add: n stop_def)+
  then show ?case unfolding n using LIST.prems by (intro reads_list) simp_all
next
  case (BACK c)
  have "5 \<le> n" using BACK.prems(3) by simp
  then obtain m where n: "n = Suc (Suc (Suc (Suc (Suc m))))" using fuel_Suc by blast
  have "reads (parseline (Suc m) (unparse c @ 41 # 38 # r)) c (41 # 38 # r)"
    using BACK.prems by (intro BACK.IH) (simp_all add: n stop_def)
  then show ?case unfolding n using BACK.prems by (intro reads_back) simp_all
qed

text \<open>C32: Every command has a text that the shell parses back to it.  For every command tree whose
  words are plain and whose argument lists are shorter than \<open>MAXARGS\<close>, with redirections
  as the grammar produces them, \<open>parsecmd\<close> of the fully parenthesized text returns
  the same tree.\<close>
theorem parsecmd_unparse:
  assumes "printable c"
  shows "\<exists>d buf. parsecmd (unparse c) = Parsed (d, buf) [] \<and> map_cmd word_of d = c"
proof -
  obtain d where "parseline (4 * length (unparse c) + 4) (unparse c) = Parsed d []" "map_cmd word_of d = c"
    using reads_line[OF assms, of "[]"] by (auto simp: reads_def stop_def)
  then show ?thesis by (simp add: parsecmd_def peek_id)
qed

theorem parsecmd_unparse_witness:
  "\<exists>d buf. parsecmd [40, 97, 32, 41, 124, 40, 98, 32, 41] = Parsed (d, buf) [] \<and>
     map_cmd word_of d = PIPE (EXEC [[97]]) (EXEC [[98]])"
  using parsecmd_unparse[of "PIPE (EXEC [[97]]) (EXEC [[98]])"]
  by (simp add: MAXARGS_def word_def white_iff symbol_iff)

end
