(* ===== verification/Shrun.thy ===== *)
theory Shrun
  imports Sh
begin

text \<open>
  What the shell does with a command.  A user program is a tree of system calls: each node is
  the next call and what the program does with its result; \<open>fork\<close> has a branch for the child, one for the
  parent and one for its failure.  \<open>runcmd\<close> and the command loop of \<open>main\<close> are such
  programs.  Running a program on a table of open files, with descriptors allocated as
  \<open>fdalloc\<close> of \<open>sysfile.c\<close> does, gives the programs that are executed and their open files.
\<close>

section \<open>Programs\<close>

datatype uproc =
    U_exit
  | U_exec "byte list" "byte list list" uproc
  | U_open "byte list" u32 "u32 \<Rightarrow> uproc"
  | U_close u32 uproc
  | U_dup u32 uproc
  | U_pipe "(u32 \<times> u32) option \<Rightarrow> uproc"
  | U_fork uproc uproc uproc
  | U_wait uproc
  | U_write u32 "byte list" uproc
  | U_chdir "byte list" "u32 \<Rightarrow> uproc"

definition str :: "string \<Rightarrow> byte list" where
  "str cs = map of_char cs"

definition printf_to :: "u32 \<Rightarrow> string \<Rightarrow> byte list list \<Rightarrow> uproc \<Rightarrow> uproc" where
  "printf_to fd fmt args k =
     (case printf (str fmt) (map (\<lambda>a. A_str (Some a)) args) of
        None \<Rightarrow> U_exit
      | Some out \<Rightarrow> U_write fd out k)"

definition panic_u :: "string \<Rightarrow> uproc" where
  "panic_u msg = printf_to 2 (''%s'' @ LF) [str msg] U_exit"

text \<open>\<open>fork1\<close> with what the child and the parent do.\<close>

definition fork1 :: "uproc \<Rightarrow> uproc \<Rightarrow> uproc" where
  "fork1 ch par = U_fork ch par (panic_u ''fork'')"

fun runcmd :: "byte list cmd \<Rightarrow> uproc" where
  "runcmd (EXEC ws) =
     (case ws of
        [] \<Rightarrow> U_exit
      | w # _ \<Rightarrow> U_exec w ws (printf_to 2 (''exec %s failed'' @ LF) [w] U_exit))"
| "runcmd (REDIR c f mode fd) =
     U_close fd (U_open f mode (\<lambda>r.
       if slt r 0 then printf_to 2 (''open %s failed'' @ LF) [f] U_exit else runcmd c))"
| "runcmd (LIST l r) = fork1 (runcmd l) (U_wait (runcmd r))"
| "runcmd (PIPE l r) = U_pipe (\<lambda>p. case p of
       None \<Rightarrow> panic_u ''pipe''
     | Some (p0, p1) \<Rightarrow>
         fork1 (U_close 1 (U_dup p1 (U_close p0 (U_close p1 (runcmd l)))))
         (fork1 (U_close 0 (U_dup p0 (U_close p0 (U_close p1 (runcmd r)))))
         (U_close p0 (U_close p1 (U_wait (U_wait U_exit))))))"
| "runcmd (BACK c) = fork1 (runcmd c) U_exit"

text \<open>
  The command loop of \<open>main\<close>, over the lines that \<open>getcmd\<close> reads until the end of the input.  The
  last character of a line with \<open>cd\<close> is cut off, whatever it is.
\<close>

definition run_line :: "byte list \<Rightarrow> uproc" where
  "run_line b =
     (case parsecmd b of
        Parsed (c, _) _ \<Rightarrow> runcmd (map_cmd word_of c)
      | Syntax msg \<Rightarrow> panic_u msg
      | Fuel_out \<Rightarrow> U_exit)"

primrec sh_loop :: "byte list list \<Rightarrow> uproc" where
  "sh_loop [] = U_write 2 (str ''$ '') U_exit"
| "sh_loop (b # bs) = U_write 2 (str ''$ '')
     (if take 3 b = str ''cd '' then
        let d = drop 3 (butlast b) in
        U_chdir d (\<lambda>r. if slt r 0 then printf_to 2 (''cannot cd %s'' @ LF) [d] (sh_loop bs) else sh_loop bs)
      else fork1 (run_line b) (U_wait (sh_loop bs)))"

section \<open>Running a program\<close>

text \<open>
  The table maps descriptors to open files, which are numbers; \<open>nx\<close> is the next number.  All calls for
  which the kernel has the resources succeed.  The result lists the programs that \<open>exec\<close>
  starts, each with its arguments and its table.
\<close>

type_synonym fdtab = "nat option list"

type_synonym launched = "byte list \<times> byte list list \<times> fdtab"

primrec run :: "uproc \<Rightarrow> fdtab \<Rightarrow> nat \<Rightarrow> launched list \<times> nat" where
  "run U_exit fds nx = ([], nx)"
| "run (U_exec p args k) fds nx = ([(p, args, fds)], nx)"
| "run (U_open p mode k) fds nx =
     (case free_fd 0 fds of
        None \<Rightarrow> run (k (- 1)) fds nx
      | Some fd \<Rightarrow> run (k (of_nat fd)) (fds[fd := Some nx]) (Suc nx))"
| "run (U_close fd k) fds nx = run k (fds[unat fd := None]) nx"
| "run (U_dup fd k) fds nx =
     (if unat fd < length fds \<and> fds ! unat fd \<noteq> None
      then (case free_fd 0 fds of None \<Rightarrow> run k fds nx | Some d \<Rightarrow> run k (fds[d := fds ! unat fd]) nx)
      else run k fds nx)"
| "run (U_pipe k) fds nx =
     (case free_fd 0 fds of
        None \<Rightarrow> run (k None) fds nx
      | Some r \<Rightarrow> (case free_fd 0 (fds[r := Some nx]) of
          None \<Rightarrow> run (k None) fds nx
        | Some w \<Rightarrow> run (k (Some (of_nat r, of_nat w))) (fds[r := Some nx, w := Some (Suc nx)]) (Suc (Suc nx))))"
| "run (U_fork ch par failed) fds nx =
     (let (ls, nx) = run ch fds nx; (ls', nx) = run par fds nx in (ls @ ls', nx))"
| "run (U_wait k) fds nx = run k fds nx"
| "run (U_write fd bs k) fds nx = run k fds nx"
| "run (U_chdir p k) fds nx = run (k 0) fds nx"

definition std_fds :: "nat \<Rightarrow> nat \<Rightarrow> nat \<Rightarrow> fdtab" where
  "std_fds i o' e = Some i # Some o' # Some e # replicate (NOFILE - 3) None"

text \<open>A pipeline of simple commands, and the programs and files it should start with.\<close>

fun pipeline :: "byte list list list \<Rightarrow> byte list cmd" where
  "pipeline [] = EXEC []"
| "pipeline [ws] = EXEC ws"
| "pipeline (ws # wss) = PIPE (EXEC ws) (pipeline wss)"

fun wired :: "nat \<Rightarrow> nat \<Rightarrow> nat \<Rightarrow> nat \<Rightarrow> byte list list list \<Rightarrow> launched list" where
  "wired i o' e nx [] = []"
| "wired i o' e nx [ws] = [(hd ws, ws, std_fds i o' e)]"
| "wired i o' e nx (ws # wss) = (hd ws, ws, std_fds i (Suc nx) e) # wired nx o' e (Suc (Suc nx)) wss"

lemma pipe_fds:
  "free_fd 0 (std_fds i o' e) = Some 3" "free_fd 0 ((std_fds i o' e)[3 := Some r]) = Some 4"
  "(std_fds i o' e)[3 := Some r, 4 := Some w] = Some i # Some o' # Some e # Some r # Some w # replicate (NOFILE - 5) None"
  by (simp_all add: std_fds_def NOFILE_def numeral_eq_Suc)

lemma run_exec: "ws \<noteq> [] \<Longrightarrow> run (runcmd (EXEC ws)) fds nx = ([(hd ws, ws, fds)], nx)"
  by (cases ws) simp_all

lemma run_pipe:
  "run (runcmd (PIPE l r)) (std_fds i o' e) nx =
     (let (ls, nx') = run (runcmd l) (std_fds i (Suc nx) e) (Suc (Suc nx));
          (ls', nx'') = run (runcmd r) (std_fds nx o' e) nx'
      in (ls @ ls', nx''))"
  by (simp add: pipe_fds fork1_def) (simp add: std_fds_def NOFILE_def numeral_eq_Suc split: prod.splits)

text \<open>C35: The shell wires pipelines.  Started with three open files, a pipeline of
  commands runs each command once, in order, with exactly three open files: the standard input of
  the first and the output of the last are the shell's own, the output of every other
  command and the input of the next are the two ends of one new pipe, and no command
  holds any other end of a pipe, so that readers see the end of their input.\<close>
theorem pipeline_wired:
  assumes "\<forall>ws \<in> set wss. ws \<noteq> []"
  shows "fst (run (runcmd (pipeline wss)) (std_fds i o' e) nx) = wired i o' e nx wss"
  using assms
proof (induction i o' e nx wss rule: wired.induct)
  case (3 i o' e nx ws ws' wss)
  then show ?case by (auto simp del: runcmd.simps simp add: run_pipe run_exec split: prod.splits)
qed (simp_all add: run_exec del: runcmd.simps(1), simp)

theorem pipeline_wired_witness:
  "fst (run (runcmd (pipeline [[[97]], [[98]]])) (std_fds 10 11 12) 20) =
     [([97], [[97]], std_fds 10 21 12), ([98], [[98]], std_fds 20 11 12)]"
  using pipeline_wired[of "[[[97]], [[98]]]" 10 11 12 20] by simp

end
