(* ===== verification/Umalloc.thy ===== *)
theory Umalloc
  imports Prelude
begin

text \<open>
  The memory allocator of user programs, \<open>umalloc.c\<close>: a circular list of free blocks in the order
  of their addresses, searched first fit, with neighbours merged when a block is freed.  The
  fields of the headers are functions of the header's address; addresses and sizes
  are numbers below \<open>2 ^ 32\<close>, with the wrap-around of \<open>uint\<close> and of pointer arithmetic written out.
  Both loops follow pointers, so they may run forever on a damaged list, and are proved to return on a
  well-formed one.
\<close>

section \<open>The program\<close>

record uheap =
  hptr :: "nat \<Rightarrow> nat"
  hsize :: "nat \<Rightarrow> nat"
  freep :: nat
  brk :: nat

abbreviation wrap :: "nat \<Rightarrow> nat" where "wrap x \<equiv> x mod 2 ^ 32"

text \<open>\<open>p + n\<close> for a pointer to a header of eight bytes.\<close>

definition adv :: "nat \<Rightarrow> nat \<Rightarrow> nat" where
  "adv p n = wrap (p + 8 * n)"

partial_function (option) find_slot :: "(nat \<Rightarrow> nat) \<Rightarrow> nat \<Rightarrow> nat \<Rightarrow> nat option" where
  "find_slot nxt bp p =
     (if bp > p \<and> bp < nxt p then Some p
      else if p \<ge> nxt p \<and> (bp > p \<or> bp < nxt p) then Some p
      else find_slot nxt bp (nxt p))"

definition free_at :: "nat \<Rightarrow> nat \<Rightarrow> uheap \<Rightarrow> uheap" where
  "free_at bp p s =
     (let s = (if adv bp (hsize s bp) = hptr s p
               then s\<lparr>hsize := (hsize s)(bp := wrap (hsize s bp + hsize s (hptr s p))),
                      hptr := (hptr s)(bp := hptr s (hptr s p))\<rparr>
               else s\<lparr>hptr := (hptr s)(bp := hptr s p)\<rparr>);
          s = (if adv p (hsize s p) = bp
               then s\<lparr>hsize := (hsize s)(p := wrap (hsize s p + hsize s bp)), hptr := (hptr s)(p := hptr s bp)\<rparr>
               else s\<lparr>hptr := (hptr s)(p := bp)\<rparr>)
      in s\<lparr>freep := p\<rparr>)"

definition free :: "nat \<Rightarrow> uheap \<Rightarrow> uheap option" where
  "free ap s =
     (let bp = wrap (ap + 2 ^ 32 - 8) in
      case find_slot (hptr s) bp (freep s) of
        None \<Rightarrow> None
      | Some p \<Rightarrow> Some (free_at bp p s))"

text \<open>
  \<open>sbrk\<close> is a parameter: \<open>grow b n\<close> tells whether the kernel lets the break grow from \<open>b\<close> by \<open>n\<close>
  bytes.  Its count is an \<open>int\<close>, so that \<open>2 ^ 31\<close> bytes or more are a negative number and the break
  shrinks; the new break is the sum modulo \<open>2 ^ 32\<close> either way.  The flag of the result is false if
  \<open>morecore\<close> returns 0.
\<close>

definition morecore :: "(nat \<Rightarrow> nat \<Rightarrow> bool) \<Rightarrow> nat \<Rightarrow> uheap \<Rightarrow> (bool \<times> uheap) option" where
  "morecore grow nu s =
     (let nu = (if nu < 4096 then 4096 else nu) in
      if \<not> grow (brk s) (wrap (8 * nu)) then Some (False, s)
      else let p = brk s;
               s = s\<lparr>brk := wrap (brk s + wrap (8 * nu))\<rparr>;
               s = s\<lparr>hsize := (hsize s)(p := nu)\<rparr>
           in map_option (Pair True) (free (adv p 1) s))"

definition take_block :: "nat \<Rightarrow> nat \<Rightarrow> nat \<Rightarrow> uheap \<Rightarrow> nat \<times> uheap" where
  "take_block nunits prevp p s =
     (if hsize s p = nunits
      then (adv p 1, s\<lparr>hptr := (hptr s)(prevp := hptr s p), freep := prevp\<rparr>)
      else let k = hsize s p - nunits; q = adv p k in
        (adv q 1, s\<lparr>hsize := (hsize s)(p := k, q := nunits), freep := prevp\<rparr>))"

partial_function (option) malloc_loop ::
    "(nat \<Rightarrow> nat \<Rightarrow> bool) \<Rightarrow> nat \<Rightarrow> nat \<Rightarrow> nat \<Rightarrow> uheap \<Rightarrow> (nat option \<times> uheap) option" where
  "malloc_loop grow nunits prevp p s =
     (if nunits \<le> hsize s p then Some (map_prod Some id (take_block nunits prevp p s))
      else if p = freep s then
        (case morecore grow nunits s of
           None \<Rightarrow> None
         | Some (got, s) \<Rightarrow>
             if \<not> got then Some (None, s) else malloc_loop grow nunits (freep s) (hptr s (freep s)) s)
      else malloc_loop grow nunits p (hptr s p) s)"

definition units :: "nat \<Rightarrow> nat" where
  "units nbytes = wrap (nbytes + 8 - 1) div 8 + 1"

text \<open>\<open>base\<close> is the address of the static header.\<close>

definition malloc :: "(nat \<Rightarrow> nat \<Rightarrow> bool) \<Rightarrow> nat \<Rightarrow> nat \<Rightarrow> uheap \<Rightarrow> (nat option \<times> uheap) option" where
  "malloc grow base nbytes s =
     (let s = (if freep s = 0 then s\<lparr>hptr := (hptr s)(base := base), freep := base, hsize := (hsize s)(base := 0)\<rparr> else s)
      in malloc_loop grow (units nbytes) (freep s) (hptr s (freep s)) s)"

section \<open>The free list\<close>

primrec path :: "(nat \<Rightarrow> nat) \<Rightarrow> nat \<Rightarrow> nat list \<Rightarrow> nat \<Rightarrow> bool" where
  "path nxt x [] y \<longleftrightarrow> x = y"
| "path nxt x (a # as) y \<longleftrightarrow> x = a \<and> path nxt (nxt a) as y"

lemma path_append: "path nxt x (as @ bs) y \<longleftrightarrow> (\<exists>z. path nxt x as z \<and> path nxt z bs y)"
  by (induction as arbitrary: x) auto

lemma path_update [simp]: "u \<notin> set as \<Longrightarrow> path (nxt(u := v)) x as y = path nxt x as y"
  by (induction as arbitrary: x) auto

text \<open>The address after the block at \<open>a\<close>; neighbours in the list do not touch.\<close>

abbreviation ends :: "uheap \<Rightarrow> nat \<Rightarrow> nat" where "ends s a \<equiv> a + 8 * hsize s a"

definition spaced :: "(nat \<Rightarrow> nat) \<Rightarrow> nat list \<Rightarrow> bool" where
  "spaced sz = sorted_wrt (\<lambda>a b. a + 8 * sz a < b)"

definition heap_ok :: "nat \<Rightarrow> uheap \<Rightarrow> nat list \<Rightarrow> bool" where
  "heap_ok base s bs \<longleftrightarrow> path (hptr s) base (base # bs) base \<and> spaced (hsize s) (base # bs) \<and> freep s \<in> set (base # bs) \<and>
     0 < base \<and> hsize s base = 0 \<and> (\<forall>a \<in> set bs. 0 < hsize s a \<and> base + 8 \<le> a \<and> ends s a \<le> brk s) \<and>
     base + 8 \<le> brk s \<and> brk s < 2 ^ 32"

definition free_bytes :: "uheap \<Rightarrow> nat list \<Rightarrow> nat set" where
  "free_bytes s bs = (\<Union>a \<in> set bs. {a ..< ends s a})"

lemma spaced_simps [simp]:
  "spaced sz []" "spaced sz (a # as) \<longleftrightarrow> (\<forall>b \<in> set as. a + 8 * sz a < b) \<and> spaced sz as"
  "spaced sz (as @ bs) \<longleftrightarrow> spaced sz as \<and> spaced sz bs \<and> (\<forall>a \<in> set as. \<forall>b \<in> set bs. a + 8 * sz a < b)"
  by (auto simp: spaced_def sorted_wrt_append)

lemma spaced_update: "u \<notin> set as \<Longrightarrow> spaced (sz(u := v)) as = spaced sz as"
  by (induction as) auto

lemma find_slot_walk:
  assumes "path nxt a (a # vs) p" and "spaced sz (a # vs @ [p])" and "p < bp"
  shows "find_slot nxt bp a = find_slot nxt bp p"
  using assms
proof (induction vs arbitrary: a)
  case Nil
  then show ?case by (subst find_slot.simps) auto
next
  case (Cons v vs)
  have "a < v" "v < p" using Cons.prems(2) by (auto dest: bspec)
  then have "find_slot nxt bp a = find_slot nxt bp v" using Cons.prems(1,3) by (subst find_slot.simps) auto
  then show ?case using Cons by simp
qed

lemma find_slot_wrap:
  assumes "path nxt a (a # vs) base" and "spaced sz (a # vs)" and "bp < a" and "base < bp"
  shows "find_slot nxt bp a = find_slot nxt bp base"
  using assms
proof (induction vs arbitrary: a)
  case Nil
  then show ?case by (subst find_slot.simps) auto
next
  case (Cons v vs)
  have v: "a < v" using Cons.prems(2) by auto
  then have "find_slot nxt bp a = find_slot nxt bp v" using Cons.prems(1,3) by (subst find_slot.simps) auto
  then show ?case using Cons v by simp
qed

text \<open>The search of \<open>free\<close> returns the block after which the new one belongs, from wherever it starts.\<close>

lemma find_slot_ring:
  assumes ring: "path nxt base (as @ p # ys) base" "spaced sz (as @ p # ys)" "hd (as @ [p]) = base"
    and bp: "p < bp" "base < bp" "\<forall>y \<in> set ys. bp < y" and f: "f \<in> set (as @ p # ys)"
  shows "find_slot nxt bp f = Some p"
proof -
  have here: "find_slot nxt bp p = Some p"
  proof (cases ys)
    case Nil
    then have "nxt p = base" using ring(1) by (auto simp: path_append)
    moreover have "base \<le> p" using ring(2,3) by (cases as) auto
    ultimately show ?thesis using bp by (subst find_slot.simps) auto
  next
    case (Cons y ys')
    then have "nxt p = y" using ring(1) by (auto simp: path_append)
    then show ?thesis using bp Cons by (subst find_slot.simps) auto
  qed
  have walk: "find_slot nxt bp a = Some p" if a: "a \<in> set as" for a
  proof -
    obtain us vs where as: "as = us @ a # vs" using a by (meson split_list)
    then have "path nxt a (a # vs) p" using ring(1) by (auto simp: path_append)
    moreover have "spaced sz (a # vs @ [p])" using ring(2) as by auto
    ultimately show ?thesis using find_slot_walk bp(1) here by metis
  qed
  have at_base: "find_slot nxt bp base = Some p" using ring(3) here walk by (cases as) auto
  have "find_slot nxt bp y = Some p" if y: "y \<in> set ys" for y
  proof -
    obtain us vs where ys: "ys = us @ y # vs" using y by (meson split_list)
    then have "path nxt y (y # vs) base" using ring(1) by (auto simp: path_append)
    moreover have "spaced sz (y # vs)" using ring(2) ys by auto
    ultimately show ?thesis using find_slot_wrap bp y at_base by metis
  qed
  then show ?thesis using f here walk by auto
qed

section \<open>Freeing a block\<close>

text \<open>A block that can be freed: within the heap and apart from the free blocks.\<close>

definition block_ok :: "nat \<Rightarrow> uheap \<Rightarrow> nat list \<Rightarrow> nat \<Rightarrow> bool" where
  "block_ok base s bs bp \<longleftrightarrow> base + 8 \<le> bp \<and> 0 < hsize s bp \<and> ends s bp \<le> brk s \<and> {bp ..< ends s bp} \<inter> free_bytes s bs = {}"

lemma free_bytes_mono: "a \<in> set bs \<Longrightarrow> {a ..< ends s a} \<subseteq> free_bytes s bs"
  by (auto simp: free_bytes_def)

lemma heap_ends: "heap_ok base s bs \<Longrightarrow> a \<in> set (base # bs) \<Longrightarrow> ends s a \<le> brk s"
  by (auto simp: heap_ok_def)

lemma block_between:
  assumes ok: "heap_ok base s bs" and b: "block_ok base s bs bp" and a: "a \<in> set (base # bs)"
  shows "a \<noteq> bp" "a < bp \<Longrightarrow> ends s a \<le> bp" "bp < a \<Longrightarrow> ends s bp \<le> a"
proof -
  have "a \<noteq> bp \<and> (a < bp \<longrightarrow> ends s a \<le> bp) \<and> (bp < a \<longrightarrow> ends s bp \<le> a)"
  proof (cases "a = base")
    case True
    then show ?thesis using ok b by (auto simp: heap_ok_def block_ok_def)
  next
    case False
    then have a': "a \<in> set bs" "0 < hsize s a" using a ok by (auto simp: heap_ok_def)
    have "bp \<in> {bp ..< ends s bp}" "a \<in> {a ..< ends s a}" using a'(2) b by (auto simp: block_ok_def)
    moreover have d: "{a ..< ends s a} \<inter> {bp ..< ends s bp} = {}" using free_bytes_mono[OF a'(1)] b unfolding block_ok_def by blast
    ultimately have "bp \<notin> {a ..< ends s a}" "a \<notin> {bp ..< ends s bp}" by blast+
    then show ?thesis using a'(2) b by (auto simp: block_ok_def)
  qed
  then show "a \<noteq> bp" "a < bp \<Longrightarrow> ends s a \<le> bp" "bp < a \<Longrightarrow> ends s bp \<le> a" by blast+
qed

lemma split_ring:
  assumes ok: "heap_ok base s bs" and b: "block_ok base s bs bp"
  obtains as p ys where "base # bs = as @ p # ys" "p < bp" "\<forall>y \<in> set ys. bp < y"
proof -
  let ?l = "base # bs"
  have s: "spaced (hsize s) ?l" using ok unfolding heap_ok_def by blast
  have "takeWhile (\<lambda>a. a < bp) ?l \<noteq> []" using b by (auto simp: block_ok_def)
  then obtain as p where t: "takeWhile (\<lambda>a. a < bp) ?l = as @ [p]" by (metis rev_exhaust)
  obtain ys where ys: "ys = dropWhile (\<lambda>a. a < bp) ?l" by blast
  have "?l = takeWhile (\<lambda>a. a < bp) ?l @ dropWhile (\<lambda>a. a < bp) ?l" by (rule takeWhile_dropWhile_id[symmetric])
  then have l: "?l = as @ p # ys" unfolding t ys[symmetric] by simp
  have "p \<in> set (takeWhile (\<lambda>a. a < bp) ?l)" unfolding t by simp
  then have "p < bp" using set_takeWhileD by fast
  moreover have "bp < y" if y: "y \<in> set ys" for y
  proof -
    obtain z zs where z: "ys = z # zs" using y by (cases ys) auto
    then have "\<not> z < bp" unfolding ys by (metis hd_dropWhile list.distinct(1) list.sel(1))
    moreover have "y = z \<or> z < y" using s y unfolding l z by auto
    moreover have "y \<noteq> bp" using block_between(1)[OF ok b, of y] y unfolding l by simp
    ultimately show ?thesis by auto
  qed
  ultimately show thesis using that[OF l] by blast
qed

text \<open>The first half of \<open>free_at\<close>: the block takes its place before \<open>ys\<close>, or takes over the first of them.\<close>

definition join_upper :: "nat \<Rightarrow> nat \<Rightarrow> uheap \<Rightarrow> uheap" where
  "join_upper bp p s =
     (if adv bp (hsize s bp) = hptr s p
      then s\<lparr>hsize := (hsize s)(bp := wrap (hsize s bp + hsize s (hptr s p))), hptr := (hptr s)(bp := hptr s (hptr s p))\<rparr>
      else s\<lparr>hptr := (hptr s)(bp := hptr s p)\<rparr>)"

lemma join_upper:
  assumes ok: "heap_ok base s bs" and b: "block_ok base s bs bp" and l: "base # bs = as @ p # ys"
    and p: "p < bp" "\<forall>y \<in> set ys. bp < y"
  obtains n z zs where "join_upper bp p s = s\<lparr>hsize := (hsize s)(bp := n), hptr := (hptr s)(bp := z)\<rparr>" "hsize s bp \<le> n"
    "path (hptr s) z zs base" "set zs \<subseteq> set ys" "spaced (hsize s) zs" "\<forall>y \<in> set zs. bp + 8 * n < y" "bp + 8 * n \<le> brk s"
    "{bp ..< bp + 8 * n} \<union> (\<Union>a \<in> set zs. {a ..< ends s a}) = {bp ..< ends s bp} \<union> (\<Union>a \<in> set ys. {a ..< ends s a})"
proof -
  have ring: "path (hptr s) base (as @ p # ys) base" "spaced (hsize s) (as @ p # ys)" "brk s < 2 ^ 32"
    using ok unfolding heap_ok_def l by simp_all
  have bb: "ends s bp \<le> brk s" "0 < hsize s bp" using b by (simp_all add: block_ok_def)
  have adv: "adv bp (hsize s bp) = ends s bp" using bb ring(3) by (simp add: adv_def)
  have y: "ends s bp \<le> y" if "y \<in> set ys" for y
    using block_between(3)[OF ok b, of y] p(2) that l by auto
  show thesis
  proof (cases "ys \<noteq> [] \<and> hd ys = ends s bp")
    case True
    then obtain zs where ys: "ys = ends s bp # zs" by (cases ys) auto
    then have nx: "hptr s p = ends s bp" "path (hptr s) (hptr s (ends s bp)) zs base" using ring(1) by (auto simp: path_append)
    let ?y = "ends s bp"
    have "?y \<in> set (base # bs)" using l ys by simp
    then have yb: "ends s ?y \<le> brk s" by (rule heap_ends[OF ok])
    have w: "wrap (hsize s bp + hsize s ?y) = hsize s bp + hsize s ?y" using yb ring(3) by simp
    let ?n = "hsize s bp + hsize s ?y"
    have e: "bp + 8 * ?n = ends s ?y" by simp
    have u: "{bp ..< ends s ?y} = {bp ..< ?y} \<union> {?y ..< ends s ?y}" by auto
    show thesis
    proof (rule that[where n = ?n and z = "hptr s ?y" and zs = zs])
      show "join_upper bp p s = s\<lparr>hsize := (hsize s)(bp := ?n), hptr := (hptr s)(bp := hptr s ?y)\<rparr>"
        using adv nx(1) w by (simp add: join_upper_def)
      show "\<forall>y \<in> set zs. bp + 8 * ?n < y" "spaced (hsize s) zs" unfolding e using ring(2) ys by simp_all
      show "{bp ..< bp + 8 * ?n} \<union> (\<Union>a \<in> set zs. {a ..< ends s a}) = {bp ..< ?y} \<union> (\<Union>a \<in> set ys. {a ..< ends s a})"
        unfolding e u ys by auto
    qed (use nx(2) yb ys in auto)
  next
    case False
    have "adv bp (hsize s bp) \<noteq> hptr s p"
    proof (cases ys)
      case Nil
      then have "hptr s p = base" using ring(1) by (auto simp: path_append)
      then show ?thesis using adv b by (auto simp: block_ok_def)
    next
      case (Cons z zs)
      then show ?thesis using False ring(1) adv by (auto simp: path_append)
    qed
    then have "join_upper bp p s = s\<lparr>hsize := (hsize s)(bp := hsize s bp), hptr := (hptr s)(bp := hptr s p)\<rparr>"
      by (simp add: join_upper_def)
    moreover have "ends s bp < z" if z: "z \<in> set ys" for z
    proof -
      obtain x xs where ys: "ys = x # xs" using z by (cases ys) auto
      then have "x = z \<or> x < z" using ring(2) z by auto
      moreover have "ends s bp \<le> x" "x \<noteq> ends s bp" using y[of x] ys False by auto
      ultimately show ?thesis by auto
    qed
    moreover have "path (hptr s) (hptr s p) ys base" using ring(1) by (auto simp: path_append)
    ultimately show thesis using that[where n = "hsize s bp" and z = "hptr s p" and zs = ys] ring(2) bb by auto
  qed
qed

definition join_lower :: "nat \<Rightarrow> nat \<Rightarrow> uheap \<Rightarrow> uheap" where
  "join_lower bp p s =
     (if adv p (hsize s p) = bp
      then s\<lparr>hsize := (hsize s)(p := wrap (hsize s p + hsize s bp)), hptr := (hptr s)(p := hptr s bp)\<rparr>
      else s\<lparr>hptr := (hptr s)(p := bp)\<rparr>)"

lemma free_at_eq: "free_at bp p s = (join_lower bp p (join_upper bp p s))\<lparr>freep := p\<rparr>"
  by (simp add: free_at_def join_upper_def join_lower_def Let_def)

lemma free_bytes_base: "hsize s base = 0 \<Longrightarrow> free_bytes s (base # bs) = free_bytes s bs"
  by (simp add: free_bytes_def)

text \<open>
  What holds after a block has been freed: the list is well formed, the bytes of the block are
  free, the headers of other blocks are as they were, and some free block is as long as the one
  that was freed.
\<close>

definition freed :: "nat \<Rightarrow> uheap \<Rightarrow> nat list \<Rightarrow> nat \<Rightarrow> uheap \<Rightarrow> nat list \<Rightarrow> bool" where
  "freed base s bs bp t cs \<longleftrightarrow> heap_ok base t cs \<and> free_bytes t cs = free_bytes s bs \<union> {bp ..< ends s bp} \<and> brk t = brk s \<and>
     (\<forall>x. x \<notin> free_bytes t cs \<longrightarrow> hsize t x = hsize s x) \<and> (\<exists>a \<in> set cs. hsize s bp \<le> hsize t a)"

lemma ring_facts:
  assumes ok: "heap_ok base s bs" and l: "base # bs = as @ p # ys"
  shows "\<forall>a \<in> set as. ends s a < p" "spaced (hsize s) as" "path (hptr s) base as p" "p \<notin> set as"
    "\<forall>a \<in> set (as @ p # ys). ends s a \<le> brk s" "\<forall>a \<in> set (as @ p # ys). a = base \<or> 0 < hsize s a \<and> base + 8 \<le> a"
    "hsize s base = 0" "0 < base" "brk s < 2 ^ 32" "hd (as @ [p]) = base" "\<forall>a \<in> set as. a < p"
proof -
  have sp: "spaced (hsize s) (as @ p # ys)" and pth: "path (hptr s) base (as @ p # ys) base"
    using ok unfolding heap_ok_def l by blast+
  show a: "\<forall>a \<in> set as. ends s a < p" "spaced (hsize s) as" using sp by auto
  show lt: "\<forall>a \<in> set as. a < p" using a(1) by auto
  then show "p \<notin> set as" by auto
  show "path (hptr s) base as p" using pth by (auto simp: path_append)
  show "\<forall>a \<in> set (as @ p # ys). ends s a \<le> brk s" using heap_ends[OF ok] unfolding l[symmetric] by blast
  show "\<forall>a \<in> set (as @ p # ys). a = base \<or> 0 < hsize s a \<and> base + 8 \<le> a" unfolding l[symmetric] using ok by (auto simp: heap_ok_def)
  show "hsize s base = 0" "0 < base" "brk s < 2 ^ 32" using ok by (simp_all add: heap_ok_def)
  show "hd (as @ [p]) = base" using l by (cases as) auto
qed

lemma heap_okI:
  assumes "base # cs = l" "path (hptr t) base l base" "spaced (hsize t) l" "freep t \<in> set l" "0 < base" "hsize t base = 0"
    "\<forall>a \<in> set l. a = base \<or> 0 < hsize t a \<and> base + 8 \<le> a" "\<forall>a \<in> set l. ends t a \<le> brk t" "base + 8 \<le> brk t" "brk t < 2 ^ 32"
  shows "heap_ok base t cs"
proof -
  have "base \<notin> set cs" using assms(3) unfolding assms(1)[symmetric] by auto
  then show ?thesis using assms unfolding heap_ok_def assms(1)[symmetric] by auto
qed

lemma free_not_joined:
  assumes ok: "heap_ok base s bs" and b: "block_ok base s bs bp" and l: "base # bs = as @ p # ys" and p: "p < bp" "\<forall>y \<in> set ys. bp < y"
    and n: "hsize s bp \<le> n" "path (hptr s) z zs base" "set zs \<subseteq> set ys" "spaced (hsize s) zs" "\<forall>y \<in> set zs. bp + 8 * n < y"
      "bp + 8 * n \<le> brk s" "{bp ..< bp + 8 * n} \<union> (\<Union>a \<in> set zs. {a ..< ends s a}) = {bp ..< ends s bp} \<union> (\<Union>a \<in> set ys. {a ..< ends s a})"
    and d: "ends s p \<noteq> bp"
  shows "\<exists>cs. freed base s bs bp (s\<lparr>hsize := (hsize s)(bp := n), hptr := (hptr s)(bp := z, p := bp), freep := p\<rparr>) cs"
proof -
  note f = ring_facts[OF ok l]
  let ?t = "s\<lparr>hsize := (hsize s)(bp := n), hptr := (hptr s)(bp := z, p := bp), freep := p\<rparr>"
  let ?l = "as @ p # bp # zs"
  have pm: "p \<in> set (base # bs)" using l by simp
  have ep: "ends s p < bp" using block_between(2)[OF ok b pm p(1)] d by simp
  have bs: "base + 8 \<le> bp" "0 < hsize s bp" using b by (simp_all add: block_ok_def)
  have "\<forall>y \<in> set zs. bp < y" using p(2) n(3) by blast
  then have nin: "bp \<notin> set as" "bp \<notin> set zs" "p \<notin> set zs" "p \<noteq> bp" "base \<noteq> bp"
    using f(11) p(1) bs \<open>\<forall>y \<in> set zs. bp < y\<close> by auto
  obtain cs where cs: "base # cs = ?l" using f(10) by (cases as) auto
  have un: "(\<Union>a \<in> set xs. {a ..< ends ?t a}) = (\<Union>a \<in> set xs. {a ..< ends s a})" if "bp \<notin> set xs" for xs
    using that by (intro SUP_cong) auto
  have lt: "\<forall>a \<in> set as. ends s a < bp" using f(1) p(1) by auto
  have ok': "heap_ok base ?t cs"
  proof (rule heap_okI[OF cs])
    show "path (hptr ?t) base ?l base" using f(3,4) nin n(2) by (auto simp: path_append)
    show "spaced (hsize ?t) ?l"
      using f(1,2) lt ep n(3-5) p nin spaced_update[of bp as "hsize s" n] spaced_update[of bp zs "hsize s" n] by fastforce
    show "\<forall>a \<in> set ?l. a = base \<or> 0 < hsize ?t a \<and> base + 8 \<le> a" using f(6) n(1,3) bs by auto
    show "\<forall>a \<in> set ?l. ends ?t a \<le> brk ?t" using f(5) n(3,6) by auto
  qed (use f(5,7-10) ok nin in \<open>auto simp: heap_ok_def\<close>)
  have "free_bytes ?t cs = free_bytes ?t ?l" using free_bytes_base[of ?t base cs] f(7) nin cs by simp
  also have "\<dots> = (\<Union>a \<in> set (as @ [p]). {a ..< ends s a}) \<union> ({bp ..< bp + 8 * n} \<union> (\<Union>a \<in> set zs. {a ..< ends s a}))"
    unfolding free_bytes_def set_append list.set UN_Un UN_insert using un[of as] un[of zs] un[of "[p]"] nin by auto
  also have "\<dots> = free_bytes s (base # bs) \<union> {bp ..< ends s bp}" unfolding n(7) l by (auto simp: free_bytes_def)
  also have "\<dots> = free_bytes s bs \<union> {bp ..< ends s bp}" using free_bytes_base f(7) by simp
  finally have fb: "free_bytes ?t cs = free_bytes s bs \<union> {bp ..< ends s bp}" .
  have "bp \<in> set cs" using cs nin(5) by (metis in_set_conv_decomp append.assoc append_Cons append_Nil set_ConsD)
  then have "\<exists>a \<in> set cs. hsize s bp \<le> hsize ?t a" using n(1) by (intro bexI[of _ bp]) simp
  moreover have "hsize ?t x = hsize s x" if "x \<notin> free_bytes ?t cs" for x
    using that bs(2) unfolding fb by (cases "x = bp") auto
  ultimately have "freed base s bs bp ?t cs" using ok' fb unfolding freed_def by (simp del: fun_upd_apply)
  then show ?thesis by blast
qed

lemma free_joined:
  assumes ok: "heap_ok base s bs" and b: "block_ok base s bs bp" and l: "base # bs = as @ p # ys" and p: "p < bp" "\<forall>y \<in> set ys. bp < y"
    and n: "hsize s bp \<le> n" "path (hptr s) z zs base" "set zs \<subseteq> set ys" "spaced (hsize s) zs" "\<forall>y \<in> set zs. bp + 8 * n < y"
      "bp + 8 * n \<le> brk s" "{bp ..< bp + 8 * n} \<union> (\<Union>a \<in> set zs. {a ..< ends s a}) = {bp ..< ends s bp} \<union> (\<Union>a \<in> set ys. {a ..< ends s a})"
    and d: "ends s p = bp"
  shows "\<exists>cs. freed base s bs bp
     (s\<lparr>hsize := (hsize s)(bp := n, p := hsize s p + n), hptr := (hptr s)(bp := z, p := z), freep := p\<rparr>) cs"
proof -
  note f = ring_facts[OF ok l]
  let ?t = "s\<lparr>hsize := (hsize s)(bp := n, p := hsize s p + n), hptr := (hptr s)(bp := z, p := z), freep := p\<rparr>"
  let ?l = "as @ p # zs"
  have bs: "base + 8 \<le> bp" "0 < hsize s bp" using b by (simp_all add: block_ok_def)
  have zs: "\<forall>y \<in> set zs. bp < y" using p(2) n(3) by blast
  then have nin: "bp \<notin> set as" "bp \<notin> set zs" "p \<notin> set zs" "p \<noteq> bp" "base \<noteq> bp" using f(11) p(1) bs by auto
  have pb: "p \<noteq> base" using d f(7) nin(5) by auto
  obtain cs where cs: "base # cs = ?l" using f(10) by (cases as) auto
  have e: "p + 8 * (hsize s p + n) = bp + 8 * n" "p + (8 * hsize s p + 8 * n) = bp + 8 * n" using d by simp_all
  have un: "(\<Union>a \<in> set xs. {a ..< ends ?t a}) = (\<Union>a \<in> set xs. {a ..< ends s a})" if "bp \<notin> set xs" "p \<notin> set xs" for xs
    using that by (intro SUP_cong) auto
  have lt: "\<forall>a \<in> set as. \<forall>y \<in> set zs. ends s a < y" using f(1) p(1) zs by force
  have ok': "heap_ok base ?t cs"
  proof (rule heap_okI[OF cs])
    show "path (hptr ?t) base ?l base" using f(3,4) nin n(2) by (auto simp: path_append)
    have "spaced (hsize ?t) as" "spaced (hsize ?t) zs" using f(2,4) n(4) nin by (simp_all add: spaced_update)
    moreover have "\<forall>a \<in> set as. hsize ?t a = hsize s a" using f(4) nin by auto
    moreover have "\<forall>y \<in> set zs. p + (8 * hsize s p + 8 * n) < y" using n(5) d by auto
    ultimately show "spaced (hsize ?t) ?l" using f(1) lt by simp
    show "\<forall>a \<in> set ?l. a = base \<or> 0 < hsize ?t a \<and> base + 8 \<le> a" using f(6) n(1,3) bs by auto
    show "\<forall>a \<in> set ?l. ends ?t a \<le> brk ?t" using f(5) n(3,6) nin e(1) by auto
  qed (use f(5,7-10) ok nin pb in \<open>auto simp: heap_ok_def\<close>)
  have "free_bytes ?t cs = free_bytes ?t ?l" using free_bytes_base[of ?t base cs] f(7) nin pb cs by simp
  also have "\<dots> = (\<Union>a \<in> set as. {a ..< ends s a}) \<union> ({p ..< bp + 8 * n} \<union> (\<Union>a \<in> set zs. {a ..< ends s a}))"
    unfolding free_bytes_def set_append list.set UN_Un UN_insert using un[of as] un[of zs] nin f(4) by (simp add: e(2))
  also have "{p ..< bp + 8 * n} = {p ..< ends s p} \<union> {bp ..< bp + 8 * n}" using d by auto
  also have "(\<Union>a \<in> set as. {a ..< ends s a}) \<union> ({p ..< ends s p} \<union> {bp ..< bp + 8 * n} \<union> (\<Union>a \<in> set zs. {a ..< ends s a})) =
     (\<Union>a \<in> set (as @ [p]). {a ..< ends s a}) \<union> ({bp ..< bp + 8 * n} \<union> (\<Union>a \<in> set zs. {a ..< ends s a}))" by auto
  also have "\<dots> = free_bytes s (base # bs) \<union> {bp ..< ends s bp}" unfolding n(7) l by (auto simp: free_bytes_def)
  also have "\<dots> = free_bytes s bs \<union> {bp ..< ends s bp}" using free_bytes_base f(7) by simp
  finally have fb: "free_bytes ?t cs = free_bytes s bs \<union> {bp ..< ends s bp}" .
  have "p \<in> set (base # cs)" unfolding cs by simp
  then have pc: "p \<in> set cs" using pb by simp
  then have "\<exists>a \<in> set cs. hsize s bp \<le> hsize ?t a" using n(1) by (intro bexI[of _ p]) simp_all
  moreover have "hsize ?t x = hsize s x" if "x \<notin> free_bytes ?t cs" for x
  proof -
    have "p \<in> free_bytes ?t cs" using pc n(1) bs(2) unfolding free_bytes_def by (intro UN_I[of p]) auto
    then show ?thesis using that bs(2) unfolding fb by (cases "x = bp") auto
  qed
  ultimately have "freed base s bs bp ?t cs" using ok' fb unfolding freed_def by (simp del: fun_upd_apply)
  then show ?thesis by blast
qed

lemma free_block:
  assumes ok: "heap_ok base s bs" and b: "block_ok base s bs bp"
  shows "\<exists>t cs. free (adv bp 1) s = Some t \<and> freed base s bs bp t cs"
proof -
  obtain as p ys where l: "base # bs = as @ p # ys" and p: "p < bp" "\<forall>y \<in> set ys. bp < y" by (rule split_ring[OF ok b])
  note f = ring_facts[OF ok l]
  have bb: "ends s bp \<le> brk s" "0 < hsize s bp" "base < bp" using b by (simp_all add: block_ok_def)
  have "find_slot (hptr s) bp (freep s) = Some p"
  proof (rule find_slot_ring)
    show "path (hptr s) base (as @ p # ys) base" "spaced (hsize s) (as @ p # ys)" "freep s \<in> set (as @ p # ys)"
      using ok unfolding heap_ok_def l by blast+
  qed (use f(10) p bb in auto)
  moreover have "wrap (adv bp 1 + 2 ^ 32 - 8) = bp" using bb f(9) by (simp add: adv_def)
  ultimately have fr: "free (adv bp 1) s = Some (free_at bp p s)" by (simp add: free_def Let_def)
  obtain n z zs where n: "join_upper bp p s = s\<lparr>hsize := (hsize s)(bp := n), hptr := (hptr s)(bp := z)\<rparr>" "hsize s bp \<le> n"
    "path (hptr s) z zs base" "set zs \<subseteq> set ys" "spaced (hsize s) zs" "\<forall>y \<in> set zs. bp + 8 * n < y" "bp + 8 * n \<le> brk s"
    "{bp ..< bp + 8 * n} \<union> (\<Union>a \<in> set zs. {a ..< ends s a}) = {bp ..< ends s bp} \<union> (\<Union>a \<in> set ys. {a ..< ends s a})"
    by (rule join_upper[OF ok b l p])
  have ep: "ends s p \<le> brk s" using f(5) by simp
  then have a: "adv p (hsize s p) = ends s p" using f(9) by (simp add: adv_def)
  show ?thesis
  proof (cases "ends s p = bp")
    case False
    then have "free_at bp p s = s\<lparr>hsize := (hsize s)(bp := n), hptr := (hptr s)(bp := z, p := bp), freep := p\<rparr>"
      using a p(1) by (simp add: free_at_eq n(1) join_lower_def)
    then show ?thesis using fr free_not_joined[OF ok b l p n(2-8) False] by auto
  next
    case True
    have "p + 8 * (hsize s p + n) \<le> brk s" using True n(7) by simp
    then have "wrap (hsize s p + n) = hsize s p + n" using f(9) by simp
    then have "free_at bp p s = s\<lparr>hsize := (hsize s)(bp := n, p := hsize s p + n), hptr := (hptr s)(bp := z, p := z), freep := p\<rparr>"
      using True a p(1) by (simp add: free_at_eq n(1) join_lower_def)
    then show ?thesis using fr free_joined[OF ok b l p n(2-8) True] by auto
  qed
qed

section \<open>Allocating a block\<close>

lemma header_in_heap: "heap_ok base s bs \<Longrightarrow> a \<in> set (base # bs) \<Longrightarrow> a < brk s"
  by (force simp: heap_ok_def)

lemma free_below_brk: "heap_ok base s bs \<Longrightarrow> x \<in> free_bytes s bs \<Longrightarrow> base + 8 \<le> x \<and> x < brk s"
  by (force simp: heap_ok_def free_bytes_def)

lemma heap_ok_grow:
  assumes ok: "heap_ok base s bs" and "brk s + k < 2 ^ 32"
  shows "heap_ok base (s\<lparr>brk := brk s + k, hsize := (hsize s)(brk s := n)\<rparr>) bs"
    and "free_bytes (s\<lparr>brk := brk s + k, hsize := (hsize s)(brk s := n)\<rparr>) bs = free_bytes s bs"
proof -
  have nin: "brk s \<notin> set (base # bs)" using header_in_heap[OF ok] by blast
  then have "spaced ((hsize s)(brk s := n)) (base # bs) = spaced (hsize s) (base # bs)" by (intro spaced_update)
  then show "heap_ok base (s\<lparr>brk := brk s + k, hsize := (hsize s)(brk s := n)\<rparr>) bs"
    using ok nin assms(2) unfolding heap_ok_def by (auto simp del: spaced_simps)
  show "free_bytes (s\<lparr>brk := brk s + k, hsize := (hsize s)(brk s := n)\<rparr>) bs = free_bytes s bs"
    unfolding free_bytes_def using nin by (intro SUP_cong) auto
qed

definition core :: "nat \<Rightarrow> nat" where "core nu = (if nu < 4096 then 4096 else nu)"

text \<open>
  \<open>more\<close>: the heap grew by \<open>k\<close> bytes, all free, and there is a free block of at least \<open>n\<close> units; headers
  of blocks in use are as they were.
\<close>

definition grown :: "nat \<Rightarrow> uheap \<Rightarrow> nat list \<Rightarrow> nat \<Rightarrow> uheap \<Rightarrow> nat list \<Rightarrow> bool" where
  "grown base s bs n t cs \<longleftrightarrow> heap_ok base t cs \<and> brk s \<le> brk t \<and> free_bytes t cs = free_bytes s bs \<union> {brk s ..< brk t} \<and>
     (\<forall>x < brk s. x \<notin> free_bytes t cs \<longrightarrow> hsize t x = hsize s x) \<and> (\<exists>a \<in> set cs. n \<le> hsize t a)"

lemma morecore_ok:
  assumes ok: "heap_ok base s bs" and nu: "0 < nu" "nu < 2 ^ 28" and g: "\<forall>b k. k < 2 ^ 31 \<and> grow b k \<longrightarrow> b + k < 2 ^ 32"
  shows "if grow (brk s) (8 * core nu) then \<exists>t cs. morecore grow nu s = Some (True, t) \<and> grown base s bs nu t cs
     else morecore grow nu s = Some (False, s)"
proof -
  have w: "wrap (8 * core nu) = 8 * core nu" using nu by (simp add: core_def)
  show ?thesis
  proof (cases "grow (brk s) (8 * core nu)")
    case False
    then show ?thesis using w by (simp add: morecore_def core_def[symmetric])
  next
    case True
    let ?p = "brk s"
    let ?s = "s\<lparr>brk := brk s + 8 * core nu, hsize := (hsize s)(brk s := core nu)\<rparr>"
    have "8 * core nu < 2 ^ 31" using nu by (simp add: core_def)
    then have lim: "brk s + 8 * core nu < 2 ^ 32" using g True by blast
    note h = heap_ok_grow[OF ok lim, of "core nu"]
    have "?p \<notin> free_bytes s bs" "\<forall>x \<in> free_bytes s bs. x < brk s" using free_below_brk[OF ok] by blast+
    then have b: "block_ok base ?s bs ?p"
      unfolding block_ok_def h(2) using ok by (auto simp: heap_ok_def core_def)
    obtain t cs where t: "free (adv ?p 1) ?s = Some t" "freed base ?s bs ?p t cs" using free_block[OF h(1) b] by blast
    have mc: "morecore grow nu s = Some (True, t)"
      using True w t(1) lim by (simp add: morecore_def core_def[symmetric] Let_def)
    have "\<exists>a \<in> set cs. core nu \<le> hsize t a" using t(2) by (auto simp: freed_def)
    moreover have "nu \<le> core nu" by (simp add: core_def)
    ultimately have "\<exists>a \<in> set cs. nu \<le> hsize t a" using le_trans by blast
    then have "grown base s bs nu t cs"
      using t(2) unfolding freed_def grown_def h(2) by auto
    then show ?thesis using True mc by auto
  qed
qed

text \<open>Cutting a block off the end of a free one, or taking all of it.\<close>

definition taken :: "nat \<Rightarrow> uheap \<Rightarrow> nat list \<Rightarrow> nat \<Rightarrow> nat \<Rightarrow> uheap \<Rightarrow> nat list \<Rightarrow> bool" where
  "taken base s bs n q t cs \<longleftrightarrow> heap_ok base t cs \<and> brk t = brk s \<and> hsize t q = n \<and> base + 8 \<le> q \<and> q + 8 * n \<le> brk s \<and>
     free_bytes s bs = free_bytes t cs \<union> {q ..< q + 8 * n} \<and> free_bytes t cs \<inter> {q ..< q + 8 * n} = {} \<and>
     (\<forall>x. x \<notin> free_bytes s bs \<longrightarrow> hsize t x = hsize s x)"

lemma spaced_mono: "spaced sz l \<Longrightarrow> \<forall>a \<in> set l. sz' a \<le> sz a \<Longrightarrow> spaced sz' l"
proof (induction l)
  case (Cons a l)
  have "a + 8 * sz' a < b" if "b \<in> set l" for b
  proof -
    have "a + 8 * sz a < b" "sz' a \<le> sz a" using Cons.prems that by auto
    then show ?thesis by linarith
  qed
  then show ?case using Cons by simp
qed simp

lemma extents_cong:
  "\<forall>a \<in> set xs. hsize t a = hsize s a \<Longrightarrow> (\<Union>a \<in> set xs. {a ..< ends t a}) = (\<Union>a \<in> set xs. {a ..< ends s a})"
  by simp

lemma fitting_facts:
  assumes ok: "heap_ok base s bs" and l: "base # bs = as @ pr # v # ys" and n: "0 < n" "n \<le> hsize s v"
  shows "v \<noteq> base" "base + 8 \<le> v" "ends s v \<le> brk s" "hptr s pr = v" "path (hptr s) (hptr s v) ys base"
    "\<forall>a \<in> set (as @ [pr]). ends s a < v" "\<forall>a \<in> set ys. ends s v < a" "v \<notin> set (as @ pr # ys)" "pr \<notin> set as"
    "free_bytes s bs = (\<Union>a \<in> set (as @ pr # ys). {a ..< ends s a}) \<union> {v ..< ends s v}"
    "(\<Union>a \<in> set (as @ pr # ys). {a ..< ends s a}) \<inter> {v ..< ends s v} = {}"
proof -
  note f = ring_facts[OF ok l]
  have ring: "path (hptr s) base (as @ pr # v # ys) base" "spaced (hsize s) (as @ pr # v # ys)"
    using ok unfolding heap_ok_def l by blast+
  have m: "v \<in> set (as @ pr # v # ys)" by simp
  show vb: "v \<noteq> base" using n f(7) by auto
  show "base + 8 \<le> v" "ends s v \<le> brk s" using bspec[OF f(6) m] bspec[OF f(5) m] vb by simp_all
  show "hptr s pr = v" "path (hptr s) (hptr s v) ys base" using ring(1) by (auto simp: path_append)
  show lt: "\<forall>a \<in> set (as @ [pr]). ends s a < v" "\<forall>a \<in> set ys. ends s v < a" using ring(2) by auto
  show "v \<notin> set (as @ pr # ys)" using lt by (auto dest: bspec)
  show "pr \<notin> set as" by (rule f(4))
  show "free_bytes s bs = (\<Union>a \<in> set (as @ pr # ys). {a ..< ends s a}) \<union> {v ..< ends s v}"
    using free_bytes_base[OF f(7), of bs] unfolding l by (auto simp: free_bytes_def)
  have "{a ..< ends s a} \<inter> {v ..< ends s v} = {}" if "a \<in> set (as @ pr # ys)" for a
  proof -
    have "ends s a < v \<or> ends s v < a" using that lt by auto
    then show ?thesis by auto
  qed
  then show "(\<Union>a \<in> set (as @ pr # ys). {a ..< ends s a}) \<inter> {v ..< ends s v} = {}" by blast
qed

lemma take_all:
  assumes ok: "heap_ok base s bs" and l: "base # bs = as @ pr # v # ys" and n: "0 < n" "n = hsize s v"
  shows "\<exists>cs. taken base s bs n v (s\<lparr>hptr := (hptr s)(pr := hptr s v), freep := pr\<rparr>) cs"
proof -
  note f = ring_facts[OF ok l] and v = fitting_facts[OF ok l n(1) eq_imp_le[OF n(2)]]
  let ?t = "s\<lparr>hptr := (hptr s)(pr := hptr s v), freep := pr\<rparr>"
  have sp: "spaced (hsize s) (as @ pr # v # ys)" using ok unfolding heap_ok_def l by blast
  obtain cs where cs: "base # cs = as @ pr # ys" using f(10) by (cases as) auto
  have "heap_ok base ?t cs"
  proof (rule heap_okI[OF cs])
    have "pr \<notin> set ys" using v(6,7) by force
    then show "path (hptr ?t) base (as @ pr # ys) base" using f(3) v(5,9) by (auto simp: path_append)
    show "spaced (hsize ?t) (as @ pr # ys)" using sp by simp
    show "\<forall>a \<in> set (as @ pr # ys). a = base \<or> 0 < hsize ?t a \<and> base + 8 \<le> a" using f(6) by simp
    show "\<forall>a \<in> set (as @ pr # ys). ends ?t a \<le> brk ?t" using f(5) by simp
  qed (use f(7-9) ok in \<open>simp_all add: heap_ok_def\<close>)
  moreover have "free_bytes ?t cs = (\<Union>a \<in> set (as @ pr # ys). {a ..< ends s a})"
    using free_bytes_base[of ?t base cs] f(7) unfolding cs by (simp add: free_bytes_def)
  ultimately have "taken base s bs n v ?t cs" unfolding taken_def v(10) using v(1-3,11) n(2) by simp
  then show ?thesis by blast
qed

lemma take_part:
  assumes ok: "heap_ok base s bs" and l: "base # bs = as @ pr # v # ys" and n: "0 < n" "0 < k" "hsize s v = k + n"
  shows "taken base s bs n (v + 8 * k) (s\<lparr>hsize := (hsize s)(v := k, v + 8 * k := n), freep := pr\<rparr>) bs"
proof -
  have "n \<le> hsize s v" using n(3) by simp
  note f = ring_facts[OF ok l] and v = fitting_facts[OF ok l n(1) this]
  let ?q = "v + 8 * k"
  let ?t = "s\<lparr>hsize := (hsize s)(v := k, ?q := n), freep := pr\<rparr>"
  have ring: "path (hptr s) base (as @ pr # v # ys) base" "spaced (hsize s) (as @ pr # v # ys)"
    using ok unfolding heap_ok_def l by blast+
  have e: "?q + 8 * n = ends s v" using n(3) by simp
  have qn: "?q \<notin> set (as @ pr # ys)"
  proof
    assume "?q \<in> set (as @ pr # ys)"
    then have "ends s ?q < v \<or> ends s v < ?q" using v(6,7) by auto
    then show False using n e by linarith
  qed
  then have "?q \<notin> set (as @ pr # v # ys)" using n(2) by auto
  then have qb: "?q \<noteq> base" unfolding l[symmetric] by simp
  have sz: "hsize ?t v = k" "\<forall>a \<in> set (as @ pr # ys). hsize ?t a = hsize s a" using qn v(8) n(2) by auto
  have le: "\<forall>a \<in> set (as @ pr # v # ys). hsize ?t a \<le> hsize s a" using sz n(3) by auto
  have "heap_ok base ?t bs"
  proof (rule heap_okI[OF l])
    show "spaced (hsize ?t) (as @ pr # v # ys)" by (rule spaced_mono[OF ring(2) le])
    show "\<forall>a \<in> set (as @ pr # v # ys). a = base \<or> 0 < hsize ?t a \<and> base + 8 \<le> a" using f(6) sz n(2) v(2) by auto
    show "\<forall>a \<in> set (as @ pr # v # ys). ends ?t a \<le> brk ?t"
    proof
      fix a assume a: "a \<in> set (as @ pr # v # ys)"
      have "ends s a \<le> brk s" "hsize ?t a \<le> hsize s a" using bspec[OF f(5) a] bspec[OF le a] by simp_all
      then show "ends ?t a \<le> brk ?t" by (simp del: fun_upd_apply)
    qed
  qed (use f(7-9) ring(1) ok v(1) qb in \<open>simp_all add: heap_ok_def\<close>)
  moreover have "free_bytes s bs = free_bytes ?t bs \<union> {?q ..< ?q + 8 * n} \<and> free_bytes ?t bs \<inter> {?q ..< ?q + 8 * n} = {}"
  proof -
    have "hsize ?t base = 0" using f(7) v(1) qb by simp
    then have "free_bytes ?t bs = free_bytes ?t (as @ pr # v # ys)" unfolding l[symmetric] by (rule free_bytes_base[symmetric])
    also have "\<dots> = (\<Union>a \<in> set (as @ pr # ys). {a ..< ends ?t a}) \<union> {v ..< ends ?t v}" unfolding free_bytes_def by auto
    finally have fc: "free_bytes ?t bs = (\<Union>a \<in> set (as @ pr # ys). {a ..< ends s a}) \<union> {v ..< ?q}"
      unfolding extents_cong[OF sz(2)] sz(1) .
    have "{v ..< ends s v} = {v ..< ?q} \<union> {?q ..< ?q + 8 * n}" "{v ..< ?q} \<inter> {?q ..< ?q + 8 * n} = {}" unfolding e using n(3) by auto
    then show ?thesis using v(11) unfolding v(10) fc by blast
  qed
  moreover have "hsize ?t x = hsize s x" if "x \<notin> free_bytes s bs" for x
  proof -
    have "v \<in> {v ..< ends s v}" "?q \<in> {v ..< ends s v}" using n by simp_all
    then have "x \<noteq> v" "x \<noteq> ?q" using that unfolding v(10) by blast+
    then show ?thesis by simp
  qed
  moreover have "hsize ?t ?q = n" "base + 8 \<le> ?q" "?q + 8 * n \<le> brk s" using v(2,3) e by simp_all
  ultimately show ?thesis unfolding taken_def by (simp del: fun_upd_apply)
qed

lemma take_block_ok:
  assumes ok: "heap_ok base s bs" and l: "base # bs = as @ pr # v # ys" and n: "0 < n" "n \<le> hsize s v"
  shows "\<exists>q t cs. take_block n pr v s = (adv q 1, t) \<and> taken base s bs n q t cs"
proof (cases "hsize s v = n")
  case True
  then show ?thesis using take_all[OF ok l n(1)] by (auto simp: take_block_def)
next
  case False
  let ?k = "hsize s v - n"
  have k: "0 < ?k" "hsize s v = ?k + n" using False n by simp_all
  have "adv v ?k = v + 8 * ?k" using fitting_facts(3)[OF ok l n] ring_facts(9)[OF ok l] k(2) by (simp add: adv_def)
  then have "take_block n pr v s = (adv (v + 8 * ?k) 1, s\<lparr>hsize := (hsize s)(v := ?k, v + 8 * ?k := n), freep := pr\<rparr>)"
    using False by (simp add: take_block_def Let_def)
  then show ?thesis using take_part[OF ok l n(1) k] by blast
qed

section \<open>The search of malloc\<close>

lemma scan:
  "path (hptr s) a vs b \<Longrightarrow> \<forall>x \<in> set vs. hsize s x < n \<and> x \<noteq> freep s \<Longrightarrow>
   malloc_loop grow n pr a s = malloc_loop grow n (last (pr # vs)) b s"
proof (induction vs arbitrary: pr a)
  case (Cons v vs)
  then have "malloc_loop grow n pr a s = malloc_loop grow n v (hptr s v) s" by (subst malloc_loop.simps) auto
  also have "\<dots> = malloc_loop grow n (last (v # vs)) b s" using Cons by auto
  finally show ?case by simp
qed simp

lemma ring_around:
  assumes ok: "heap_ok base s bs"
  obtains xs ys where "base # bs = xs @ freep s # ys" "path (hptr s) (hptr s (freep s)) ys base" "path (hptr s) base xs (freep s)"
    "freep s \<notin> set xs" "freep s \<notin> set ys"
proof -
  have "freep s \<in> set (base # bs)" using ok unfolding heap_ok_def by blast
  then obtain xs ys where l: "base # bs = xs @ freep s # ys" by (meson split_list)
  have r: "path (hptr s) base (xs @ freep s # ys) base" "spaced (hsize s) (xs @ freep s # ys)" using ok unfolding heap_ok_def l by blast+
  have "path (hptr s) (hptr s (freep s)) ys base" "path (hptr s) base xs (freep s)" "freep s \<notin> set xs" "freep s \<notin> set ys"
    using r by (auto simp: path_append)
  then show thesis by (rule that[OF l])
qed

lemma malloc_none:
  assumes ok: "heap_ok base s bs" and none: "\<forall>a \<in> set (base # bs). hsize s a < n"
  shows "malloc_loop grow n (freep s) (hptr s (freep s)) s =
     (case morecore grow n s of
        None \<Rightarrow> None
      | Some (got, s) \<Rightarrow> if \<not> got then Some (None, s) else malloc_loop grow n (freep s) (hptr s (freep s)) s)"
proof -
  obtain xs ys where r: "base # bs = xs @ freep s # ys" "path (hptr s) (hptr s (freep s)) ys base" "path (hptr s) base xs (freep s)"
    "freep s \<notin> set xs" "freep s \<notin> set ys" by (rule ring_around[OF ok])
  have p: "path (hptr s) (hptr s (freep s)) (ys @ xs) (freep s)" using r(2,3) by (auto simp: path_append)
  have h: "\<forall>x \<in> set (ys @ xs). hsize s x < n \<and> x \<noteq> freep s" "hsize s (freep s) < n" using none r(4,5) unfolding r(1) by auto
  have "malloc_loop grow n (freep s) (hptr s (freep s)) s = malloc_loop grow n (last (freep s # ys @ xs)) (freep s) s"
    by (rule scan[OF p h(1)])
  also have "\<dots> = (case morecore grow n s of
        None \<Rightarrow> None
      | Some (got, s) \<Rightarrow> if \<not> got then Some (None, s) else malloc_loop grow n (freep s) (hptr s (freep s)) s)"
    using h(2) by (subst malloc_loop.simps) simp
  finally show ?thesis .
qed

lemma first_fit:
  assumes "\<exists>v \<in> set xs. n \<le> (f v :: nat)"
  obtains us v ws where "xs = us @ v # ws" "n \<le> f v" "\<forall>x \<in> set us. f x < n"
proof -
  obtain us v ws where "xs = us @ v # ws" "n \<le> f v" "\<forall>x \<in> set us. \<not> n \<le> f x"
    using split_list_first_prop[OF assms] by blast
  then show thesis using that by (auto simp: not_le)
qed

lemma malloc_fit:
  assumes ok: "heap_ok base s bs" and n: "0 < n" and fit: "\<exists>v \<in> set (base # bs). n \<le> hsize s v"
  shows "\<exists>as pr v ys. base # bs = as @ pr # v # ys \<and> n \<le> hsize s v \<and>
     malloc_loop grow n (freep s) (hptr s (freep s)) s = Some (map_prod Some id (take_block n pr v s))"
proof -
  obtain xs ys where r: "base # bs = xs @ freep s # ys" "path (hptr s) (hptr s (freep s)) ys base" "path (hptr s) base xs (freep s)"
    "freep s \<notin> set xs" "freep s \<notin> set ys" by (rule ring_around[OF ok])
  have found: "malloc_loop grow n pr v s = Some (map_prod Some id (take_block n pr v s))" if "n \<le> hsize s v" for pr v
    using that by (subst malloc_loop.simps) simp
  have b0: "hsize s base = 0" using ok by (simp add: heap_ok_def)
  show ?thesis
  proof (cases "\<exists>v \<in> set ys. n \<le> hsize s v")
    case True
    then obtain us v ws where u: "ys = us @ v # ws" "n \<le> hsize s v" "\<forall>x \<in> set us. hsize s x < n" by (rule first_fit)
    have pu: "path (hptr s) (hptr s (freep s)) us v" using r(2) u(1) by (auto simp: path_append)
    have "\<forall>x \<in> set us. hsize s x < n \<and> x \<noteq> freep s" using u(3) r(5) unfolding u(1) by auto
    then have "malloc_loop grow n (freep s) (hptr s (freep s)) s = malloc_loop grow n (last (freep s # us)) v s"
      by (rule scan[OF pu])
    moreover have "base # bs = (xs @ butlast (freep s # us)) @ last (freep s # us) # v # ws"
      unfolding r(1) u(1) by (metis append.assoc append_Cons append_butlast_last_id append_Nil list.distinct(1))
    ultimately show ?thesis using found[OF u(2)] u(2) by metis
  next
    case False
    then have "\<exists>v \<in> set (xs @ [freep s]). n \<le> hsize s v" using fit unfolding r(1) by auto
    then obtain us v ws where u: "xs @ [freep s] = us @ v # ws" "n \<le> hsize s v" "\<forall>x \<in> set us. hsize s x < n" by (rule first_fit)
    have "path (hptr s) base (xs @ [freep s]) (hptr s (freep s))" using r(3) by (auto simp: path_append)
    then have pu: "path (hptr s) base us v" unfolding u(1) by (auto simp: path_append)
    then have us: "us \<noteq> []" using u(2) n b0 by auto
    have "freep s \<notin> set us" using r(4) u(1) by (metis UnCI append_eq_append_conv2 butlast_append butlast_snoc in_set_butlastD list.distinct(1) set_append)
    then have ys: "\<forall>x \<in> set (ys @ us). hsize s x < n \<and> x \<noteq> freep s" using False u(3) r(5) by auto
    have "path (hptr s) (hptr s (freep s)) (ys @ us) v" using r(2) pu by (auto simp: path_append)
    then have "malloc_loop grow n (freep s) (hptr s (freep s)) s = malloc_loop grow n (last us) v s"
      using scan[of s _ "ys @ us" v n grow "freep s"] ys us by simp
    moreover have "base # bs = butlast us @ last us # v # ws @ ys"
      using r(1) u(1) us by (metis append.assoc append_Cons append_Nil append_butlast_last_id)
    ultimately show ?thesis using found[OF u(2)] u(2) by metis
  qed
qed

text \<open>
  What \<open>malloc\<close> returns: a block of \<open>n\<close> units at \<open>q\<close> that was free or is new; everything else that was
  free or is new is free now, and the headers of blocks in use are as they were.
\<close>

definition allocated :: "nat \<Rightarrow> uheap \<Rightarrow> nat list \<Rightarrow> nat \<Rightarrow> nat \<Rightarrow> uheap \<Rightarrow> nat list \<Rightarrow> bool" where
  "allocated base s bs n q t cs \<longleftrightarrow> heap_ok base t cs \<and> brk s \<le> brk t \<and> hsize t q = n \<and> base + 8 \<le> q \<and> q + 8 * n \<le> brk t \<and>
     free_bytes s bs \<union> {brk s ..< brk t} = free_bytes t cs \<union> {q ..< q + 8 * n} \<and> free_bytes t cs \<inter> {q ..< q + 8 * n} = {} \<and>
     (\<forall>x < brk s. x \<notin> free_bytes s bs \<longrightarrow> hsize t x = hsize s x)"

lemma malloc_fit_ok:
  assumes ok: "heap_ok base s bs" and n: "0 < n" and fit: "\<exists>v \<in> set (base # bs). n \<le> hsize s v"
  shows "\<exists>q t cs. malloc_loop grow n (freep s) (hptr s (freep s)) s = Some (Some (adv q 1), t) \<and> taken base s bs n q t cs"
proof -
  obtain as pr v ys where v: "base # bs = as @ pr # v # ys" "n \<le> hsize s v"
    "malloc_loop grow n (freep s) (hptr s (freep s)) s = Some (map_prod Some id (take_block n pr v s))"
    using malloc_fit[OF assms] by blast
  obtain q t cs where "take_block n pr v s = (adv q 1, t)" "taken base s bs n q t cs" using take_block_ok[OF ok v(1) n v(2)] by blast
  then show ?thesis using v(3) by auto
qed

lemma malloc_loop_ok:
  assumes ok: "heap_ok base s bs" and n: "0 < n" "n < 2 ^ 28" and g: "\<forall>b k. k < 2 ^ 31 \<and> grow b k \<longrightarrow> b + k < 2 ^ 32"
  shows "(\<exists>q t cs. malloc_loop grow n (freep s) (hptr s (freep s)) s = Some (Some (adv q 1), t) \<and> allocated base s bs n q t cs) \<or>
     malloc_loop grow n (freep s) (hptr s (freep s)) s = Some (None, s)"
proof (cases "\<exists>v \<in> set (base # bs). n \<le> hsize s v")
  case True
  obtain q t cs where "malloc_loop grow n (freep s) (hptr s (freep s)) s = Some (Some (adv q 1), t)" "taken base s bs n q t cs"
    using malloc_fit_ok[OF ok n(1) True] by blast
  moreover from this(2) have "allocated base s bs n q t cs" unfolding taken_def allocated_def by auto
  ultimately show ?thesis by blast
next
  case False
  then have none: "\<forall>a \<in> set (base # bs). hsize s a < n" by (auto simp: not_le)
  note u = malloc_none[OF ok none, of grow]
  have m: "if grow (brk s) (8 * core n) then \<exists>t cs. morecore grow n s = Some (True, t) \<and> grown base s bs n t cs
     else morecore grow n s = Some (False, s)" by (rule morecore_ok[OF ok n g])
  show ?thesis
  proof (cases "grow (brk s) (8 * core n)")
    case False
    then show ?thesis using u m by simp
  next
    case True
    then obtain s' bs' where s': "morecore grow n s = Some (True, s')" "grown base s bs n s' bs'" using m by auto
    then have ok': "heap_ok base s' bs'" and "\<exists>v \<in> set (base # bs'). n \<le> hsize s' v" by (auto simp: grown_def)
    then obtain q t cs where t: "malloc_loop grow n (freep s') (hptr s' (freep s')) s' = Some (Some (adv q 1), t)" "taken base s' bs' n q t cs"
      using malloc_fit_ok[OF ok' n(1)] by blast
    have g': "brk s \<le> brk s'" "free_bytes s' bs' = free_bytes s bs \<union> {brk s ..< brk s'}"
      "\<forall>x < brk s. x \<notin> free_bytes s' bs' \<longrightarrow> hsize s' x = hsize s x" using s'(2) by (auto simp: grown_def)
    have "hsize t x = hsize s x" if x: "x < brk s" "x \<notin> free_bytes s bs" for x
    proof -
      have "x \<notin> free_bytes s' bs'" unfolding g'(2) using x by simp
      then show ?thesis using t(2) g'(3) x(1) by (simp add: taken_def)
    qed
    then have "allocated base s bs n q t cs" using t(2) g'(1,2) unfolding taken_def allocated_def by auto
    then show ?thesis using u s'(1) t(1) by auto
  qed
qed

lemma units_bounds: "nbytes < 2 ^ 30 \<Longrightarrow> nbytes + 8 \<le> 8 * units nbytes \<and> 0 < units nbytes \<and> units nbytes < 2 ^ 28"
  unfolding units_def by simp linarith

section \<open>A program that allocates and frees\<close>

text \<open>
  The states that a program reaches by calls of \<open>malloc\<close>, with less than \<open>2 ^ 30\<close> bytes, and of \<open>free\<close>, with
  pointers that it has from \<open>malloc\<close> and has not freed.  \<open>live\<close> maps these pointers to the
  number of bytes that were asked for.
\<close>

inductive reaches :: "(nat \<Rightarrow> nat \<Rightarrow> bool) \<Rightarrow> nat \<Rightarrow> uheap \<Rightarrow> (nat \<rightharpoonup> nat) \<Rightarrow> bool" for grow base where
  start: "freep s = 0 \<Longrightarrow> 0 < base \<Longrightarrow> base + 8 \<le> brk s \<Longrightarrow> brk s < 2 ^ 32 \<Longrightarrow> reaches grow base s Map.empty"
| alloc: "reaches grow base s live \<Longrightarrow> n < 2 ^ 30 \<Longrightarrow> malloc grow base n s = Some (Some p, t) \<Longrightarrow>
     reaches grow base t (live(p \<mapsto> n))"
| alloc_fails: "reaches grow base s live \<Longrightarrow> n < 2 ^ 30 \<Longrightarrow> malloc grow base n s = Some (None, t) \<Longrightarrow> reaches grow base t live"
| release: "reaches grow base s live \<Longrightarrow> p \<in> dom live \<Longrightarrow> free p s = Some t \<Longrightarrow> reaches grow base t (live(p := None))"

text \<open>The extent of the block whose data begin at \<open>p\<close>, header included.\<close>

definition extent :: "uheap \<Rightarrow> nat \<Rightarrow> nat set" where
  "extent s p = {p - 8 ..< ends s (p - 8)}"

definition live_ok :: "nat \<Rightarrow> uheap \<Rightarrow> nat list \<Rightarrow> (nat \<rightharpoonup> nat) \<Rightarrow> bool" where
  "live_ok base s bs live \<longleftrightarrow>
     (\<forall>p n. live p = Some n \<longrightarrow> 8 \<le> p \<and> block_ok base s bs (p - 8) \<and> n + 8 \<le> 8 * hsize s (p - 8)) \<and>
     (\<forall>p p'. p \<in> dom live \<and> p' \<in> dom live \<and> p \<noteq> p' \<longrightarrow> extent s p \<inter> extent s p' = {})"

definition fresh :: "nat \<Rightarrow> uheap \<Rightarrow> bool" where
  "fresh base s \<longleftrightarrow> freep s = 0 \<and> 0 < base \<and> base + 8 \<le> brk s \<and> brk s < 2 ^ 32"

definition started :: "nat \<Rightarrow> uheap \<Rightarrow> uheap" where
  "started base s = s\<lparr>hptr := (hptr s)(base := base), freep := base, hsize := (hsize s)(base := 0)\<rparr>"

lemma started_ok: "fresh base s \<Longrightarrow> heap_ok base (started base s) []"
  by (simp add: fresh_def started_def heap_ok_def)

lemma heap_freep: "heap_ok base s bs \<Longrightarrow> freep s \<noteq> 0"
  by (auto simp: heap_ok_def)

text \<open>\<open>malloc\<close> on a list of free blocks, and its first call.\<close>

lemma malloc_ok:
  assumes "heap_ok base s bs" and n: "n < 2 ^ 30" and g: "\<forall>b k. k < 2 ^ 31 \<and> grow b k \<longrightarrow> b + k < 2 ^ 32"
  shows "(\<exists>q t cs. malloc grow base n s = Some (Some (adv q 1), t) \<and> allocated base s bs (units n) q t cs) \<or>
     malloc grow base n s = Some (None, s)"
proof -
  have "malloc grow base n s = malloc_loop grow (units n) (freep s) (hptr s (freep s)) s"
    using heap_freep[OF assms(1)] by (simp add: malloc_def)
  then show ?thesis using malloc_loop_ok[OF assms(1) _ _ g, of "units n"] units_bounds[OF n] by simp
qed

lemma malloc_fresh: "fresh base s \<Longrightarrow> malloc grow base n s = malloc grow base n (started base s)"
  using heap_freep[OF started_ok, of base s] by (simp add: malloc_def fresh_def) (simp add: started_def)

lemma live_block_kept:
  assumes b: "block_ok base s bs q" and sz: "hsize t q = hsize s q" and "brk s \<le> brk t"
    and "free_bytes t cs \<inter> {q ..< ends s q} = {}"
  shows "block_ok base t cs q"
  using assms by (auto simp: block_ok_def)

lemma alloc_live:
  assumes a: "allocated base s bs (units n) q t cs" and l: "live_ok base s bs live" and ok: "heap_ok base s bs" and n: "n < 2 ^ 30"
  shows "live_ok base t cs (live(q + 8 \<mapsto> n))"
proof -
  let ?new = "{q ..< q + 8 * units n}"
  have a': "brk s \<le> brk t" "hsize t q = units n" "base + 8 \<le> q" "q + 8 * units n \<le> brk t"
    "free_bytes s bs \<union> {brk s ..< brk t} = free_bytes t cs \<union> ?new" "free_bytes t cs \<inter> ?new = {}"
    "\<forall>x < brk s. x \<notin> free_bytes s bs \<longrightarrow> hsize t x = hsize s x" using a by (auto simp: allocated_def)
  have old: "hsize t (p - 8) = hsize s (p - 8)" "extent t p = extent s p" "extent s p \<inter> (free_bytes t cs \<union> ?new) = {}"
    "block_ok base t cs (p - 8)" if p: "p \<in> dom live" for p
  proof -
    have b: "block_ok base s bs (p - 8)" using l p by (auto simp: live_ok_def)
    then have x: "p - 8 \<in> extent s p" "extent s p \<inter> free_bytes s bs = {}" "\<forall>x \<in> extent s p. x < brk s"
      by (auto simp: block_ok_def extent_def)
    then have "p - 8 < brk s" "p - 8 \<notin> free_bytes s bs" by blast+
    then show h: "hsize t (p - 8) = hsize s (p - 8)" using a'(7) by blast
    then show "extent t p = extent s p" by (simp add: extent_def)
    show d: "extent s p \<inter> (free_bytes t cs \<union> ?new) = {}" unfolding a'(5)[symmetric] using x(2,3) by force
    show "block_ok base t cs (p - 8)" using d by (intro live_block_kept[OF b h a'(1)]) (auto simp: extent_def)
  qed
  have new: "extent t (q + 8) = ?new" using a'(2) by (simp add: extent_def)
  have "q + 8 \<notin> dom live"
  proof
    assume d: "q + 8 \<in> dom live"
    then have "block_ok base s bs (q + 8 - 8)" using l unfolding live_ok_def by blast
    then have "q \<in> extent s (q + 8)" by (simp add: block_ok_def extent_def)
    then show False using old(3)[OF d] units_bounds[OF n] by auto
  qed
  moreover have "block_ok base t cs q" using a'(2-4,6) units_bounds[OF n] by (auto simp: block_ok_def)
  moreover have "extent t p \<inter> extent t p' = {}"
    if d: "p \<in> dom (live(q + 8 \<mapsto> n))" "p' \<in> dom (live(q + 8 \<mapsto> n))" "p \<noteq> p'" for p p'
  proof -
    have e: "extent t r \<inter> ?new = {}" if "r \<in> dom live" for r using old(2,3)[OF that] by blast
    show ?thesis
    proof (cases "p = q + 8 \<or> p' = q + 8")
      case True
      then show ?thesis using d e[of p] e[of p'] new by auto
    next
      case False
      then have "p \<in> dom live" "p' \<in> dom live" using d by auto
      then show ?thesis using l d(3) old(2) unfolding live_ok_def by blast
    qed
  qed
  ultimately show ?thesis
    using l old(1,4) units_bounds[OF n] a'(2) unfolding live_ok_def by (auto simp: domIff split: if_splits)
qed

lemma release_live:
  assumes f: "freed base s bs (p - 8) t cs" and l: "live_ok base s bs live" and p: "p \<in> dom live"
  shows "live_ok base t cs (live(p := None))"
proof -
  have f': "free_bytes t cs = free_bytes s bs \<union> extent s p" "brk t = brk s" "\<forall>x. x \<notin> free_bytes t cs \<longrightarrow> hsize t x = hsize s x"
    using f by (auto simp: freed_def extent_def)
  have old: "hsize t (p' - 8) = hsize s (p' - 8)" "extent t p' = extent s p'" "block_ok base t cs (p' - 8)"
    if p': "p' \<in> dom live" "p' \<noteq> p" for p'
  proof -
    have b: "block_ok base s bs (p' - 8)" using l p'(1) unfolding live_ok_def by blast
    have "extent s p' \<inter> extent s p = {}" using l p p' unfolding live_ok_def by blast
    moreover have "extent s p' \<inter> free_bytes s bs = {}" "p' - 8 \<in> extent s p'" using b by (auto simp: block_ok_def extent_def)
    ultimately have d: "extent s p' \<inter> free_bytes t cs = {}" "p' - 8 \<notin> free_bytes t cs" unfolding f'(1) by blast+
    then show h: "hsize t (p' - 8) = hsize s (p' - 8)" using f'(3) by blast
    then show "extent t p' = extent s p'" by (simp add: extent_def)
    show "block_ok base t cs (p' - 8)" using d(1) f'(2) by (intro live_block_kept[OF b h]) (auto simp: extent_def)
  qed
  then show ?thesis using l unfolding live_ok_def by (auto simp: domIff split: if_splits)
qed

lemma reaches_inv:
  assumes "reaches grow base s live" and g: "\<forall>b k. k < 2 ^ 31 \<and> grow b k \<longrightarrow> b + k < 2 ^ 32"
  shows "fresh base s \<and> live = Map.empty \<or> (\<exists>bs. heap_ok base s bs \<and> live_ok base s bs live)"
  using assms(1)
proof (induction rule: reaches.induct)
  case (start s)
  then show ?case by (simp add: fresh_def)
next
  case (alloc s live n p t)
  obtain s' bs where s': "heap_ok base s' bs" "live_ok base s' bs live" "malloc grow base n s' = Some (Some p, t)"
    using alloc malloc_fresh[of base s grow n] started_ok[of base s] by (auto simp: live_ok_def)
  then obtain q cs where q: "p = adv q 1" "allocated base s' bs (units n) q t cs" using malloc_ok[OF s'(1) alloc(2) g] by auto
  then have "q + 8 * units n \<le> brk t" "brk t < 2 ^ 32" "heap_ok base t cs" by (auto simp: allocated_def heap_ok_def)
  then have "p = q + 8" "heap_ok base t cs" using units_bounds[OF alloc(2)] q(1) by (auto simp: adv_def)
  then show ?case using alloc_live[OF q(2) s'(2,1) alloc(2)] by blast
next
  case (alloc_fails s live n t)
  obtain s' bs where s': "heap_ok base s' bs" "live_ok base s' bs live" "malloc grow base n s' = Some (None, t)"
    using alloc_fails malloc_fresh[of base s grow n] started_ok[of base s] by (auto simp: live_ok_def)
  then have "t = s'" using malloc_ok[OF s'(1) alloc_fails(2) g] by auto
  then show ?case using s' by auto
next
  case (release s live p t)
  then obtain bs where bs: "heap_ok base s bs" "live_ok base s bs live" by auto
  then have b: "block_ok base s bs (p - 8)" "8 \<le> p" using release(2) unfolding live_ok_def by blast+
  then have "adv (p - 8) 1 = p" using bs(1) by (auto simp: adv_def block_ok_def heap_ok_def)
  then obtain cs where "freed base s bs (p - 8) t cs" using free_block[OF bs(1) b(1)] release(3) by auto
  moreover from this have "heap_ok base t cs" by (simp add: freed_def)
  ultimately show ?case using release_live[OF _ bs(2) release(2)] by blast
qed

text \<open>C39: The memory allocator is safe.  However a program allocates, less than \<open>2 ^ 30\<close> bytes at a time, and
  frees, if the kernel keeps a break that grows below \<open>2 ^ 32\<close>: every block that is in use lies in the heap and has the bytes that were asked for, no two
  blocks in use overlap, headers included, and each further call of \<open>malloc\<close>, and of \<open>free\<close> with a block in
  use, returns.\<close>
theorem malloc_safe:
  assumes r: "reaches grow base s live" and g: "\<forall>b k. k < 2 ^ 31 \<and> grow b k \<longrightarrow> b + k < 2 ^ 32"
  shows "(\<forall>p n. live p = Some n \<longrightarrow> base + 16 \<le> p \<and> p + n \<le> brk s) \<and>
    (\<forall>p n p' n'. live p = Some n \<and> live p' = Some n' \<and> p \<noteq> p' \<longrightarrow> {p - 8 ..< p + n} \<inter> {p' - 8 ..< p' + n'} = {}) \<and>
    (\<forall>n < 2 ^ 30. malloc grow base n s \<noteq> None) \<and> (\<forall>p \<in> dom live. free p s \<noteq> None)"
proof -
  obtain s' bs where s': "heap_ok base s' bs" "live_ok base s' bs live" "\<And>n. malloc grow base n s = malloc grow base n s'" "brk s' = brk s"
    "live \<noteq> Map.empty \<Longrightarrow> s' = s"
    using reaches_inv[OF r g] malloc_fresh[of base s grow] started_ok[of base s] by (auto simp: live_ok_def started_def)
  have b: "8 \<le> p" "block_ok base s' bs (p - 8)" "n + 8 \<le> 8 * hsize s' (p - 8)" if "live p = Some n" for p n
    using s'(2) that unfolding live_ok_def by blast+
  have in_extent: "{p - 8 ..< p + n} \<subseteq> extent s' p" if "live p = Some n" for p n using b[OF that] by (auto simp: extent_def)
  have "malloc grow base n s \<noteq> None" if "n < 2 ^ 30" for n using malloc_ok[OF s'(1) that g] s'(3) by auto
  moreover have "free p s \<noteq> None" if p: "p \<in> dom live" for p
  proof -
    obtain n where n: "live p = Some n" using p by blast
    then have "adv (p - 8) 1 = p" using b[OF n] s'(1) by (auto simp: adv_def block_ok_def heap_ok_def)
    moreover have "s' = s" using s'(5) n by auto
    ultimately show ?thesis using free_block[OF s'(1) b(2)[OF n]] by auto
  qed
  moreover have "{p - 8 ..< p + n} \<inter> {p' - 8 ..< p' + n'} = {}" if d: "live p = Some n" "live p' = Some n'" "p \<noteq> p'" for p n p' n'
  proof -
    have "extent s' p \<inter> extent s' p' = {}" using s'(2) d unfolding live_ok_def by blast
    then show ?thesis using in_extent[OF d(1)] in_extent[OF d(2)] by blast
  qed
  moreover have "base + 16 \<le> p \<and> p + n \<le> brk s" if "live p = Some n" for p n using b[OF that] s'(4) by (auto simp: block_ok_def)
  ultimately show ?thesis by blast
qed

definition demo_heap :: uheap where
  "demo_heap = \<lparr>hptr = \<lambda>_. 0, hsize = \<lambda>_. 0, freep = 0, brk = 0x2000\<rparr>"

definition demo_grow :: "nat \<Rightarrow> nat \<Rightarrow> bool" where
  "demo_grow b k \<longleftrightarrow> b + k < 0x80000000"

definition demo_full :: uheap where
  "demo_full = snd (the (malloc demo_grow 0x1000 20 (snd (the (malloc demo_grow 0x1000 5 demo_heap)))))"

lemmas demo_run = malloc_def malloc_loop.simps[of _ _ "0x1000" "0x1000"] malloc_loop.simps[of _ _ "0x1000" "0x2000"]
  find_slot.simps[of _ _ "0x1000"] take_block_def morecore_def free_def free_at_def adv_def units_def demo_grow_def demo_heap_def

lemma demo_first: "map_option fst (malloc demo_grow 0x1000 5 demo_heap) = Some (Some 0x9FF8)"
  by (simp add: demo_run Let_def)

lemma demo_second:
  "map_option fst (malloc demo_grow 0x1000 20 (snd (the (malloc demo_grow 0x1000 5 demo_heap)))) = Some (Some 0x9FD8)"
  by (simp add: demo_run Let_def)

lemma demo_reaches: "reaches demo_grow 0x1000 demo_full [0x9FF8 \<mapsto> 5, 0x9FD8 \<mapsto> 20]"
proof -
  let ?m = "malloc demo_grow 0x1000 5 demo_heap"
  have "reaches demo_grow 0x1000 demo_heap Map.empty" by (rule reaches.start) (simp_all add: demo_heap_def)
  moreover have "?m = Some (Some 0x9FF8, snd (the ?m))" using demo_first by (cases ?m) (auto simp: prod_eq_iff)
  ultimately have "reaches demo_grow 0x1000 (snd (the ?m)) [0x9FF8 \<mapsto> 5]" by (intro reaches.alloc) simp_all
  moreover have "malloc demo_grow 0x1000 20 (snd (the ?m)) = Some (Some 0x9FD8, demo_full)"
    unfolding demo_full_def using demo_second by (cases "malloc demo_grow 0x1000 20 (snd (the ?m))") (auto simp: prod_eq_iff)
  ultimately show ?thesis using reaches.alloc[of demo_grow "0x1000" "snd (the ?m)" "[0x9FF8 \<mapsto> 5]" 20] by simp
qed

theorem malloc_safe_witness:
  "reaches demo_grow 0x1000 demo_full [0x9FF8 \<mapsto> 5, 0x9FD8 \<mapsto> 20] \<and> 0x9FF8 + 5 \<le> brk demo_full \<and>
   malloc demo_grow 0x1000 5 demo_full \<noteq> None \<and> free 0x9FF8 demo_full \<noteq> None"
proof -
  have "\<forall>b k. k < 2 ^ 31 \<and> demo_grow b k \<longrightarrow> b + k < 2 ^ 32" by (simp add: demo_grow_def)
  note safe = malloc_safe[OF demo_reaches this]
  have "0x9FF8 + 5 \<le> brk demo_full" using conjunct1[OF safe, rule_format, of "0x9FF8" 5] by simp
  then show ?thesis using safe demo_reaches by simp
qed

text \<open>A request of nearly \<open>2 ^ 32\<close> bytes wraps around: one unit is allocated, the header alone.\<close>

lemma units_wrap: "units 0xFFFFFFF9 = 1" "units 0xFFFFFFFF = 1"
  by (simp_all add: units_def)

end
