(* ===== verification/Spec2Isabelle.thy ===== *)
theory Spec2Isabelle
  imports Stride Trap Tty Icache Grep Unparse Shrun Umalloc
begin

text \<open>
  A verification library for the xv6 kernel with a stride scheduler
  (\<^verbatim>\<open>src/stride_scheduler_xv6\<close>), and for its user library, shell and \<open>grep\<close>.

  \<^bold>\<open>The program.\<close>  A small Unix for 32-bit x86.  Processes enter the kernel by traps
  (\<^verbatim>\<open>trap.c\<close>); a system call is dispatched by \<^verbatim>\<open>syscall.c\<close> to \<^verbatim>\<open>sysfile.c\<close> and
  \<^verbatim>\<open>sysproc.c\<close>.  Below them are the open files and pipes, the file system with its inode
  cache, the redo log, the buffer cache and the disk driver, and beside them the process table with
  its scheduler, virtual memory and the page allocator.  Spin locks protect every shared table.
  The scheduler gives each process a stride of 10000 divided by its tickets and runs the
  process of least pass; every timer tick is accounted in \<open>trap\<close>.

  \<^bold>\<open>How it is modelled.\<close>  A routine is a function of its arguments and of the state to an
  \<open>outcome\<close>: a result and a new state, a panic, a fault (undefined behaviour or a processor exception), a
  lock that is held elsewhere, or the point where the CPU is given away.  The state is a chain of
  records, one for each layer, so that the routines of a layer are polymorphic in the layers above:
  \<open>machine\<close> (memory, CPUs, locks), \<open>cstate\<close> (console output), \<open>kstate\<close> (free pages),
  \<open>vstate\<close> (page tables), \<open>pstate\<close> (processes), \<open>hstate\<close> (interrupt controllers),
  \<open>dstate\<close> (disk, buffers), \<open>lstate\<close> (log), \<open>istate\<close> (inodes), \<open>nstate\<close> (console
  input), \<open>fstate\<close> (files, pipes), \<open>ustate\<close> and \<open>tstate\<close> (the first process, ticks and descriptor tables).  Memory is a function from
  32-bit addresses to bytes, and structures that the kernel keeps in static tables are lists of
  records.  Integers are words of their C width.  Arguments of definitions stand for what is outside the C sources.

  \<^bold>\<open>Theories of the kernel.\<close>
  \<^item> \<open>Prelude\<close>: words, bytes, memory, outcomes.  \<open>Mmu\<close>: \<^verbatim>\<open>mmu.h\<close>, \<^verbatim>\<open>memlayout.h\<close>,
    \<^verbatim>\<open>param.h\<close>.  \<open>Cstring\<close>: \<^verbatim>\<open>string.c\<close>; each routine does what its
    specification on byte ranges says, overlapping ranges included.
  \<^item> \<open>Spinlock\<close>: \<^verbatim>\<open>spinlock.c\<close>, once as functions and once as a step relation in which any
    number of CPUs interleave single accesses; mutual exclusion, no panic, interrupts off in the
    critical section.  \<open>Cprintf\<close>: the output half of \<^verbatim>\<open>console.c\<close>.
  \<^item> \<open>Kalloc\<close>: \<^verbatim>\<open>kalloc.c\<close>; the free list in memory refines a stack of pages (locale
    \<open>page_allocator\<close>).  \<open>Vm\<close>: \<^verbatim>\<open>vm.c\<close>, definitions, and that the loop of \<open>mappages\<close> has fuel enough.
  \<^item> \<open>Proc\<close>: \<^verbatim>\<open>proc.h\<close> and the schedulers, sleep and wakeup, kill and allocation of
    \<^verbatim>\<open>proc.c\<close>; what the search chooses, that a wakeup is not lost, that \<open>yield\<close> returns with locks as
    they were, what every branch of \<open>kill\<close> and \<open>allocproc\<close> does.  \<open>Stride\<close>: fairness and
    absence of starvation for any picker of least pass (locale \<open>least_pass_picker\<close>) while no counter overflows, and
    what happens when \<open>limitpass\<close> does.
  \<^item> \<open>Hw\<close>: \<^verbatim>\<open>picirq.c\<close>, \<^verbatim>\<open>ioapic.c\<close>, \<^verbatim>\<open>lapic.c\<close>, \<^verbatim>\<open>timer.c\<close>,
    \<^verbatim>\<open>mp.c\<close>.  \<open>Bio\<close>: \<^verbatim>\<open>ide.c\<close> and \<^verbatim>\<open>bio.c\<close>.  \<open>Layout\<close>: the records of
    \<^verbatim>\<open>fs.h\<close> in bytes, typed and with round trips.  \<open>Bcache\<close>: the contract of the buffer cache (locale
    \<open>block_cache\<close>).
  \<^item> \<open>Log\<close>: \<^verbatim>\<open>log.c\<close>.  \<open>Recovery\<close> and \<open>Transaction\<close>: a transaction runs to its
    end, and a crash between any two of its block writes is recovered to all of it or nothing.
  \<^item> \<open>Inode\<close> and \<open>Fs\<close>: \<^verbatim>\<open>fs.c\<close>.  \<open>Alloc\<close>: \<open>balloc\<close> and \<open>bfree\<close>.
    \<open>Icache\<close>: \<open>iupdate\<close> against \<open>ilock\<close>, and one slot for an inode.
  \<^item> \<open>Console\<close>: the input half of \<^verbatim>\<open>console.c\<close>, \<^verbatim>\<open>kbd.c\<close>, \<^verbatim>\<open>uart.c\<close>.
    \<open>Tty\<close>: the interrupt routine is a line editor.  \<open>File\<close>: \<^verbatim>\<open>file.c\<close> and
    \<^verbatim>\<open>pipe.c\<close>.  \<open>Pipe\<close>: a pipe is a bounded queue (locale \<open>byte_queue\<close>) across the
    wrap of its counters, on every branch of reading and writing.
  \<^item> \<open>Proclife\<close>: fork, exit, wait, \<^verbatim>\<open>exec.c\<close>.  \<open>Sysfile\<close>: \<^verbatim>\<open>syscall.c\<close>,
    \<^verbatim>\<open>sysfile.c\<close>.  \<open>Trap\<close>: \<^verbatim>\<open>sysproc.c\<close>, \<^verbatim>\<open>trap.c\<close>, \<^verbatim>\<open>main.c\<close>.  Of these three, and of
    \<open>Vm\<close>, \<open>Hw\<close> and \<open>Fs\<close>, the library has the definitions but no theorem of functional correctness.

  \<^bold>\<open>Theories of the user programs.\<close>
  \<^item> \<open>Ulib\<close>: \<^verbatim>\<open>ulib.c\<close> and \<^verbatim>\<open>printf.c\<close>; \<open>atoi\<close> reads what \<open>printf\<close> wrote.
  \<^item> \<open>Umalloc\<close>: \<^verbatim>\<open>umalloc.c\<close>; blocks in use never overlap, and every call returns.
  \<^item> \<open>Grep\<close>: the matcher decides the language of its patterns; the loop prints the matching lines.
  \<^item> \<open>Sh\<close>: the parser of \<^verbatim>\<open>sh.c\<close>; it ends on every line, its words are the words of the line.
    \<open>Unparse\<close>: it inverts a printer.  \<open>Shrun\<close>: \<open>runcmd\<close> and the command loop as trees of system
    calls; a pipeline runs each command once, with its standard files and nothing else open.

  \<^bold>\<open>Fuel.\<close>  Loops whose recursion is not structural have fuel that exceeds the number of rounds:
  the pages of a range (\<open>freerange\<close>, \<open>mappages\<close>), the bytes to copy (\<open>readi\<close>, \<open>writei\<close>,
  \<open>filewrite\<close>), the entries of a directory and two more, the bytes of a path, the groups of bitmap
  bits (\<open>balloc\<close>), the bytes that a device holds (\<open>consoleintr\<close>), four times the length
  of a line and four more in the parser.  That it is enough is proved for \<open>freerange\<close>, \<open>mappages\<close>,
  \<open>balloc\<close> with one bitmap block, \<open>consoleintr\<close> on the serial port, and the parser; running out is a fault, never a
  result.  \<open>mp_entries\<close> runs out where the C loop never ends.  Loops over
  pointers that may go round forever are partial functions with the result \<open>None\<close> in that case.

  \<^bold>\<open>Not modelled.\<close>  The assembly files and the boot loader: \<open>swtch\<close> appears as the points
  where control leaves and comes back, trap entry as the trap frame.  \<^verbatim>\<open>memide.c\<close>, which does not fit
  this \<^verbatim>\<open>buf.h\<close>; \<^verbatim>\<open>mkfs.c\<close>, a program for the host; the other user programs and tests;
  \<open>stat\<close> of \<^verbatim>\<open>ulib.c\<close>, \<open>main\<close> of \<open>grep\<close>, and the opening of the console in the shell, whose
  \<open>malloc\<close> is taken to succeed.  Of the inline assembly and the devices, the effect on the state is modelled, not the
  timing.  Routines other than the spin locks are run by one CPU at a time between the points where they
  give it away.
\<close>

end
